(* ===== verification/Prelude.thy ===== *)
theory Prelude
  imports Main "HOL-Library.List_Lexorder" "HOL-Library.Char_ord" "HOL-Library.Sublist"
begin

text \<open>
  Shared vocabulary of the development.

  \<^item> Fallible code (\<^verbatim>\<open>anyhow::Result\<close>) returns \<open>'a result\<close>, a sum whose left side is a
    value of the datatype \<open>error\<close>; \<open>bindR\<close> is the \<^verbatim>\<open>?\<close> operator and \<open>mapR\<close> is
    \<^verbatim>\<open>iter().map(f).collect::<Result<Vec<_>, _>>()\<close>.
  \<^item> Strings and byte strings are \<open>string\<close>: a \<open>char\<close> is one byte, and the library order on
    \<open>char list\<close> is Rust's order on byte slices.
  \<^item> Lists sorted by a key, which the tree encodings and the \<^verbatim>\<open>BTreeMap\<close>s of the code rest on.
\<close>

named_theorems result_simps \<open>evaluation rules of the result monad\<close>
named_theorems tree_simps \<open>characteristic equations of the operations on git trees\<close>
named_theorems wf_intros \<open>preservation of the invariant of git trees\<close>

subsection \<open>Results\<close>

datatype error =
    NoInvert
  | NotATree
  | NotABlob
  | NoName
  | EmptyPathline
  | InvalidPath
  | InvalidUtf8
  | MissingEntry string
  | UnknownStructure
  | UnknownLinkMode
  | InvalidRef
  | InvalidRegex
  | InvalidGlob
  | InvalidPrune
  | InvalidContentKind
  | WrongArity
  | NotBlobOrTree
  | NotApplicable string
  | ExperimentalDisabled string
  | UnresolvedRef
  | CannotUnapply
  | NoCommitContext
  | Unsupported
  | Panic
  | Failed string

type_synonym 'a result = "error + 'a"

definition bindR :: "'a result \<Rightarrow> ('a \<Rightarrow> 'b result) \<Rightarrow> 'b result" where
  "bindR m f = (case m of Inl e \<Rightarrow> Inl e | Inr x \<Rightarrow> f x)"

lemma bindR_simps [simp, result_simps]:
  "bindR (Inl e) f = Inl e"
  "bindR (Inr x) f = f x"
  by (simp_all add: bindR_def)

lemma bindR_cong [fundef_cong]:
  "m = m' \<Longrightarrow> (\<And>x. m' = Inr x \<Longrightarrow> f x = g x) \<Longrightarrow> bindR m f = bindR m' g"
  by (cases m') (auto simp: bindR_def)

lemma bindR_Inr_iff: "bindR m f = Inr y \<longleftrightarrow> (\<exists>x. m = Inr x \<and> f x = Inr y)"
  by (cases m) (auto simp: bindR_def)

lemma bindR_Inl_iff: "bindR m f = Inl e \<longleftrightarrow> m = Inl e \<or> (\<exists>x. m = Inr x \<and> f x = Inl e)"
  by (cases m) (auto simp: bindR_def)

lemma bindR_split:
  "P (bindR m f) \<longleftrightarrow> (\<forall>e. m = Inl e \<longrightarrow> P (Inl e)) \<and> (\<forall>x. m = Inr x \<longrightarrow> P (f x))"
  by (cases m) (auto simp: bindR_def)

definition ok :: "'a result \<Rightarrow> bool" where
  "ok m = (case m of Inl _ \<Rightarrow> False | Inr _ \<Rightarrow> True)"

lemma ok_simps [simp]: "\<not> ok (Inl e)" "ok (Inr x)"
  by (simp_all add: ok_def)

lemma ok_iff: "ok m \<longleftrightarrow> (\<exists>x. m = Inr x)"
  by (cases m) auto

definition of_option :: "error \<Rightarrow> 'a option \<Rightarrow> 'a result" where
  "of_option e m = (case m of None \<Rightarrow> Inl e | Some x \<Rightarrow> Inr x)"

lemma of_option_simps [simp, result_simps]:
  "of_option e None = Inl e"
  "of_option e (Some x) = Inr x"
  by (simp_all add: of_option_def)

lemma of_option_Inr_iff [simp]: "of_option e m = Inr x \<longleftrightarrow> m = Some x"
  by (cases m) auto

fun mapR :: "('a \<Rightarrow> 'b result) \<Rightarrow> 'a list \<Rightarrow> 'b list result" where
  "mapR f [] = Inr []"
| "mapR f (x # xs) = bindR (f x) (\<lambda>y. bindR (mapR f xs) (\<lambda>ys. Inr (y # ys)))"

lemma mapR_cong [fundef_cong]:
  "xs = ys \<Longrightarrow> (\<And>x. x \<in> set ys \<Longrightarrow> f x = g x) \<Longrightarrow> mapR f xs = mapR g ys"
  by (induction ys arbitrary: xs) auto

lemma mapR_Inr_iff: "mapR f xs = Inr ys \<longleftrightarrow> list_all2 (\<lambda>x y. f x = Inr y) xs ys"
  by (induction xs arbitrary: ys) (auto simp: bindR_Inr_iff list_all2_Cons1)

lemma mapR_Inr: "(\<And>x. x \<in> set xs \<Longrightarrow> f x = Inr (g x)) \<Longrightarrow> mapR f xs = Inr (map g xs)"
  by (induction xs) auto

lemma mapR_ok: "(\<And>x. x \<in> set xs \<Longrightarrow> ok (f x)) \<Longrightarrow> ok (mapR f xs)"
  by (induction xs) (fastforce simp: ok_iff)+

lemma mapR_append [simp]:
  "mapR f (xs @ ys) = bindR (mapR f xs) (\<lambda>as. bindR (mapR f ys) (\<lambda>bs. Inr (as @ bs)))"
proof (induction xs)
  case Nil
  then show ?case by (cases "mapR f ys") auto
next
  case (Cons x xs)
  then show ?case by (cases "f x"; cases "mapR f xs"; cases "mapR f ys") auto
qed

fun foldR :: "('a \<Rightarrow> 'b \<Rightarrow> 'a result) \<Rightarrow> 'a \<Rightarrow> 'b list \<Rightarrow> 'a result" where
  "foldR f a [] = Inr a"
| "foldR f a (x # xs) = bindR (f a x) (\<lambda>a'. foldR f a' xs)"

lemma foldR_cong [fundef_cong]:
  "a = b \<Longrightarrow> xs = ys \<Longrightarrow> (\<And>a x. x \<in> set ys \<Longrightarrow> f a x = g a x) \<Longrightarrow> foldR f a xs = foldR g b ys"
proof (induction ys arbitrary: a b xs)
  case Nil
  then show ?case by simp
next
  case (Cons y ys)
  then have "foldR f c ys = foldR g c ys" for c by simp
  then show ?case using Cons.prems by (auto intro: bindR_cong)
qed

lemma foldR_append [simp]: "foldR f a (xs @ ys) = bindR (foldR f a xs) (\<lambda>b. foldR f b ys)"
proof (induction xs arbitrary: a)
  case (Cons x xs)
  then show ?case by (cases "f a x") auto
qed simp

subsection \<open>Finding list elements\<close>

lemma find_cong_set: "(\<And>x. x \<in> set xs \<Longrightarrow> P x = Q x) \<Longrightarrow> find P xs = find Q xs"
  by (induction xs) auto

lemma find_map: "find P (map f xs) = map_option f (find (P \<circ> f) xs)"
  by (induction xs) auto

lemma find_append: "find P (xs @ ys) = (case find P xs of None \<Rightarrow> find P ys | Some x \<Rightarrow> Some x)"
  by (induction xs) auto

lemma find_SomeD: "find P xs = Some x \<Longrightarrow> x \<in> set xs \<and> P x"
  by (induction xs) (auto split: if_splits)

lemma find_None_iff_all: "find P xs = None \<longleftrightarrow> (\<forall>x\<in>set xs. \<not> P x)"
  by (induction xs) auto

lemma find_distinct_key:
  assumes "distinct (map k xs)" and "x \<in> set xs" and "k x = a"
  shows "find (\<lambda>y. k y = a) xs = Some x"
  using assms by (induction xs) auto

lemma find_distinct_key_iff:
  assumes "distinct (map k xs)"
  shows "find (\<lambda>y. k y = a) xs = Some x \<longleftrightarrow> x \<in> set xs \<and> k x = a"
  using assms by (auto dest: find_SomeD intro: find_distinct_key)

lemma size_entry_less: "x \<in> set xs \<Longrightarrow> f x < Suc (size_list f xs)"
  by (induction xs) auto

subsection \<open>Lists sorted by a key\<close>

lemma sorted_key_unique:
  fixes key :: "'a \<Rightarrow> 'b :: linorder"
  assumes "sorted_wrt (\<lambda>x y. key x < key y) xs" and "sorted_wrt (\<lambda>x y. key x < key y) ys"
    and "set xs = set ys"
  shows "xs = ys"
  using assms
proof (induction xs arbitrary: ys)
  case Nil
  then show ?case by simp
next
  case (Cons x xs)
  then obtain y ys' where ys: "ys = y # ys'" by (cases ys) auto
  have xy: "x = y"
  proof (rule ccontr)
    assume "x \<noteq> y"
    with Cons.prems ys have "x \<in> set ys'" and "y \<in> set xs" by auto
    with Cons.prems ys have "key y < key x" and "key x < key y" by auto
    then show False by simp
  qed
  have "x \<notin> set xs" and "y \<notin> set ys'" using Cons.prems ys by auto
  with Cons.prems ys xy have "set xs = set ys'" by auto
  with Cons.IH [of ys'] Cons.prems ys xy show ?case by simp
qed

lemma sorted_key_distinct:
  fixes key :: "'a \<Rightarrow> 'b :: linorder"
  shows "sorted_wrt (\<lambda>x y. key x < key y) xs \<Longrightarrow> distinct (map key xs)"
  by (induction xs) auto

lemma sorted_wrt_filter: "sorted_wrt P xs \<Longrightarrow> sorted_wrt P (filter Q xs)"
  by (induction xs) auto

lemma sorted_wrt_map_key:
  "(\<And>x. x \<in> set xs \<Longrightarrow> key (f x) = key x) \<Longrightarrow>
   sorted_wrt (\<lambda>x y. key x < key y) (map f xs) \<longleftrightarrow> sorted_wrt (\<lambda>x y. key x < key y) xs"
  by (induction xs) auto

subsection \<open>Position of an element\<close>

fun position :: "('a \<Rightarrow> bool) \<Rightarrow> 'a list \<Rightarrow> nat option" where
  "position P [] = None"
| "position P (x # xs) = (if P x then Some 0 else map_option Suc (position P xs))"

subsection \<open>UTF-8\<close>

text \<open>
  \<^verbatim>\<open>std::str::from_utf8\<close>: the byte sequences of the table of well-formed UTF-8 (no overlong
  forms, no surrogates, nothing above U+10FFFF).
\<close>

definition byte :: "char \<Rightarrow> nat" where
  "byte c = of_char c"

definition cont_byte :: "char \<Rightarrow> bool" where
  "cont_byte c = (128 \<le> byte c \<and> byte c \<le> 191)"

fun valid_utf8 :: "string \<Rightarrow> bool" where
  "valid_utf8 [] = True"
| "valid_utf8 (a # s) =
    (if byte a \<le> 127 then valid_utf8 s
     else case s of
       [] \<Rightarrow> False
     | b # s2 \<Rightarrow>
        if 194 \<le> byte a \<and> byte a \<le> 223 then cont_byte b \<and> valid_utf8 s2
        else case s2 of
          [] \<Rightarrow> False
        | c # s3 \<Rightarrow>
           if 224 \<le> byte a \<and> byte a \<le> 239
           then (if byte a = 224 then 160 \<le> byte b \<and> byte b \<le> 191
                 else if byte a = 237 then 128 \<le> byte b \<and> byte b \<le> 159
                 else cont_byte b) \<and> cont_byte c \<and> valid_utf8 s3
           else case s3 of
             [] \<Rightarrow> False
           | d # s4 \<Rightarrow>
              240 \<le> byte a \<and> byte a \<le> 244 \<and>
              (if byte a = 240 then 144 \<le> byte b \<and> byte b \<le> 191
               else if byte a = 244 then 128 \<le> byte b \<and> byte b \<le> 143
               else cont_byte b) \<and> cont_byte c \<and> cont_byte d \<and> valid_utf8 s4)"

definition from_utf8 :: "string \<Rightarrow> string result" where
  "from_utf8 s = (if valid_utf8 s then Inr s else Inl InvalidUtf8)"

lemma from_utf8_Inr_iff: "from_utf8 s = Inr t \<longleftrightarrow> valid_utf8 s \<and> t = s"
  by (auto simp: from_utf8_def)

lemma from_utf8_valid [simp]: "valid_utf8 s \<Longrightarrow> from_utf8 s = Inr s"
  by (simp add: from_utf8_def)

definition ascii :: "string \<Rightarrow> bool" where
  "ascii s = list_all (\<lambda>c. byte c \<le> 127) s"

lemma valid_utf8_ascii: "ascii s \<Longrightarrow> valid_utf8 s"
  by (induction s) (auto simp: ascii_def)

subsection \<open>Rust string helpers\<close>

fun starts_with :: "string \<Rightarrow> string \<Rightarrow> bool" where
  "starts_with [] s = True"
| "starts_with (p # ps) [] = False"
| "starts_with (p # ps) (c # s) = (p = c \<and> starts_with ps s)"

definition strip_prefix :: "string \<Rightarrow> string \<Rightarrow> string option" where
  "strip_prefix p s = (if starts_with p s then Some (drop (length p) s) else None)"

lemma starts_with_append [simp]: "starts_with p (p @ s)"
  by (induction p) auto

lemma strip_prefix_append [simp]: "strip_prefix p (p @ s) = Some s"
  by (simp add: strip_prefix_def)

end
