(* ===== verification/Std_Path.thy ===== *)
theory Std_Path
  imports Prelude
begin

text \<open>
  Paths as the filters use them. A \<^verbatim>\<open>std::path::PathBuf\<close> is modelled by the sequence of its
  components, which is what Rust's equality, order and hash on paths look at (so \<^verbatim>\<open>a//b\<close>,
  \<^verbatim>\<open>a/./b\<close> and \<^verbatim>\<open>a/b\<close> are one path). \<open>path_of_string\<close> is \<^verbatim>\<open>PathBuf::from\<close>,
  \<open>path_str\<close> the text of a path, and \<open>normalize_path\<close> is the function of that name that the
  filter optimizer and josh-core both have.
\<close>

datatype component = RootDir | CurDir | ParentDir | Normal string

type_synonym path = "component list"

fun component_rank :: "component \<Rightarrow> nat \<times> string" where
  "component_rank RootDir = (0, [])"
| "component_rank CurDir = (1, [])"
| "component_rank ParentDir = (2, [])"
| "component_rank (Normal s) = (3, s)"

lemma component_rank_inject: "component_rank a = component_rank b \<Longrightarrow> a = b"
  by (cases a; cases b) auto

text \<open>Rust derives the order of components: the constructors in order, then the bytes of the name.\<close>

instantiation component :: linorder
begin

definition less_eq_component :: "component \<Rightarrow> component \<Rightarrow> bool" where
  "less_eq_component a b \<longleftrightarrow>
     fst (component_rank a) < fst (component_rank b) \<or>
     fst (component_rank a) = fst (component_rank b) \<and>
     snd (component_rank a) \<le> snd (component_rank b)"

definition less_component :: "component \<Rightarrow> component \<Rightarrow> bool" where
  "less_component a b \<longleftrightarrow> a \<le> b \<and> \<not> b \<le> a"

instance
proof
  fix a b c :: component
  show "a < b \<longleftrightarrow> a \<le> b \<and> \<not> b \<le> a" by (rule less_component_def)
  show "a \<le> a" by (simp add: less_eq_component_def)
  show "a \<le> b \<Longrightarrow> b \<le> c \<Longrightarrow> a \<le> c" by (auto simp: less_eq_component_def)
  show "a \<le> b \<Longrightarrow> b \<le> a \<Longrightarrow> a = b"
    by (auto simp: less_eq_component_def intro!: component_rank_inject prod_eqI)
  show "a \<le> b \<or> b \<le> a" by (auto simp: less_eq_component_def)
qed

end

subsection \<open>Text of a path\<close>

fun split_at_char :: "char \<Rightarrow> string \<Rightarrow> string list" where
  "split_at_char c [] = [[]]"
| "split_at_char c (x # s) =
    (if x = c then [] # split_at_char c s
     else case split_at_char c s of [] \<Rightarrow> [[x]] | w # ws \<Rightarrow> (x # w) # ws)"

definition slash :: char where "slash = CHR ''/''"

fun component_of_piece :: "string \<Rightarrow> component list" where
  "component_of_piece w =
    (if w = [] \<or> w = ''.'' then [] else if w = ''..'' then [ParentDir] else [Normal w])"

definition path_of_string :: "string \<Rightarrow> path" where
  "path_of_string s =
    (let ws = split_at_char slash s in
     if s \<noteq> [] \<and> hd s = slash then RootDir # concat (map component_of_piece ws)
     else (if hd ws = ''.'' then [CurDir] else []) @ concat (map component_of_piece ws))"

fun component_str :: "component \<Rightarrow> string" where
  "component_str RootDir = []"
| "component_str CurDir = ''.''"
| "component_str ParentDir = ''..''"
| "component_str (Normal n) = n"

fun join_str :: "string \<Rightarrow> string list \<Rightarrow> string" where
  "join_str sep [] = []"
| "join_str sep [w] = w"
| "join_str sep (w # ws) = w @ sep @ join_str sep ws"

definition path_str :: "path \<Rightarrow> string" where
  "path_str p = (if p = [RootDir] then ''/'' else join_str ''/'' (map component_str p))"

subsection \<open>Operations of std::path\<close>

fun drop_cur :: "path \<Rightarrow> path" where
  "drop_cur (CurDir # q) = q"
| "drop_cur q = q"

definition path_join :: "path \<Rightarrow> path \<Rightarrow> path" where
  "path_join p q =
    (if q \<noteq> [] \<and> hd q = RootDir then q else if p = [] then q else p @ drop_cur q)"

definition path_parent :: "path \<Rightarrow> path option" where
  "path_parent p = (if p = [] \<or> last p = RootDir then None else Some (butlast p))"

definition path_file_name :: "path \<Rightarrow> string option" where
  "path_file_name p =
    (if p = [] then None else case last p of Normal n \<Rightarrow> Some n | _ \<Rightarrow> None)"

definition path_pop :: "path \<Rightarrow> path" where
  "path_pop p = (case path_parent p of None \<Rightarrow> p | Some q \<Rightarrow> q)"

definition with_added_extension :: "path \<Rightarrow> string \<Rightarrow> path" where
  "with_added_extension p ext =
    (case path_file_name p of None \<Rightarrow> p | Some n \<Rightarrow> butlast p @ [Normal (n @ ''.'' @ ext)])"

fun normalize_step :: "path \<Rightarrow> component \<Rightarrow> path" where
  "normalize_step ret RootDir = path_join ret [RootDir]"
| "normalize_step ret CurDir = ret"
| "normalize_step ret ParentDir = path_pop ret"
| "normalize_step ret (Normal c) = path_join ret [Normal c]"

definition normalize_path :: "path \<Rightarrow> path" where
  "normalize_path p = foldl normalize_step [] p"

subsection \<open>Plain paths\<close>

text \<open>
  A path of ordinary names, and the names it visits: the shape that can name an entry of a git tree.
\<close>

definition normal_name :: "string \<Rightarrow> bool" where
  "normal_name n \<longleftrightarrow> n \<noteq> [] \<and> slash \<notin> set n \<and> n \<noteq> ''.'' \<and> n \<noteq> ''..''"

fun wf_component :: "component \<Rightarrow> bool" where
  "wf_component (Normal n) = normal_name n"
| "wf_component _ = True"

definition wf_path :: "path \<Rightarrow> bool" where
  "wf_path p \<longleftrightarrow> list_all wf_component p \<and> list_all (\<lambda>c. c \<noteq> RootDir \<and> c \<noteq> CurDir) (tl p)"

definition path_of_names :: "string list \<Rightarrow> path" where
  "path_of_names ns = map Normal ns"

lemma path_of_names_simps [simp]:
  "path_of_names [] = []"
  "path_of_names (n # ns) = Normal n # path_of_names ns"
  "path_of_names (ns @ ms) = path_of_names ns @ path_of_names ms"
  by (simp_all add: path_of_names_def)

lemma path_of_names_inject [simp]: "path_of_names ns = path_of_names ms \<longleftrightarrow> ns = ms"
  unfolding path_of_names_def by (simp add: inj_map_eq_map inj_def)

lemma path_of_names_eq_Nil [simp]:
  "path_of_names ns = [] \<longleftrightarrow> ns = []" "[] = path_of_names ns \<longleftrightarrow> ns = []"
  by (auto simp: path_of_names_def)

lemma length_path_of_names [simp]: "length (path_of_names ns) = length ns"
  by (simp add: path_of_names_def)

lemma last_path_of_names [simp]: "ns \<noteq> [] \<Longrightarrow> last (path_of_names ns) = Normal (last ns)"
  by (simp add: path_of_names_def last_map)

lemma butlast_path_of_names [simp]: "butlast (path_of_names ns) = path_of_names (butlast ns)"
  by (simp add: path_of_names_def map_butlast)

lemma path_parent_names [simp]:
  "path_parent (path_of_names ns) = (if ns = [] then None else Some (path_of_names (butlast ns)))"
  by (simp add: path_parent_def)

lemma path_file_name_names [simp]:
  "path_file_name (path_of_names ns) = (if ns = [] then None else Some (last ns))"
  by (simp add: path_file_name_def)

lemma drop_cur_names [simp]: "drop_cur (path_of_names ns) = path_of_names ns"
  by (cases ns) auto

lemma path_join_names [simp]:
  "path_join (path_of_names ns) (path_of_names ms) = path_of_names (ns @ ms)"
  by (cases ms) (auto simp: path_join_def)

lemma path_join_Nil [simp]: "path_join p [] = p" "path_join [] q = q"
  by (auto simp: path_join_def)

lemma normalize_path_snoc: "normalize_path (p @ [c]) = normalize_step (normalize_path p) c"
  by (simp add: normalize_path_def)

lemma normalize_path_names [simp]: "normalize_path (path_of_names ns) = path_of_names ns"
proof (induction ns rule: rev_induct)
  case Nil
  then show ?case by (simp add: normalize_path_def)
next
  case (snoc n ns)
  have "path_join (path_of_names ns) (path_of_names [n]) = path_of_names (ns @ [n])"
    by (rule path_join_names)
  with snoc show ?case by (simp add: normalize_path_snoc)
qed

text \<open>Every normalized path is plain, possibly below the root.\<close>

lemma normalize_path_plain:
  "\<exists>ns. normalize_path p = path_of_names ns \<or> normalize_path p = RootDir # path_of_names ns"
proof (induction p rule: rev_induct)
  case Nil
  then show ?case by (auto simp: normalize_path_def intro: exI [of _ "[]"])
next
  case (snoc c p)
  then obtain ns where "normalize_path p = path_of_names ns \<or>
      normalize_path p = RootDir # path_of_names ns" by blast
  then show ?case
  proof
    assume eq: "normalize_path p = path_of_names ns"
    show ?thesis
    proof (cases c)
      case (Normal n)
      have "path_join (path_of_names ns) (path_of_names [n]) = path_of_names (ns @ [n])"
        by (rule path_join_names)
      with eq Normal show ?thesis
        by (auto simp: normalize_path_snoc simp del: path_of_names_simps(3)
          intro: exI [of _ "ns @ [n]"])
    qed (use eq in \<open>auto simp: normalize_path_snoc path_pop_def path_join_def
        intro: exI [of _ "[]"]\<close>)
  next
    assume eq: "normalize_path p = RootDir # path_of_names ns"
    show ?thesis
    proof (cases c)
      case ParentDir
      with eq show ?thesis
        by (cases "ns = []") (auto simp: normalize_path_snoc path_pop_def path_parent_def
          intro: exI [of _ "[]"])
    next
      case (Normal n)
      with eq have "normalize_path (p @ [c]) = RootDir # path_of_names (ns @ [n])"
        by (simp add: normalize_path_snoc path_join_def)
      then show ?thesis by blast
    qed (use eq in \<open>auto simp: normalize_path_snoc path_join_def intro: exI [of _ "[]"]\<close>)
  qed
qed

lemma normalize_path_root_names [simp]:
  "normalize_path (RootDir # path_of_names ns) = RootDir # path_of_names ns"
proof (induction ns rule: rev_induct)
  case Nil
  then show ?case by (simp add: normalize_path_def path_join_def)
next
  case (snoc n ns)
  have "RootDir # path_of_names (ns @ [n]) = (RootDir # path_of_names ns) @ [Normal n]" by simp
  then have "normalize_path (RootDir # path_of_names (ns @ [n])) =
      normalize_step (normalize_path (RootDir # path_of_names ns)) (Normal n)"
    by (simp only: normalize_path_snoc)
  with snoc show ?case by (simp add: path_join_def)
qed

lemma normalize_path_idem: "normalize_path (normalize_path p) = normalize_path p"
  using normalize_path_plain [of p] by auto

subsection \<open>Reading back the text of a path\<close>

lemma split_at_char_word: "c \<notin> set w \<Longrightarrow> split_at_char c w = [w]"
  by (induction w) auto

lemma split_at_char_append:
  "c \<notin> set w \<Longrightarrow> split_at_char c (w @ c # s) = w # split_at_char c s"
  by (induction w) auto

lemma split_join_str:
  "ws \<noteq> [] \<Longrightarrow> \<forall>w\<in>set ws. slash \<notin> set w \<Longrightarrow> split_at_char slash (join_str ''/'' ws) = ws"
proof (induction "''/''" ws rule: join_str.induct)
  case (3 w v ws)
  then show ?case by (simp add: split_at_char_append slash_def [symmetric])
qed (auto simp: split_at_char_word)

lemma hd_split_at_char: "c \<notin> set (hd (split_at_char c s))"
  by (induction s) (auto split: list.splits)

lemma slash_component_str: "wf_component c \<Longrightarrow> slash \<notin> set (component_str c)"
  by (cases c) (auto simp: normal_name_def slash_def)

lemma piece_of_component:
  "wf_component c \<Longrightarrow> c \<noteq> RootDir \<Longrightarrow> c \<noteq> CurDir \<Longrightarrow> component_of_piece (component_str c) = [c]"
  by (cases c) (auto simp: normal_name_def)

lemma pieces_of_components:
  "list_all wf_component p \<Longrightarrow> list_all (\<lambda>c. c \<noteq> RootDir \<and> c \<noteq> CurDir) p \<Longrightarrow>
   concat (map component_of_piece (map component_str p)) = p"
proof (induction p)
  case (Cons c p)
  then have "component_of_piece (component_str c) = [c]"
    by (intro piece_of_component) auto
  with Cons show ?case by (simp del: component_of_piece.simps)
qed simp

lemma join_str_Cons: "ws \<noteq> [] \<Longrightarrow> join_str sep (w # ws) = w @ sep @ join_str sep ws"
  by (cases ws) auto

lemma join_str_eq_Nil: "\<forall>w\<in>set ws. w \<noteq> [] \<Longrightarrow> join_str sep ws = [] \<longleftrightarrow> ws = []"
  by (induction sep ws rule: join_str.induct) auto

lemma hd_join_str: "ws \<noteq> [] \<Longrightarrow> hd ws \<noteq> [] \<Longrightarrow> hd (join_str sep ws) = hd (hd ws)"
  by (induction sep ws rule: join_str.induct) auto

lemma path_of_string_relative:
  assumes "p \<noteq> []" and "list_all wf_component p" and "hd p \<noteq> RootDir"
    and "list_all (\<lambda>c. c \<noteq> RootDir \<and> c \<noteq> CurDir) (tl p)"
  shows "path_of_string (join_str ''/'' (map component_str p)) = p"
proof -
  obtain c q where p: "p = c # q" using assms(1) by (cases p) auto
  let ?ws = "map component_str p"
  have ne: "component_str c \<noteq> []" and hdslash: "hd (component_str c) \<noteq> slash"
    using assms p by (cases c; auto simp: normal_name_def slash_def; metis hd_in_set)+
  then have hd: "hd (join_str ''/'' ?ws) \<noteq> slash"
    using hd_join_str [of ?ws "''/''"] p by simp
  have split: "split_at_char slash (join_str ''/'' ?ws) = ?ws"
    using assms p by (intro split_join_str) (auto simp: list_all_iff dest: slash_component_str)
  have tail: "concat (map component_of_piece (map component_str q)) = q"
    using assms p by (intro pieces_of_components) auto
  show ?thesis
  proof (cases "c = CurDir")
    case True
    with hd split tail p show ?thesis
      by (simp add: path_of_string_def Let_def del: map_map)
  next
    case False
    with assms p have "component_of_piece (component_str c) = [c]"
      by (intro piece_of_component) auto
    moreover from False assms p have "component_str c \<noteq> ''.''"
      by (cases c) (auto simp: normal_name_def)
    ultimately show ?thesis using hd split tail p
      by (simp add: path_of_string_def Let_def del: map_map component_of_piece.simps)
  qed
qed

text \<open>Writing a path and reading the text back gives the path.\<close>

lemma path_of_string_str:
  assumes "wf_path p"
  shows "path_of_string (path_str p) = p"
proof (cases p)
  case Nil
  then show ?thesis by (simp add: path_of_string_def path_str_def)
next
  case (Cons c q)
  show ?thesis
  proof (cases "c = RootDir")
    case False
    with assms Cons path_of_string_relative [of p] show ?thesis
      by (auto simp: path_str_def wf_path_def)
  next
    case root: True
    show ?thesis
    proof (cases "q = []")
      case True
      with root Cons show ?thesis by (simp add: path_of_string_def path_str_def slash_def)
    next
      case False
      let ?r = "join_str ''/'' (map component_str q)"
      have str: "path_str p = slash # ?r"
        using root Cons False by (simp add: path_str_def join_str_Cons slash_def)
      have "split_at_char slash ?r = map component_str q"
        using assms Cons False
        by (intro split_join_str) (auto simp: wf_path_def list_all_iff dest: slash_component_str)
      moreover have "concat (map component_of_piece (map component_str q)) = q"
        using assms Cons by (intro pieces_of_components) (auto simp: wf_path_def)
      ultimately show ?thesis
        using str root Cons by (simp add: path_of_string_def Let_def del: map_map)
    qed
  qed
qed

lemma path_str_inject:
  "wf_path p \<Longrightarrow> wf_path q \<Longrightarrow> path_str p = path_str q \<Longrightarrow> p = q"
  by (metis path_of_string_str)

lemma wf_path_names: "list_all normal_name ns \<Longrightarrow> wf_path (path_of_names ns)"
  by (cases ns) (auto simp: wf_path_def path_of_names_def list_all_iff)

end
