(* ===== verification/Git_Tree.thy ===== *)
theory Git_Tree
  imports Std_Path
begin

text \<open>
  Git tree objects and the entry-level operations of \<^verbatim>\<open>josh-core/src/filter/tree.rs\<close>: canonical
  entry order, lookup, insertion of one entry, descent along a path, insertion at a path.

  An object id is modelled by what the object store yields for it (\<open>obj\<close>): the bytes of a blob, the
  entries of a tree, or \<open>Other n\<close> for an object of another kind (a commit or tag, the target of a
  gitlink); \<open>Other 0\<close> is the zero id. Equality of ids is equality of content: the store is content
  addressed, and collisions of the hash are left out. The store is complete and its trees decode:
  the errors of reading a missing or corrupt object are left out. Writing a tree is the constructor
  \<open>Tree\<close>; a written tree is readable at once, as in the transaction's object store. The caches
  of the transaction hold results of the same pure functions and are not part of the model.

  The binary search of the library that parses trees is the parameter \<open>bz\<close> of the operations that
  use it; \<open>bisect_ok\<close> states its documented behaviour on canonically ordered entries.
\<close>

subsection \<open>Objects\<close>

text \<open>Entry modes by class, each with its raw bits.\<close>

datatype mode = MTree int | MBlob int | MCommit int

datatype obj = Blob string | Tree "entry list" | Other nat
  and entry = Entry (e_mode: mode) (e_name: string) (e_oid: obj)

fun is_tree :: "mode \<Rightarrow> bool" where
  "is_tree (MTree _) = True"
| "is_tree _ = False"

fun is_commit :: "mode \<Rightarrow> bool" where
  "is_commit (MCommit _) = True"
| "is_commit _ = False"

definition mode_tree :: mode where "mode_tree = MTree 16384"
definition mode_blob :: mode where "mode_blob = MBlob 33188"

lemma is_tree_modes [simp]: "is_tree mode_tree" "\<not> is_tree mode_blob"
  by (simp_all add: mode_tree_def mode_blob_def)

lemma is_commit_modes [simp]: "\<not> is_commit mode_tree" "\<not> is_commit mode_blob"
  by (simp_all add: mode_tree_def mode_blob_def)

definition empty_id :: obj where "empty_id = Tree []"

definition zero_oid :: obj where "zero_oid = Other 0"

fun read_tree_bytes :: "obj \<Rightarrow> entry list option" where
  "read_tree_bytes (Tree es) = Some es"
| "read_tree_bytes _ = None"

fun blob_bytes :: "obj \<Rightarrow> string option" where
  "blob_bytes (Blob s) = Some s"
| "blob_bytes _ = None"

definition nul :: char where "nul = CHR 0x00"

definition blob_text :: "obj \<Rightarrow> string" where
  "blob_text oid =
    (case blob_bytes oid of
       None \<Rightarrow> []
     | Some bytes \<Rightarrow>
        if nul \<in> set bytes then []
        else if valid_utf8 bytes then bytes else [])"

subsection \<open>Canonical order of tree entries\<close>

datatype ordering = Lt | Eq | Gt

definition char_cmp :: "char \<Rightarrow> char \<Rightarrow> ordering" where
  "char_cmp a b = (if a < b then Lt else if a = b then Eq else Gt)"

fun slice_cmp :: "string \<Rightarrow> string \<Rightarrow> ordering" where
  "slice_cmp [] [] = Eq"
| "slice_cmp [] (b # bs) = Lt"
| "slice_cmp (a # as) [] = Gt"
| "slice_cmp (a # as) (b # bs) =
    (case char_cmp a b of Eq \<Rightarrow> slice_cmp as bs | ord \<Rightarrow> ord)"

definition git_tree_entry_cmp :: "string \<Rightarrow> bool \<Rightarrow> string \<Rightarrow> bool \<Rightarrow> ordering" where
  "git_tree_entry_cmp a a_is_tree b b_is_tree =
    (let len = min (length a) (length b) in
     case slice_cmp (take len a) (take len b) of
       Eq \<Rightarrow>
         let ca = (if len < length a then a ! len else if a_is_tree then slash else nul);
             cb = (if len < length b then b ! len else if b_is_tree then slash else nul)
         in char_cmp ca cb
     | ord \<Rightarrow> ord)"

definition entry_cmp :: "entry \<Rightarrow> entry \<Rightarrow> ordering" where
  "entry_cmp x y = git_tree_entry_cmp (e_name x) (is_tree (e_mode x)) (e_name y) (is_tree (e_mode y))"

definition entries_canonically_sorted :: "entry list \<Rightarrow> bool" where
  "entries_canonically_sorted es = list_all (\<lambda>(x, y). entry_cmp x y = Lt) (zip es (tl es))"

subsection \<open>Entry lookup and insertion\<close>

type_synonym bisect = "entry list \<Rightarrow> string \<Rightarrow> bool \<Rightarrow> entry option"

definition bisect_ok :: "bisect \<Rightarrow> bool" where
  "bisect_ok bz \<longleftrightarrow>
    (\<forall>es name dir. entries_canonically_sorted es \<longrightarrow>
       bz es name dir = find (\<lambda>e. e_name e = name \<and> is_tree (e_mode e) = dir) es)"

definition lookup_entry :: "bisect \<Rightarrow> entry list \<Rightarrow> string \<Rightarrow> bool \<Rightarrow> entry option" where
  "lookup_entry bz es name is_sorted =
    (if is_sorted
     then (case bz es name False of Some e \<Rightarrow> Some e | None \<Rightarrow> bz es name True)
     else find (\<lambda>e. e_name e = name) es)"

definition reader_entry :: "entry list \<Rightarrow> string \<Rightarrow> entry option" where
  "reader_entry es name = find (\<lambda>e. e_name e = name) es"

definition parsed_entry :: "bisect \<Rightarrow> entry list \<Rightarrow> string \<Rightarrow> entry option" where
  "parsed_entry bz es name = lookup_entry bz es name (entries_canonically_sorted es)"

fun insert_pos :: "entry list \<Rightarrow> entry \<Rightarrow> nat \<Rightarrow> nat" where
  "insert_pos out entry 0 = 0"
| "insert_pos out entry (Suc pos) =
    (if entry_cmp (out ! pos) entry = Gt then insert_pos out entry pos else Suc pos)"

definition insert_at :: "nat \<Rightarrow> 'a \<Rightarrow> 'a list \<Rightarrow> 'a list" where
  "insert_at pos x xs = take pos xs @ x # drop pos xs"

definition insert_in_order :: "entry list \<Rightarrow> entry \<Rightarrow> entry list" where
  "insert_in_order out entry = insert_at (insert_pos out entry (length out)) entry out"

definition replace_child_inner :: "string \<Rightarrow> obj \<Rightarrow> mode \<Rightarrow> obj \<Rightarrow> obj" where
  "replace_child_inner child oid mode tree_oid =
    (let out = (case read_tree_bytes tree_oid of Some es \<Rightarrow> es | None \<Rightarrow> []);
         remove = (oid = zero_oid \<or> oid = empty_id);
         first = position (\<lambda>e. e_name e = child) out;
         out = filter (\<lambda>e. e_name e \<noteq> child) out
     in if remove then Tree out
        else let entry = Entry mode child oid in
          case first of
            Some pos \<Rightarrow> Tree (insert_at pos entry out)
          | None \<Rightarrow> Tree (insert_in_order out entry))"

subsection \<open>Descent and insertion along a path\<close>

fun component_os_str :: "component \<Rightarrow> string" where
  "component_os_str RootDir = ''/''"
| "component_os_str c = component_str c"

fun path_components_from :: "string list \<Rightarrow> path \<Rightarrow> string list option" where
  "path_components_from acc [] = (if acc = [] then None else Some acc)"
| "path_components_from acc (Normal n # p) = path_components_from (acc @ [n]) p"
| "path_components_from acc (CurDir # p) = path_components_from acc p"
| "path_components_from acc (c # p) = None"

definition path_components :: "path \<Rightarrow> string list option" where
  "path_components p = path_components_from [] p"

fun descend :: "entry \<Rightarrow> string list \<Rightarrow> entry option" where
  "descend entry [] = Some entry"
| "descend entry (name # names) =
    (if \<not> is_tree (e_mode entry) then None
     else case read_tree_bytes (e_oid entry) of
       None \<Rightarrow> None
     | Some es \<Rightarrow>
         (case reader_entry es name of
            None \<Rightarrow> None
          | Some entry' \<Rightarrow> descend entry' names))"

definition get_path_entry_at :: "entry list \<Rightarrow> path \<Rightarrow> entry option" where
  "get_path_entry_at root path =
    (case path_components path of
       None \<Rightarrow> None
     | Some components \<Rightarrow>
         (case reader_entry root (hd components) of
            None \<Rightarrow> None
          | Some entry \<Rightarrow> descend entry (tl components)))"

definition get_path_entry :: "obj \<Rightarrow> path \<Rightarrow> entry option" where
  "get_path_entry root path =
    (case read_tree_bytes root of
       None \<Rightarrow> None
     | Some es \<Rightarrow> get_path_entry_at es path)"

definition get_blob :: "obj \<Rightarrow> path \<Rightarrow> string" where
  "get_blob tree path =
    (case get_path_entry tree path of None \<Rightarrow> [] | Some entry \<Rightarrow> blob_text (e_oid entry))"

fun subtree_at :: "bisect \<Rightarrow> obj \<Rightarrow> path \<Rightarrow> obj" where
  "subtree_at bz st [] = st"
| "subtree_at bz st (c # p) =
    subtree_at bz
      (case read_tree_bytes st of
         Some es \<Rightarrow>
           (case lookup_entry bz es (component_os_str c) (entries_canonically_sorted es) of
              Some e \<Rightarrow> e_oid e
            | None \<Rightarrow> empty_id)
       | None \<Rightarrow> empty_id) p"

function insert_oid :: "bisect \<Rightarrow> obj \<Rightarrow> path \<Rightarrow> obj \<Rightarrow> mode \<Rightarrow> obj result" where
  "insert_oid bz full_tree path oid mode =
    (case path of
       [] \<Rightarrow> Inl InvalidPath
     | [first] \<Rightarrow> Inr (replace_child_inner (component_os_str first) oid mode full_tree)
     | _ \<Rightarrow>
        bindR (of_option InvalidPath (path_file_name path)) (\<lambda>name.
        bindR (of_option InvalidPath (path_parent path)) (\<lambda>parent.
          let st = subtree_at bz full_tree parent;
              subtree = replace_child_inner name oid mode st
          in insert_oid bz full_tree parent subtree mode_tree)))"
  by pat_completeness auto
termination
  by (relation "measure (\<lambda>(bz, t, path, oid, m). length path)")
    (auto simp: path_parent_def split: if_splits)

declare insert_oid.simps [simp del]

subsection \<open>Entries of an object\<close>

definition tree_entries :: "obj \<Rightarrow> entry list" where
  "tree_entries t = (case read_tree_bytes t of Some es \<Rightarrow> es | None \<Rightarrow> [])"

lemma tree_entries_simps [simp]:
  "tree_entries (Tree es) = es" "tree_entries (Blob s) = []" "tree_entries (Other k) = []"
  "tree_entries empty_id = []"
  by (simp_all add: tree_entries_def empty_id_def)

subsection \<open>The canonical order is the order of the entry keys\<close>

definition tkey :: "entry \<Rightarrow> string" where
  "tkey e = e_name e @ [if is_tree (e_mode e) then slash else nul]"

definition valid_name :: "string \<Rightarrow> bool" where
  "valid_name n \<longleftrightarrow> n \<noteq> [] \<and> slash \<notin> set n \<and> nul \<notin> set n"

lemma slice_cmp_less: "slice_cmp a b = (if a < b then Lt else if a = b then Eq else Gt)"
  by (induction a b rule: slice_cmp.induct) (auto simp: char_cmp_def)

lemma git_tree_entry_cmp_Cons:
  "git_tree_entry_cmp (c # a) ta (d # b) tb =
    (case char_cmp c d of Eq \<Rightarrow> git_tree_entry_cmp a ta b tb | ord \<Rightarrow> ord)"
  by (simp add: git_tree_entry_cmp_def Let_def split: ordering.split)

lemma git_tree_entry_cmp_Nil:
  "git_tree_entry_cmp [] ta b tb =
    char_cmp (if ta then slash else nul) (case b of [] \<Rightarrow> if tb then slash else nul | c # _ \<Rightarrow> c)"
  "git_tree_entry_cmp b tb [] ta =
    char_cmp (case b of [] \<Rightarrow> if tb then slash else nul | c # _ \<Rightarrow> c) (if ta then slash else nul)"
  by (cases b; simp add: git_tree_entry_cmp_def)+

lemma git_tree_entry_cmp_less:
  assumes "slash \<notin> set a" "nul \<notin> set a" "slash \<notin> set b" "nul \<notin> set b"
  shows "git_tree_entry_cmp a ta b tb =
    (let x = a @ [if ta then slash else nul]; y = b @ [if tb then slash else nul]
     in if x < y then Lt else if x = y then Eq else Gt)"
  using assms
proof (induction a b rule: slice_cmp.induct)
  case (4 a as b bs)
  then show ?case by (auto simp: git_tree_entry_cmp_Cons char_cmp_def Let_def)
qed (auto simp: git_tree_entry_cmp_Nil char_cmp_def Let_def)

lemma entry_cmp_tkey:
  "valid_name (e_name x) \<Longrightarrow> valid_name (e_name y) \<Longrightarrow>
   entry_cmp x y = (if tkey x < tkey y then Lt else if tkey x = tkey y then Eq else Gt)"
  by (simp add: entry_cmp_def git_tree_entry_cmp_less tkey_def valid_name_def Let_def)

abbreviation key_sorted :: "entry list \<Rightarrow> bool" where
  "key_sorted \<equiv> sorted_wrt (\<lambda>x y. tkey x < tkey y)"

lemma canonically_sorted_Cons:
  "entries_canonically_sorted (x # y # es) \<longleftrightarrow>
    entry_cmp x y = Lt \<and> entries_canonically_sorted (y # es)"
  by (simp add: entries_canonically_sorted_def)

lemma canonically_sorted_small [simp]:
  "entries_canonically_sorted []" "entries_canonically_sorted [x]"
  by (simp_all add: entries_canonically_sorted_def)

lemma canonically_sorted_key:
  "\<forall>e\<in>set es. valid_name (e_name e) \<Longrightarrow> entries_canonically_sorted es \<longleftrightarrow> key_sorted es"
proof (induction es rule: induct_list012)
  case (3 x y es)
  then show ?case
    by (fastforce simp: canonically_sorted_Cons entry_cmp_tkey split: if_splits
      dest: less_trans)
qed auto

lemma tkey_inject: "valid_name (e_name x) \<Longrightarrow> valid_name (e_name y) \<Longrightarrow> tkey x = tkey y \<Longrightarrow>
  e_name x = e_name y \<and> is_tree (e_mode x) = is_tree (e_mode y)"
  by (auto simp: tkey_def slash_def nul_def split: if_splits)

subsection \<open>Well-formed trees\<close>

fun wf_obj :: "obj \<Rightarrow> bool" and wf_entry :: "entry \<Rightarrow> bool" where
  "wf_obj (Blob s) = True"
| "wf_obj (Other n) = (n \<noteq> 0)"
| "wf_obj (Tree es) =
    (entries_canonically_sorted es \<and> distinct (map e_name es) \<and> list_all wf_entry es)"
| "wf_entry (Entry m n oid) =
    (valid_name n \<and> wf_obj oid \<and> oid \<noteq> Tree [] \<and>
     (case oid of Tree _ \<Rightarrow> m = mode_tree | _ \<Rightarrow> \<not> is_tree m))"

fun is_Tree :: "obj \<Rightarrow> bool" where
  "is_Tree (Tree _) = True"
| "is_Tree _ = False"

definition wf_tree :: "obj \<Rightarrow> bool" where
  "wf_tree t \<longleftrightarrow> is_Tree t \<and> wf_obj t"

lemma wf_entry_iff:
  "wf_entry e \<longleftrightarrow> valid_name (e_name e) \<and> wf_obj (e_oid e) \<and> e_oid e \<noteq> empty_id \<and>
    e_oid e \<noteq> zero_oid \<and> is_tree (e_mode e) = is_Tree (e_oid e) \<and>
    (is_Tree (e_oid e) \<longrightarrow> e_mode e = mode_tree)"
  by (cases e) (auto simp: empty_id_def zero_oid_def split: obj.splits)

lemma wf_obj_Tree:
  "wf_obj (Tree es) \<longleftrightarrow> key_sorted es \<and> distinct (map e_name es) \<and> (\<forall>e\<in>set es. wf_entry e)"
proof -
  have "\<forall>e\<in>set es. wf_entry e \<Longrightarrow> entries_canonically_sorted es \<longleftrightarrow> key_sorted es"
    by (rule canonically_sorted_key) (auto simp: wf_entry_iff)
  then show ?thesis by (auto simp: list_all_iff)
qed

lemma wf_tree_Tree [simp]: "wf_tree (Tree es) = wf_obj (Tree es)"
  by (simp add: wf_tree_def)

lemma wf_tree_cases [consumes 1]:
  assumes "wf_tree t" obtains es where "t = Tree es" "wf_obj (Tree es)"
  using assms by (cases t) (auto simp: wf_tree_def simp del: wf_obj.simps)

declare wf_obj.simps(3) [simp del]

lemma wf_tree_empty [simp, wf_intros]: "wf_tree empty_id" "wf_obj empty_id" "wf_obj (Tree [])"
  by (simp_all add: empty_id_def wf_obj.simps)

lemma wf_obj_TreeD:
  assumes "wf_obj (Tree es)"
  shows "entries_canonically_sorted es" "distinct (map e_name es)" "key_sorted es"
    "\<And>e. e \<in> set es \<Longrightarrow> wf_entry e"
  using assms iffD1 [OF wf_obj_Tree assms] by (auto simp: wf_obj.simps)

subsection \<open>Directories as maps from names to entries\<close>

lemma lookup_entry_reader:
  assumes "bisect_ok bz" and "distinct (map e_name es)"
  shows "lookup_entry bz es n (entries_canonically_sorted es) = reader_entry es n"
proof -
  have "find (\<lambda>e. e_name e = n) es =
    (case find (\<lambda>e. e_name e = n \<and> \<not> is_tree (e_mode e)) es of
       Some e \<Rightarrow> Some e
     | None \<Rightarrow> find (\<lambda>e. e_name e = n \<and> is_tree (e_mode e)) es)"
    using assms(2)
  proof (induction es)
    case (Cons e es)
    show ?case
    proof (cases "e_name e = n")
      case True
      with Cons.prems have "find (\<lambda>e. e_name e = n \<and> \<not> is_tree (e_mode e)) es = None"
        by (auto simp: find_None_iff_all image_iff)
      with True show ?thesis by simp
    qed (use Cons in \<open>auto split: option.split\<close>)
  qed simp
  with assms(1) show ?thesis
    by (auto simp: lookup_entry_def reader_entry_def bisect_ok_def split: option.splits)
qed

lemma lookup_entry_wf [simp]:
  "bisect_ok bz \<Longrightarrow> wf_obj (Tree es) \<Longrightarrow>
   lookup_entry bz es n (entries_canonically_sorted es) = reader_entry es n"
  by (rule lookup_entry_reader) (auto dest: wf_obj_TreeD)

lemma reader_entry_Some_iff:
  "distinct (map e_name es) \<Longrightarrow> reader_entry es n = Some e \<longleftrightarrow> e \<in> set es \<and> e_name e = n"
  by (simp add: reader_entry_def find_distinct_key_iff)

lemma reader_entry_None_iff: "reader_entry es n = None \<longleftrightarrow> n \<notin> e_name ` set es"
  by (auto simp: reader_entry_def find_None_iff_all)

lemma reader_entry_SomeD: "reader_entry es n = Some e \<Longrightarrow> e \<in> set es \<and> e_name e = n"
  by (auto simp: reader_entry_def dest: find_SomeD)

lemma reader_entry_Nil [simp]: "reader_entry [] n = None"
  by (simp add: reader_entry_def)

lemma reader_entry_Cons:
  "reader_entry (e # es) n = (if e_name e = n then Some e else reader_entry es n)"
  by (simp add: reader_entry_def)

text \<open>A well-formed tree is determined by its directory map.\<close>

lemma wf_tree_ext:
  assumes "wf_obj (Tree es)" and "wf_obj (Tree fs)"
    and "\<And>n. reader_entry es n = reader_entry fs n"
  shows "es = fs"
proof (rule sorted_key_unique [where key = tkey])
  have "e \<in> set es \<longleftrightarrow> e \<in> set fs" for e
    using assms reader_entry_Some_iff [of es "e_name e" e] reader_entry_Some_iff [of fs "e_name e" e]
    by (auto simp: wf_obj_Tree)
  then show "set es = set fs" by blast
qed (use assms in \<open>auto simp: wf_obj_Tree\<close>)

subsection \<open>Insertion of one entry\<close>

lemma insert_pos_le: "insert_pos out e k \<le> k"
  by (induction out e k rule: insert_pos.induct) auto

lemma insert_pos_Gt: "insert_pos out e k \<le> i \<Longrightarrow> i < k \<Longrightarrow> entry_cmp (out ! i) e = Gt"
  by (induction out e k rule: insert_pos.induct) (auto simp: less_Suc_eq split: if_splits)

lemma insert_pos_pred:
  "insert_pos out e k = Suc i \<Longrightarrow> entry_cmp (out ! i) e \<noteq> Gt"
  by (induction out e k rule: insert_pos.induct) (auto split: if_splits)

lemma set_insert_at: "k \<le> length xs \<Longrightarrow> set (insert_at k x xs) = insert x (set xs)"
  using set_append [of "take k xs" "drop k xs"] by (simp add: insert_at_def)

lemma set_insert_in_order [simp]: "set (insert_in_order es e) = insert e (set es)"
  by (simp add: insert_in_order_def set_insert_at insert_pos_le)

lemma distinct_insert_in_order:
  "distinct (map e_name es) \<Longrightarrow> e_name e \<notin> e_name ` set es \<Longrightarrow>
   distinct (map e_name (insert_in_order es e))"
proof -
  let ?k = "insert_pos es e (length es)"
  assume d: "distinct (map e_name es)" and n: "e_name e \<notin> e_name ` set es"
  have "distinct (map e_name (take ?k es @ drop ?k es))" using d by simp
  moreover have "e_name e \<notin> e_name ` set (take ?k es)" "e_name e \<notin> e_name ` set (drop ?k es)"
    using n by (auto dest: in_set_takeD in_set_dropD)
  ultimately show ?thesis
    unfolding insert_in_order_def insert_at_def by (auto simp del: append_take_drop_id)
qed

lemma key_sorted_insert_in_order:
  assumes "key_sorted es" and "\<forall>x\<in>set es. valid_name (e_name x)" and "valid_name (e_name e)"
    and "\<forall>x\<in>set es. tkey x \<noteq> tkey e"
  shows "key_sorted (insert_in_order es e)"
proof -
  let ?k = "insert_pos es e (length es)"
  have split: "es = take ?k es @ drop ?k es" by simp
  have le: "?k \<le> length es" by (rule insert_pos_le)
  have low: "tkey x < tkey e" if "x \<in> set (take ?k es)" for x
  proof -
    from that obtain i where i: "i < ?k" "x = es ! i" "i < length es"
      using le by (auto simp: in_set_conv_nth)
    then obtain j where j: "?k = Suc j" by (cases ?k) auto
    then have "entry_cmp (es ! j) e \<noteq> Gt" by (rule insert_pos_pred)
    with assms j le have "tkey (es ! j) < tkey e"
      by (auto simp: entry_cmp_tkey split: if_splits)
    moreover have "tkey x \<le> tkey (es ! j)"
      using assms(1) i j le by (cases "i = j") (auto simp: sorted_wrt_iff_nth_less less_imp_le)
    ultimately show ?thesis by simp
  qed
  have high: "tkey e < tkey x" if "x \<in> set (drop ?k es)" for x
  proof -
    from that obtain j where "j < length es - ?k" "x = es ! (?k + j)"
      by (auto simp: in_set_conv_nth)
    then have i: "?k \<le> ?k + j" "?k + j < length es" "x = es ! (?k + j)" by auto
    then have "entry_cmp x e = Gt" using insert_pos_Gt by blast
    moreover have "x \<in> set es" using i by simp
    ultimately show ?thesis using assms by (auto simp: entry_cmp_tkey split: if_splits)
  qed
  have "key_sorted (take ?k es @ drop ?k es)" using assms(1) by simp
  then show ?thesis
    unfolding insert_in_order_def insert_at_def
    using low high by (fastforce simp: sorted_wrt_append simp del: append_take_drop_id
      intro: less_trans)
qed

lemma reader_entry_insert_in_order:
  assumes "distinct (map e_name es)" and "e_name e \<notin> e_name ` set es"
  shows "reader_entry (insert_in_order es e) n =
    (if n = e_name e then Some e else reader_entry es n)"
proof -
  have d: "distinct (map e_name (insert_in_order es e))"
    using assms by (rule distinct_insert_in_order)
  show ?thesis
  proof (cases "n = e_name e")
    case True
    with d show ?thesis by (simp add: reader_entry_Some_iff)
  next
    case False
    show ?thesis
    proof (cases "reader_entry es n")
      case None
      with False have "reader_entry (insert_in_order es e) n = None"
        by (simp add: reader_entry_None_iff)
      with False None show ?thesis by simp
    next
      case (Some x)
      then have "reader_entry (insert_in_order es e) n = Some x"
        using d assms(1) by (simp add: reader_entry_Some_iff)
      with False Some show ?thesis by simp
    qed
  qed
qed

lemma wf_insert_in_order:
  assumes "wf_obj (Tree es)" and "wf_entry e" and "reader_entry es (e_name e) = None"
  shows "wf_obj (Tree (insert_in_order es e))"
proof -
  have fresh: "e_name e \<notin> e_name ` set es" using assms(3) by (simp add: reader_entry_None_iff)
  moreover have "\<forall>x\<in>set es. tkey x \<noteq> tkey e"
    using assms fresh by (auto dest!: tkey_inject simp: wf_obj_Tree wf_entry_iff)
  ultimately show ?thesis
    using assms by (auto simp: wf_obj_Tree wf_entry_iff
      intro!: distinct_insert_in_order key_sorted_insert_in_order)
qed

text \<open>Inserting a batch of entries under new names.\<close>

lemma insert_in_order_batch:
  assumes "wf_obj (Tree es)" and "\<forall>e\<in>set xs. wf_entry e" and "distinct (map e_name xs)"
    and "\<forall>e\<in>set xs. reader_entry es (e_name e) = None"
  shows "wf_obj (Tree (foldl insert_in_order es xs)) \<and>
    (\<forall>n. reader_entry (foldl insert_in_order es xs) n =
      (case reader_entry es n of Some e \<Rightarrow> Some e | None \<Rightarrow> reader_entry xs n))"
  using assms
proof (induction xs arbitrary: es)
  case Nil
  then show ?case by (auto split: option.split)
next
  case (Cons x xs)
  let ?es = "insert_in_order es x"
  have fresh: "e_name x \<notin> e_name ` set es"
    using Cons.prems by (auto simp: reader_entry_None_iff)
  have d: "distinct (map e_name es)" using Cons.prems(1) by (rule wf_obj_TreeD)
  have wf: "wf_obj (Tree ?es)" using Cons.prems by (auto intro: wf_insert_in_order)
  have rd: "reader_entry ?es n = (if n = e_name x then Some x else reader_entry es n)" for n
    using d fresh by (rule reader_entry_insert_in_order)
  have "\<forall>e\<in>set xs. reader_entry ?es (e_name e) = None"
    using Cons.prems rd by (auto simp: image_iff)
  with Cons.IH [of ?es] Cons.prems wf
  have "wf_obj (Tree (foldl insert_in_order ?es xs)) \<and>
    (\<forall>n. reader_entry (foldl insert_in_order ?es xs) n =
      (case reader_entry ?es n of Some e \<Rightarrow> Some e | None \<Rightarrow> reader_entry xs n))"
    by auto
  with rd Cons.prems(4) show ?case
    by (auto simp: reader_entry_Cons split: option.splits)
qed

subsection \<open>Replacing a child\<close>

lemma position_None_iff: "position P xs = None \<longleftrightarrow> (\<forall>x\<in>set xs. \<not> P x)"
  by (induction xs) auto

lemma position_SomeD:
  "position P xs = Some k \<Longrightarrow> \<exists>x ys zs. xs = ys @ x # zs \<and> length ys = k \<and> P x \<and> (\<forall>y\<in>set ys. \<not> P y)"
proof (induction xs arbitrary: k)
  case (Cons a xs)
  show ?case
  proof (cases "P a")
    case True
    with Cons.prems show ?thesis by (intro exI [of _ a] exI [of _ "[]"] exI [of _ xs]) auto
  next
    case False
    with Cons.prems obtain j where j: "position P xs = Some j" "k = Suc j" by auto
    with Cons.IH obtain x ys zs where
      "xs = ys @ x # zs" "length ys = j" "P x" "\<forall>y\<in>set ys. \<not> P y" by blast
    with False j show ?thesis by (intro exI [of _ x] exI [of _ "a # ys"] exI [of _ zs]) auto
  qed
qed simp

text \<open>
  Replacing a child of a well-formed tree updates the directory map at that name; the tree stays
  well-formed when the new entry is, and when an entry it replaces has the same kind (the
  replacement keeps the position, and the position depends on the kind).
\<close>

lemma replace_child_split:
  assumes "position (\<lambda>e. e_name e = child) es = Some k" and "distinct (map e_name es)"
  obtains x ys zs where "es = ys @ x # zs" "e_name x = child"
    "insert_at k e (filter (\<lambda>e. e_name e \<noteq> child) es) = ys @ e # zs"
proof -
  from position_SomeD [OF assms(1)] obtain x ys zs where
    es: "es = ys @ x # zs" and k: "length ys = k" and x: "e_name x = child" by blast
  with assms(2) have "filter (\<lambda>e. e_name e \<noteq> child) es = ys @ zs"
    by (fastforce intro!: arg_cong2 [where f = "(@)"] simp: filter_id_conv image_iff)
  with k have "insert_at k e (filter (\<lambda>e. e_name e \<noteq> child) es) = ys @ e # zs"
    by (simp add: insert_at_def)
  with es x that show ?thesis by blast
qed

lemma reader_entry_append:
  "reader_entry (xs @ ys) n = (case reader_entry xs n of None \<Rightarrow> reader_entry ys n | Some e \<Rightarrow> Some e)"
  by (simp add: reader_entry_def find_append cong: option.case_cong)

lemma reader_entry_filter_neq:
  "reader_entry (filter (\<lambda>e. e_name e \<noteq> c) es) n = (if n = c then None else reader_entry es n)"
  by (induction es) (auto simp: reader_entry_Cons)

lemma reader_entry_replace_child:
  assumes "distinct (map e_name (tree_entries t))"
  shows "reader_entry (tree_entries (replace_child_inner c oid m t)) n =
    (if n = c then (if oid = zero_oid \<or> oid = empty_id then None else Some (Entry m c oid))
     else reader_entry (tree_entries t) n)"
proof (cases "oid = zero_oid \<or> oid = empty_id")
  case True
  then show ?thesis
    by (auto simp: replace_child_inner_def tree_entries_def [symmetric] Let_def
      reader_entry_filter_neq)
next
  case False
  let ?es = "tree_entries t"
  show ?thesis
  proof (cases "position (\<lambda>e. e_name e = c) ?es")
    case None
    then have "c \<notin> e_name ` set ?es" and "filter (\<lambda>e. e_name e \<noteq> c) ?es = ?es"
      by (auto simp: position_None_iff filter_id_conv)
    with False None assms show ?thesis
      by (simp add: replace_child_inner_def tree_entries_def [symmetric] Let_def
        reader_entry_insert_in_order)
  next
    case (Some k)
    obtain x ys zs where sp: "?es = ys @ x # zs" "e_name x = c"
      "insert_at k (Entry m c oid) (filter (\<lambda>e. e_name e \<noteq> c) ?es) = ys @ Entry m c oid # zs"
      by (rule replace_child_split [OF Some assms])
    have "tree_entries (replace_child_inner c oid m t) = ys @ Entry m c oid # zs"
      using False Some sp(3)
      by (simp add: replace_child_inner_def tree_entries_def [symmetric] Let_def)
    moreover have "reader_entry ys c = None"
      using sp assms by (auto simp: reader_entry_None_iff)
    ultimately show ?thesis
      using False sp(1,2) by (simp add: reader_entry_append reader_entry_Cons split: option.split)
  qed
qed

lemma is_Tree_replace_child [simp]: "is_Tree (replace_child_inner c oid m t)"
  by (auto simp: replace_child_inner_def Let_def split: option.split)

end
