(* ===== verification/Tree_View.thy ===== *)
theory Tree_View
  imports Git_Tree
begin

text \<open>
  The abstract view of a git tree: \<open>flat t\<close> maps the path of every file below \<open>t\<close> to its mode and
  object. A well-formed tree is determined by its view (\<open>flat_ext\<close>), and the paths of its files are
  an antichain of the prefix order (\<open>flat_antichain\<close>). The specifications of the operations on
  trees are stated as equations on views; \<open>hits t p\<close> says that \<open>p\<close> meets \<open>t\<close>: some file of
  \<open>t\<close> lies at, below or above \<open>p\<close>.
\<close>

type_synonym view = "string list \<Rightarrow> (mode \<times> obj) option"

fun flat :: "obj \<Rightarrow> view" where
  "flat t [] = None"
| "flat t (n # p) =
    (case reader_entry (tree_entries t) n of
       None \<Rightarrow> None
     | Some e \<Rightarrow>
         if is_tree (e_mode e) then flat (e_oid e) p
         else if p = [] then Some (e_mode e, e_oid e) else None)"

fun hits :: "obj \<Rightarrow> string list \<Rightarrow> bool" where
  "hits t [] = (tree_entries t \<noteq> [])"
| "hits t (n # p) =
    (case reader_entry (tree_entries t) n of
       None \<Rightarrow> False
     | Some e \<Rightarrow> if is_tree (e_mode e) then hits (e_oid e) p else True)"

definition comparable :: "'a list \<Rightarrow> 'a list \<Rightarrow> bool" where
  "comparable p q \<longleftrightarrow> prefix p q \<or> prefix q p"

definition meets :: "view \<Rightarrow> string list \<Rightarrow> bool" where
  "meets v p \<longleftrightarrow> (\<exists>q. v q \<noteq> None \<and> comparable p q)"

definition entry_view :: "entry \<Rightarrow> view" where
  "entry_view e p =
    (if is_tree (e_mode e) then flat (e_oid e) p
     else if p = [] then Some (e_mode e, e_oid e) else None)"

fun subentry :: "obj \<Rightarrow> string list \<Rightarrow> entry option" where
  "subentry t [] = None"
| "subentry t (n # ns) =
    (case reader_entry (tree_entries t) n of
       None \<Rightarrow> None
     | Some e \<Rightarrow>
         if ns = [] then Some e else if is_tree (e_mode e) then subentry (e_oid e) ns else None)"

definition sub :: "obj \<Rightarrow> string \<Rightarrow> obj" where
  "sub t n = (case reader_entry (tree_entries t) n of None \<Rightarrow> empty_id | Some e \<Rightarrow> e_oid e)"

text \<open>Insertion from the front of the path, the recursion the correctness proofs follow.\<close>

fun ins :: "obj \<Rightarrow> string list \<Rightarrow> obj \<Rightarrow> mode \<Rightarrow> obj" where
  "ins t [] oid m = t"
| "ins t (n # ns) oid m =
    (if ns = [] then replace_child_inner n oid m t
     else replace_child_inner n (ins (sub t n) ns oid m) mode_tree t)"

definition new_view :: "mode \<Rightarrow> obj \<Rightarrow> view" where
  "new_view m oid p =
    (if oid = zero_oid \<or> oid = empty_id then None else entry_view (Entry m [] oid) p)"

text \<open>
  A path fits a tree when nothing on the way is a file and whatever is at the path has the kind of
  the new entry. Under this condition an insertion keeps the tree well-formed.
\<close>

fun fits :: "obj \<Rightarrow> string list \<Rightarrow> bool \<Rightarrow> bool" where
  "fits t [] dir = True"
| "fits t (n # ns) dir =
    (case reader_entry (tree_entries t) n of
       None \<Rightarrow> True
     | Some e \<Rightarrow>
         if ns = [] then is_tree (e_mode e) = dir else is_tree (e_mode e) \<and> fits (e_oid e) ns dir)"

subsection \<open>Induction on well-formed trees\<close>

lemma size_e_oid: "e \<in> set es \<Longrightarrow> size (e_oid e) < size (Tree es)"
proof (induction es)
  case (Cons a es)
  then show ?case by (cases a) auto
qed simp

lemma size_tree_entries: "e \<in> set (tree_entries t) \<Longrightarrow> size (e_oid e) < size t"
  by (cases t) (auto dest: size_e_oid)

lemma reader_entry_wf:
  assumes "wf_obj (Tree es)" and "reader_entry es n = Some e"
  shows "wf_entry e" "e \<in> set es" "e_name e = n"
    "is_tree (e_mode e) \<Longrightarrow> wf_tree (e_oid e)" "is_tree (e_mode e) \<Longrightarrow> e_oid e \<noteq> empty_id"
    "is_tree (e_mode e) \<Longrightarrow> e_mode e = mode_tree"
  using assms reader_entry_SomeD [OF assms(2)] wf_obj_TreeD(4) [OF assms(1), of e]
  by (auto simp: wf_tree_def wf_entry_iff)

lemma wf_tree_induct [consumes 1, case_names Tree]:
  assumes "wf_tree t"
    and "\<And>es. wf_obj (Tree es) \<Longrightarrow>
      (\<And>n e. reader_entry es n = Some e \<Longrightarrow> is_tree (e_mode e) \<Longrightarrow> P (e_oid e)) \<Longrightarrow> P (Tree es)"
  shows "P t"
  using assms(1)
proof (induction "size t" arbitrary: t rule: less_induct)
  case less
  from less.prems obtain es where t: "t = Tree es" "wf_obj (Tree es)" by (rule wf_tree_cases)
  have "P (e_oid e)" if "reader_entry es n = Some e" "is_tree (e_mode e)" for n e
    using less.hyps [of "e_oid e"] reader_entry_wf [OF t(2) that(1)] that(2) t(1)
    by (auto simp: size_e_oid simp del: obj.size)
  with t assms(2) show ?case by blast
qed

lemma reader_entry_hd: "es \<noteq> [] \<Longrightarrow> reader_entry es (e_name (hd es)) = Some (hd es)"
  by (cases es) (auto simp: reader_entry_Cons)

subsection \<open>Views\<close>

lemma flat_empty [simp]: "flat empty_id p = None" "flat (Tree []) p = None"
  by (cases p; simp)+

lemma hits_empty [simp]: "\<not> hits empty_id p" "\<not> hits (Tree []) p"
  by (cases p; simp)+

lemma flat_leaf: "\<not> is_Tree t \<Longrightarrow> flat t p = None"
  by (cases t; cases p) auto

lemma flat_hits: "flat t p \<noteq> None \<Longrightarrow> hits t p"
  by (induction t p rule: flat.induct) (auto split: option.splits if_splits)

lemma hits_prefix: "hits t q \<Longrightarrow> prefix p q \<Longrightarrow> hits t p"
proof (induction t q arbitrary: p rule: hits.induct)
  case (2 t n q)
  then show ?case
    by (cases p) (auto split: option.splits if_splits simp: reader_entry_def)
qed auto

lemma hits_below: "flat t q \<noteq> None \<Longrightarrow> prefix q p \<Longrightarrow> hits t p"
proof (induction t q arbitrary: p rule: flat.induct)
  case (2 t n q)
  then show ?case by (cases p) (auto split: option.splits if_splits)
qed auto

lemma wf_tree_has_file:
  "wf_tree t \<Longrightarrow> t \<noteq> empty_id \<Longrightarrow> \<exists>p. flat t p \<noteq> None"
proof (induction t rule: wf_tree_induct)
  case (Tree es)
  then have ne: "es \<noteq> []" by (auto simp: empty_id_def)
  let ?e = "hd es"
  have rd: "reader_entry es (e_name ?e) = Some ?e" using ne by (rule reader_entry_hd)
  show ?case
  proof (cases "is_tree (e_mode ?e)")
    case True
    with Tree.IH [OF rd] reader_entry_wf(5) [OF Tree.hyps rd] obtain p where
      "flat (e_oid ?e) p \<noteq> None" by auto
    with rd True show ?thesis by (intro exI [of _ "e_name ?e # p"]) simp
  next
    case False
    with rd show ?thesis by (intro exI [of _ "[e_name ?e]"]) simp
  qed
qed

lemma hits_meets: "wf_tree t \<Longrightarrow> hits t p = meets (flat t) p"
proof (induction t arbitrary: p rule: wf_tree_induct)
  case (Tree es)
  have "meets (flat (Tree es)) p" if "hits (Tree es) p"
  proof (cases p)
    case Nil
    with that Tree.hyps have "\<exists>q. flat (Tree es) q \<noteq> None"
      by (intro wf_tree_has_file) (auto simp: empty_id_def)
    with Nil show ?thesis by (simp add: meets_def comparable_def)
  next
    case (Cons n q)
    with that obtain e where e: "reader_entry es n = Some e" by (auto split: option.splits)
    show ?thesis
    proof (cases "is_tree (e_mode e)")
      case True
      with that Cons e have "hits (e_oid e) q" by simp
      with Tree.IH [OF e True] obtain r where "flat (e_oid e) r \<noteq> None" "comparable q r"
        by (auto simp: meets_def)
      with True Cons e show ?thesis
        unfolding meets_def by (intro exI [of _ "n # r"]) (auto simp: comparable_def)
    next
      case False
      with Cons e show ?thesis
        unfolding meets_def by (intro exI [of _ "[n]"]) (simp add: comparable_def)
    qed
  qed
  moreover have "hits (Tree es) p" if "meets (flat (Tree es)) p"
    using that flat_hits hits_prefix hits_below unfolding meets_def comparable_def by blast
  ultimately show ?case by blast
qed

lemma flat_antichain: "flat t p \<noteq> None \<Longrightarrow> flat t q \<noteq> None \<Longrightarrow> prefix p q \<Longrightarrow> p = q"
proof (induction t p arbitrary: q rule: flat.induct)
  case (2 t n p)
  then show ?case
    by (cases q) (auto split: option.splits if_splits)
qed auto

lemma flat_comparable: "flat t p \<noteq> None \<Longrightarrow> flat t q \<noteq> None \<Longrightarrow> comparable p q \<Longrightarrow> p = q"
  unfolding comparable_def using flat_antichain by blast

text \<open>Extensionality: well-formed trees with the same files are the same tree.\<close>

lemma flat_ext:
  "wf_tree a \<Longrightarrow> wf_tree b \<Longrightarrow> flat a = flat b \<Longrightarrow> a = b"
proof (induction a arbitrary: b rule: wf_tree_induct)
  case (Tree es)
  from Tree.prems(1) obtain fs where b: "b = Tree fs" and wfb: "wf_obj (Tree fs)"
    by (rule wf_tree_cases)
  have flat: "flat (Tree es) (n # p) = flat (Tree fs) (n # p)" for n p
    using Tree.prems(2) b by simp
  have absent: "reader_entry gs n = None \<Longrightarrow> reader_entry hs n = None"
    if wf: "wf_obj (Tree hs)" and eq: "\<And>p. flat (Tree gs) (n # p) = flat (Tree hs) (n # p)"
    for gs hs n
  proof (rule ccontr)
    assume none: "reader_entry gs n = None" and "reader_entry hs n \<noteq> None"
    then obtain e where e: "reader_entry hs n = Some e" by blast
    show False
    proof (cases "is_tree (e_mode e)")
      case True
      with wf_tree_has_file reader_entry_wf [OF wf e] obtain p where "flat (e_oid e) p \<noteq> None"
        by blast
      with eq [of p] none e True show False by simp
    next
      case False
      with eq [of "[]"] none e show False by simp
    qed
  qed
  have none: "reader_entry es n = None \<longleftrightarrow> reader_entry fs n = None" for n
    using absent [OF wfb flat] absent [OF Tree.hyps flat [symmetric]] by blast
  have "reader_entry es n = reader_entry fs n" for n
  proof (cases "reader_entry es n"; cases "reader_entry fs n")
    fix x y assume x: "reader_entry es n = Some x" and y: "reader_entry fs n = Some y"
    note wx = reader_entry_wf [OF Tree.hyps x] and wy = reader_entry_wf [OF wfb y]
    have deep: "\<exists>p. p \<noteq> [] \<and> flat t p \<noteq> None" if "wf_tree t" "t \<noteq> empty_id" for t
      using wf_tree_has_file [OF that] by (metis flat.simps(1))
    have "\<not> is_tree (e_mode x)" if "\<not> is_tree (e_mode y)"
      using deep [of "e_oid x"] wx(4,5) flat [of n] x y that by (auto split: if_splits)
    moreover have "\<not> is_tree (e_mode y)" if "\<not> is_tree (e_mode x)"
      using deep [of "e_oid y"] wy(4,5) flat [of n, symmetric] x y that
      by (auto split: if_splits)
    ultimately have kind: "is_tree (e_mode x) \<longleftrightarrow> is_tree (e_mode y)" by blast
    have "x = y"
    proof (cases "is_tree (e_mode x) \<and> is_tree (e_mode y)")
      case True
      have "flat (e_oid x) p = flat (e_oid y) p" for p using flat [of n p] x y True by simp
      then have "flat (e_oid x) = flat (e_oid y)" by (rule ext)
      with Tree.IH [OF x] wy True have "e_oid x = e_oid y" by blast
      with True wx wy show ?thesis by (metis entry.expand)
    next
      case False
      with kind flat [of n "[]"] x y wx(3) wy(3) show ?thesis by (simp add: entry.expand)
    qed
    with x y show ?thesis by simp
  qed (use none [of n] in auto)
  with Tree.hyps wfb have "es = fs" by (rule wf_tree_ext)
  with b show ?case by simp
qed

subsection \<open>Descent along a path\<close>

lemma flat_Cons_view:
  "flat t (n # p) =
    (case reader_entry (tree_entries t) n of None \<Rightarrow> None | Some e \<Rightarrow> entry_view e p)"
  by (simp add: entry_view_def split: option.split)

declare flat.simps(2) [simp del]

lemma path_components_names [simp]:
  "path_components (path_of_names ns) = (if ns = [] then None else Some ns)"
proof -
  have "path_components_from acc (path_of_names ns) = (if acc @ ns = [] then None else Some (acc @ ns))"
    for acc by (induction ns arbitrary: acc) auto
  from this [of "[]"] show ?thesis by (simp add: path_components_def)
qed

lemma path_components_Normal [simp]:
  "path_components (Normal n # path_of_names ns) = Some (n # ns)"
  "path_components [] = None"
  using path_components_names [of "n # ns"] path_components_names [of "[]"]
  by (simp_all del: path_components_names)

lemma descend_subentry:
  "descend e ns =
    (if ns = [] then Some e else if is_tree (e_mode e) then subentry (e_oid e) ns else None)"
proof (induction e ns rule: descend.induct)
  case (2 e n ns)
  then show ?case by (cases "e_oid e") (auto split: option.split)
qed simp

lemma get_path_entry_names: "get_path_entry t (path_of_names ns) = subentry t ns"
  by (cases t; cases ns)
    (simp_all add: get_path_entry_def get_path_entry_at_def descend_subentry split: option.split)

lemma subentry_Some_view:
  "subentry t ns = Some e \<Longrightarrow> flat t (ns @ p) = entry_view e p"
proof (induction t ns rule: subentry.induct)
  case (2 t n ns)
  then show ?case
    by (cases "ns = []")
      (auto simp: flat_Cons_view entry_view_def split: option.splits if_splits)
qed simp

lemma subentry_None_view: "subentry t ns = None \<Longrightarrow> ns \<noteq> [] \<Longrightarrow> flat t (ns @ p) = None"
proof (induction t ns rule: subentry.induct)
  case (2 t n ns)
  then show ?case
    by (cases "ns = []")
      (auto simp: flat_Cons_view entry_view_def split: option.splits if_splits)
qed simp

lemma subentry_wf:
  "wf_tree t \<Longrightarrow> subentry t ns = Some e \<Longrightarrow> wf_entry e \<and> e_name e = last ns"
proof (induction t ns rule: subentry.induct)
  case (2 t n ns)
  from 2(2) obtain es where t: "t = Tree es" and wf: "wf_obj (Tree es)" by (rule wf_tree_cases)
  from 2(3) t obtain x where x: "reader_entry es n = Some x" by (auto split: option.splits)
  note wx = reader_entry_wf [OF wf x]
  show ?case
  proof (cases "ns = []")
    case True
    with 2(3) x t wx show ?thesis by simp
  next
    case False
    with 2(3) x t have "is_tree (e_mode x)" "subentry (e_oid x) ns = Some e"
      by (auto split: if_splits)
    with 2(1) x t wx False show ?thesis by simp
  qed
qed simp

subsection \<open>Insertion along a path\<close>

lemma ins_snoc:
  "ns \<noteq> [] \<Longrightarrow> ins t (ns @ [n]) oid m = ins t ns (replace_child_inner n oid m (foldl sub t ns)) mode_tree"
proof (induction ns arbitrary: t)
  case (Cons a ns)
  then show ?case by (cases "ns = []") auto
qed simp

lemma wf_sub: "wf_obj t \<Longrightarrow> wf_obj (sub t n)"
proof (cases t)
  case (Tree es)
  assume "wf_obj t"
  with Tree reader_entry_wf(1) [of es n] show ?thesis
    by (auto simp: sub_def wf_entry_iff split: option.split)
qed (auto simp: sub_def)

lemma subtree_at_names:
  assumes "bisect_ok bz" and "wf_obj t"
  shows "subtree_at bz t (path_of_names ns) = foldl sub t ns"
  using assms(2)
proof (induction ns arbitrary: t)
  case (Cons n ns)
  have "(case read_tree_bytes t of
      Some es \<Rightarrow>
        (case lookup_entry bz es (component_os_str (Normal n)) (entries_canonically_sorted es) of
           Some e \<Rightarrow> e_oid e | None \<Rightarrow> empty_id)
    | None \<Rightarrow> empty_id) = sub t n"
    using Cons.prems assms(1)
    by (cases t) (auto simp: sub_def split: option.split)
  with Cons.IH [OF wf_sub [OF Cons.prems]] show ?case by simp
qed simp

lemma insert_oid_names:
  assumes "bisect_ok bz" and "wf_obj t" and "ns \<noteq> []"
  shows "insert_oid bz t (path_of_names ns) oid m = Inr (ins t ns oid m)"
  using assms(3)
proof (induction ns arbitrary: oid m rule: rev_nonempty_induct)
  case (single n)
  then show ?case by (simp add: insert_oid.simps [of _ _ "[Normal n]"])
next
  case (snoc n ns)
  then obtain a b p where split: "path_of_names (ns @ [n]) = a # b # p"
    by (cases ns; cases "tl ns") auto
  have fn: "path_file_name (path_of_names (ns @ [n])) = Some n"
    and pp: "path_parent (path_of_names (ns @ [n])) = Some (path_of_names ns)"
    by (simp_all del: path_of_names_simps)
  have "insert_oid bz t (path_of_names (ns @ [n])) oid m =
    insert_oid bz t (path_of_names ns)
      (replace_child_inner n oid m (subtree_at bz t (path_of_names ns))) mode_tree"
    using fn pp unfolding split by (subst insert_oid.simps) (simp add: Let_def)
  with snoc assms show ?case
    by (simp add: ins_snoc subtree_at_names del: path_of_names_simps)
qed

lemma insert_oid_Nil: "insert_oid bz t [] oid m = Inl InvalidPath"
  by (simp add: insert_oid.simps)

lemma flat_replace_child:
  assumes "distinct (map e_name (tree_entries t))"
  shows "flat (replace_child_inner c oid m t) q =
    (case q of [] \<Rightarrow> None | n # p \<Rightarrow> if n = c then new_view m oid p else flat t q)"
  using assms
  by (cases q) (auto simp: flat_Cons_view reader_entry_replace_child new_view_def entry_view_def)

lemma distinct_tree_entries: "wf_obj t \<Longrightarrow> distinct (map e_name (tree_entries t))"
  by (cases t) (auto dest: wf_obj_TreeD)

lemma is_Tree_ins: "ns \<noteq> [] \<Longrightarrow> is_Tree (ins t ns oid m)"
  by (cases ns) auto

lemma new_view_tree: "is_Tree t \<Longrightarrow> new_view mode_tree t p = flat t p"
  by (cases t) (auto simp: new_view_def entry_view_def zero_oid_def)

lemma flat_ins:
  assumes "wf_obj t" and "ns \<noteq> []"
  shows "flat (ins t ns oid m) q =
    (if prefix ns q then new_view m oid (drop (length ns) q)
     else if prefix q ns then None else flat t q)"
  using assms
proof (induction t ns oid m arbitrary: q rule: ins.induct)
  case (2 t n ns oid m)
  note d = distinct_tree_entries [OF 2(2)]
  show ?case
  proof (cases "ns = []")
    case True
    with d show ?thesis by (cases q) (auto simp: flat_replace_child)
  next
    case False
    note IH = 2(1) [OF False wf_sub [OF 2(2)] False]
    have sub: "flat t (n # p) = flat (sub t n) p" if "\<not> prefix p ns" for p
      using 2(2) that by (cases t)
        (auto simp: flat.simps(2) flat_leaf sub_def wf_entry_iff dest!: reader_entry_wf(1) split: option.split)
    show ?thesis
    proof (cases q)
      case (Cons a p)
      with d False IH sub show ?thesis
        by (auto simp: flat_replace_child new_view_tree is_Tree_ins)
    qed (use d in \<open>auto simp: flat_replace_child\<close>)
  qed
qed simp

lemma fits_empty [simp]: "fits empty_id ns dir" "fits (Tree []) ns dir"
  by (cases ns; simp)+

lemma wf_Tree_filter: "wf_obj (Tree es) \<Longrightarrow> wf_obj (Tree (filter P es))"
  by (auto simp: wf_obj_Tree sorted_wrt_filter distinct_map_filter)

lemma wf_Tree_swap:
  "wf_obj (Tree (ys @ x # zs)) \<Longrightarrow> wf_entry e \<Longrightarrow> e_name e = e_name x \<Longrightarrow>
   is_tree (e_mode e) = is_tree (e_mode x) \<Longrightarrow> wf_obj (Tree (ys @ e # zs))"
  by (auto simp: wf_obj_Tree sorted_wrt_append tkey_def)

lemma wf_replace_child:
  assumes t: "wf_obj t"
    and new: "oid = zero_oid \<or> oid = empty_id \<or> wf_entry (Entry m c oid)"
    and kind: "\<And>e. reader_entry (tree_entries t) c = Some e \<Longrightarrow> oid \<noteq> zero_oid \<Longrightarrow> oid \<noteq> empty_id \<Longrightarrow>
      is_tree (e_mode e) = is_tree m"
  shows "wf_tree (replace_child_inner c oid m t)"
proof -
  let ?es = "tree_entries t"
  have wf: "wf_obj (Tree ?es)" using t by (cases t) auto
  note d = wf_obj_TreeD(2) [OF wf]
  show ?thesis
  proof (cases "oid = zero_oid \<or> oid = empty_id")
    case True
    with wf show ?thesis
      by (simp add: replace_child_inner_def tree_entries_def [symmetric] Let_def wf_Tree_filter)
  next
    case False
    with new have e: "wf_entry (Entry m c oid)" by blast
    show ?thesis
    proof (cases "position (\<lambda>e. e_name e = c) ?es")
      case None
      then have "filter (\<lambda>e. e_name e \<noteq> c) ?es = ?es" "reader_entry ?es c = None"
        by (auto simp: position_None_iff filter_id_conv reader_entry_None_iff)
      with False None wf e show ?thesis
        by (simp add: replace_child_inner_def tree_entries_def [symmetric] Let_def
          wf_insert_in_order)
    next
      case (Some k)
      obtain x ys zs where sp: "?es = ys @ x # zs" "e_name x = c"
        "insert_at k (Entry m c oid) (filter (\<lambda>e. e_name e \<noteq> c) ?es) = ys @ Entry m c oid # zs"
        by (rule replace_child_split [OF Some d])
      then have "reader_entry ?es c = Some x" using d by (simp add: reader_entry_Some_iff)
      with kind False have "is_tree (e_mode x) = is_tree m" by blast
      with wf e sp have "wf_obj (Tree (ys @ Entry m c oid # zs))"
        by (auto intro: wf_Tree_swap)
      with False Some sp(3) show ?thesis
        by (simp add: replace_child_inner_def tree_entries_def [symmetric] Let_def)
    qed
  qed
qed

lemma wf_ins:
  assumes "wf_obj t" and "ns \<noteq> []" and "\<forall>n\<in>set ns. valid_name n"
    and "oid = zero_oid \<or> oid = empty_id \<or> wf_entry (Entry m (last ns) oid)"
    and "fits t ns (is_tree m)"
  shows "wf_tree (ins t ns oid m)"
  using assms
proof (induction t ns oid m rule: ins.induct)
  case (2 t n ns oid m)
  show ?case
  proof (cases "ns = []")
    case True
    with 2 show ?thesis by (auto intro!: wf_replace_child)
  next
    case False
    have fit: "fits (sub t n) ns (is_tree m)" and dir: "\<And>e. reader_entry (tree_entries t) n = Some e \<Longrightarrow> is_tree (e_mode e)"
      using 2(6) False by (auto simp: sub_def split: option.splits)
    with 2 False have wf: "wf_tree (ins (sub t n) ns oid m)" by (auto simp: wf_sub)
    then have "ins (sub t n) ns oid m = empty_id \<or> wf_entry (Entry mode_tree n (ins (sub t n) ns oid m))"
      using 2(4) by (auto simp: wf_entry_iff wf_tree_def zero_oid_def)
    with wf dir 2(2) False show ?thesis by (auto intro!: wf_replace_child)
  qed
qed simp

text \<open>Insertion at a path and lookup of the path.\<close>

lemma ins_get:
  assumes "wf_obj t" and "ns \<noteq> []" and "oid \<noteq> zero_oid" and "oid \<noteq> empty_id"
  shows "subentry (ins t ns oid m) ns = Some (Entry m (last ns) oid)"
  using assms
proof (induction t ns oid m rule: ins.induct)
  case (2 t n ns oid m)
  note d = distinct_tree_entries [OF 2(2)]
  show ?case
  proof (cases "ns = []")
    case True
    with 2 d show ?thesis by (simp add: reader_entry_replace_child)
  next
    case False
    note IH = 2(1) [OF False wf_sub [OF 2(2)] False 2(4,5)]
    then have "ins (sub t n) ns oid m \<noteq> empty_id" by (cases ns) auto
    moreover have "ins (sub t n) ns oid m \<noteq> zero_oid"
      using is_Tree_ins [OF False, of "sub t n" oid m] by (auto simp: zero_oid_def)
    ultimately show ?thesis using d IH False by (simp add: reader_entry_replace_child)
  qed
qed simp

end
