(* ===== verification/Tree_Ops.thy ===== *)
theory Tree_Ops
  imports Tree_View
begin

text \<open>
  The set operations on trees of \<^verbatim>\<open>josh-core/src/filter/tree.rs\<close>: \<open>subtract\<close>, \<open>intersect\<close> and
  \<open>overlay\<close>, each with its specification on views. The maps of pending modifications that the code
  keeps in a \<^verbatim>\<open>HashMap\<close> are maps from names.
\<close>

function subtract :: "bisect \<Rightarrow> obj \<Rightarrow> obj \<Rightarrow> obj" where
  "subtract bz input1 input2 =
    (if input1 = input2 then empty_id
     else if input1 = empty_id then empty_id
     else case read_tree_bytes input1 of
       None \<Rightarrow> empty_id
     | Some tree1 \<Rightarrow>
        (case read_tree_bytes input2 of
           None \<Rightarrow> empty_id
         | Some tree2 \<Rightarrow>
            if input2 = empty_id then input1
            else
              let sorted1 = entries_canonically_sorted tree1;
                  mods = foldl (\<lambda>mods entry.
                    case lookup_entry bz tree1 (e_name entry) sorted1 of
                      None \<Rightarrow> mods
                    | Some e1 \<Rightarrow>
                        let s = subtract bz (e_oid e1) (e_oid entry) in
                        if s = empty_id \<or> s = zero_oid then mods(e_name entry \<mapsto> None)
                        else mods(e_name entry \<mapsto> Some s)) Map.empty tree2;
                  out = filter (\<lambda>e. mods (e_name e) \<noteq> Some None) tree1;
                  out = map (\<lambda>e. case mods (e_name e) of
                      Some (Some s) \<Rightarrow> Entry (e_mode e) (e_name e) s
                    | _ \<Rightarrow> e) out
              in Tree out))"
  by pat_completeness auto
termination
  by (relation "measure (\<lambda>(bz, a, b). size b)") (auto elim!: read_tree_bytes.elims dest: size_e_oid)

function intersect :: "bisect \<Rightarrow> obj \<Rightarrow> obj \<Rightarrow> obj" where
  "intersect bz input1 input2 =
    (if input1 = input2 then input1
     else if input1 = empty_id \<or> input2 = empty_id then empty_id
     else case read_tree_bytes input1 of
       None \<Rightarrow> input1
     | Some tree1 \<Rightarrow>
        (case read_tree_bytes input2 of
           None \<Rightarrow> input1
         | Some tree2 \<Rightarrow>
            let sorted1 = entries_canonically_sorted tree1 in
            Tree (foldl (\<lambda>out entry.
              case lookup_entry bz tree1 (e_name entry) sorted1 of
                None \<Rightarrow> out
              | Some e1 \<Rightarrow>
                  let child = intersect bz (e_oid e1) (e_oid entry) in
                  if child \<noteq> empty_id \<and> child \<noteq> zero_oid
                  then insert_in_order out (Entry (e_mode e1) (e_name entry) child)
                  else out) [] tree2)))"
  by pat_completeness auto
termination
  by (relation "measure (\<lambda>(bz, a, b). size b)") (auto elim!: read_tree_bytes.elims dest: size_e_oid)

function overlay :: "bisect \<Rightarrow> obj \<Rightarrow> obj \<Rightarrow> obj" where
  "overlay bz input1 input2 =
    (if input1 = input2 then input1
     else if input1 = empty_id then input2
     else if input2 = empty_id then input1
     else case read_tree_bytes input1 of
       None \<Rightarrow> input1
     | Some tree1 \<Rightarrow>
        (case read_tree_bytes input2 of
           None \<Rightarrow> input1
         | Some tree2 \<Rightarrow>
            let sorted1 = entries_canonically_sorted tree1;
                (mods, new_entries) = foldl (\<lambda>st entry.
                  case lookup_entry bz tree1 (e_name entry) sorted1 of
                    Some e1 \<Rightarrow>
                      ((fst st)(e_name entry \<mapsto> overlay bz (e_oid e1) (e_oid entry)), snd st)
                  | None \<Rightarrow> (fst st, snd st @ [entry])) (Map.empty, []) tree2;
                out = map (\<lambda>e. case mods (e_name e) of
                    Some rid \<Rightarrow> Entry (e_mode e) (e_name e) rid
                  | None \<Rightarrow> e) tree1
            in Tree (foldl insert_in_order out new_entries)))"
  by pat_completeness auto
termination
  by (relation "measure (\<lambda>(bz, a, b). size b)") (auto elim!: read_tree_bytes.elims dest: size_e_oid)

declare subtract.simps [simp del] intersect.simps [simp del] overlay.simps [simp del]

subsection \<open>Folds that build maps and lists\<close>

lemma foldl_upd:
  assumes "distinct (map key xs)"
  shows "foldl (\<lambda>m x. case g x of None \<Rightarrow> m | Some v \<Rightarrow> m(key x \<mapsto> v)) m0 xs n =
    (case find (\<lambda>x. key x = n) xs of
       None \<Rightarrow> m0 n
     | Some x \<Rightarrow> (case g x of None \<Rightarrow> m0 n | Some v \<Rightarrow> Some v))"
  using assms
proof (induction xs arbitrary: m0)
  case (Cons x xs)
  have "find (\<lambda>y. key y = key x) xs = None"
    using Cons.prems by (auto simp: find_None_iff_all image_iff)
  with Cons show ?case by (auto split: option.split)
qed simp

lemma foldl_map_filter:
  "foldl (\<lambda>s x. case g x of None \<Rightarrow> s | Some y \<Rightarrow> f s y) s xs = foldl f s (List.map_filter g xs)"
  by (induction xs arbitrary: s) (auto simp: map_filter_simps split: option.split)

lemma set_map_filter_Some: "y \<in> set (List.map_filter g xs) \<longleftrightarrow> (\<exists>x\<in>set xs. g x = Some y)"
  by (force simp: List.map_filter_def)

lemma map_key_map_filter:
  "(\<And>x y. g x = Some y \<Longrightarrow> key y = key x) \<Longrightarrow>
   map key (List.map_filter g xs) = map key (filter (\<lambda>x. g x \<noteq> None) xs)"
  by (induction xs) (auto simp: map_filter_simps split: option.split)

lemma reader_map_filter:
  assumes "\<And>x y. g x = Some y \<Longrightarrow> e_name y = e_name x" and "distinct (map e_name es)"
  shows "reader_entry (List.map_filter g es) n = Option.bind (reader_entry es n) g"
  using assms(2)
proof (induction es)
  case (Cons e es)
  show ?case
  proof (cases "e_name e = n")
    case True
    with Cons.prems have "reader_entry es n = None" by (auto simp: reader_entry_None_iff)
    moreover from this have "reader_entry (List.map_filter g es) n = None"
      using Cons by simp
    ultimately show ?thesis using True assms(1)
      by (auto simp: map_filter_simps reader_entry_Cons split: option.split)
  next
    case False
    with Cons assms(1) show ?thesis
      by (auto simp: map_filter_simps reader_entry_Cons split: option.split)
  qed
qed (simp add: map_filter_simps)

lemma wf_map_filter:
  assumes "wf_obj (Tree es)"
    and "\<And>x y. x \<in> set es \<Longrightarrow> g x = Some y \<Longrightarrow>
      wf_entry y \<and> e_name y = e_name x \<and> is_tree (e_mode y) = is_tree (e_mode x)"
  shows "wf_obj (Tree (List.map_filter g es))"
  using assms
proof (induction es)
  case (Cons e es)
  from Cons.prems(1) have "wf_obj (Tree es)" by (auto simp: wf_obj_Tree)
  with Cons have IH: "wf_obj (Tree (List.map_filter g es))" by auto
  show ?case
  proof (cases "g e")
    case (Some y)
    with Cons.prems have y: "wf_entry y" "e_name y = e_name e" "tkey y = tkey e"
      by (auto simp: tkey_def)
    have key: "\<exists>x'\<in>set es. e_name x = e_name x' \<and> tkey x = tkey x'"
      if "x \<in> set (List.map_filter g es)" for x
      using that Cons.prems(2) by (fastforce simp: set_map_filter_Some tkey_def)
    have "tkey y < tkey x \<and> e_name y \<noteq> e_name x" if x: "x \<in> set (List.map_filter g es)" for x
    proof -
      from key [OF x] obtain x' where "x' \<in> set es" "e_name x = e_name x'" "tkey x = tkey x'"
        by blast
      moreover from this Cons.prems(1) have "tkey e < tkey x'" "e_name e \<noteq> e_name x'"
        by (auto simp: wf_obj_Tree)
      ultimately show ?thesis using y by simp
    qed
    then show ?thesis
      using IH y Some by (auto simp: wf_obj_Tree map_filter_simps)
  qed (use IH in \<open>simp add: map_filter_simps\<close>)
qed (simp add: map_filter_simps)

subsection \<open>Subtraction\<close>

definition sub_entry :: "bisect \<Rightarrow> entry list \<Rightarrow> entry \<Rightarrow> entry option" where
  "sub_entry bz es2 e =
    (case reader_entry es2 (e_name e) of
       None \<Rightarrow> Some e
     | Some e2 \<Rightarrow>
        let s = subtract bz (e_oid e) (e_oid e2) in
        if s = empty_id \<or> s = zero_oid then None else Some (Entry (e_mode e) (e_name e) s))"

lemma sub_entry_name: "sub_entry bz es2 e = Some y \<Longrightarrow> e_name y = e_name e"
  by (auto simp: sub_entry_def Let_def split: option.splits if_splits)

lemma subtract_same [simp]: "subtract bz a a = empty_id"
  by (simp add: subtract.simps)

lemma subtract_leaf: "\<not> is_Tree a \<or> \<not> is_Tree b \<Longrightarrow> subtract bz a b = empty_id"
  by (cases a; cases b) (auto simp: subtract.simps)

lemma map_filter_cong: "(\<And>x. x \<in> set xs \<Longrightarrow> g x = h x) \<Longrightarrow> List.map_filter g xs = List.map_filter h xs"
  by (induction xs) (auto simp: map_filter_simps split: option.split)

lemma map_filter_id: "(\<And>x. x \<in> set xs \<Longrightarrow> g x = Some x) \<Longrightarrow> List.map_filter g xs = xs"
  by (induction xs) (auto simp: map_filter_simps)

lemma map_filter_none: "(\<And>x. x \<in> set xs \<Longrightarrow> g x = None) \<Longrightarrow> List.map_filter g xs = []"
  by (induction xs) (auto simp: map_filter_simps)

lemma map_of_filter: "map f (filter P xs) = List.map_filter (\<lambda>x. if P x then Some (f x) else None) xs"
  by (induction xs) (auto simp: map_filter_simps)

lemma reader_entry_self:
  "wf_obj (Tree es) \<Longrightarrow> e \<in> set es \<Longrightarrow> reader_entry es (e_name e) = Some e"
  by (simp add: reader_entry_Some_iff wf_obj_Tree)

lemma subtract_tree:
  assumes bz: "bisect_ok bz" and wf1: "wf_obj (Tree es1)" and wf2: "wf_obj (Tree es2)"
  shows "subtract bz (Tree es1) (Tree es2) = Tree (List.map_filter (sub_entry bz es2) es1)"
proof -
  consider "es1 = es2" | "es1 \<noteq> es2" "es1 = []" | "es1 \<noteq> es2" "es2 = []"
    | (main) "es1 \<noteq> es2" "es1 \<noteq> []" "es2 \<noteq> []" by blast
  then show ?thesis
  proof cases
    case 1
    then show ?thesis using wf1
      by (auto simp: empty_id_def sub_entry_def reader_entry_self intro!: map_filter_none [symmetric])
  next
    case 2
    then show ?thesis by (simp add: subtract.simps empty_id_def map_filter_simps)
  next
    case 3
    then show ?thesis
      by (simp add: subtract.simps empty_id_def sub_entry_def map_filter_id)
  next
    case main
    let ?g = "\<lambda>entry. map_option (\<lambda>e1.
        let s = subtract bz (e_oid e1) (e_oid entry) in
        if s = empty_id \<or> s = zero_oid then None else Some s) (reader_entry es1 (e_name entry))"
    let ?mods = "foldl (\<lambda>m x. case ?g x of None \<Rightarrow> m | Some v \<Rightarrow> m(e_name x \<mapsto> v)) Map.empty es2"
    have d2: "distinct (map e_name es2)" using wf2 by (rule wf_obj_TreeD)
    have mods: "?mods n = Option.bind (reader_entry es2 n) ?g" for n
      using foldl_upd [OF d2, of ?g Map.empty n]
      by (auto simp: reader_entry_def split: option.split)
    have step: "(\<lambda>mods entry.
        case lookup_entry bz es1 (e_name entry) (entries_canonically_sorted es1) of
          None \<Rightarrow> mods
        | Some e1 \<Rightarrow>
            let s = subtract bz (e_oid e1) (e_oid entry) in
            if s = empty_id \<or> s = zero_oid then mods(e_name entry \<mapsto> None)
            else mods(e_name entry \<mapsto> Some s)) =
      (\<lambda>m x. case ?g x of None \<Rightarrow> m | Some v \<Rightarrow> m(e_name x \<mapsto> v))"
      using bz wf1 by (auto simp: fun_eq_iff Let_def split: option.split)
    have "subtract bz (Tree es1) (Tree es2) =
      Tree (map (\<lambda>e. case ?mods (e_name e) of
          Some (Some s) \<Rightarrow> Entry (e_mode e) (e_name e) s | _ \<Rightarrow> e)
        (filter (\<lambda>e. ?mods (e_name e) \<noteq> Some None) es1))"
      using main by (subst subtract.simps) (simp add: empty_id_def [symmetric] Let_def step, simp add: empty_id_def)
    also have "\<dots> = Tree (List.map_filter (sub_entry bz es2) es1)"
      unfolding map_of_filter mods obj.inject
    proof (rule map_filter_cong)
      fix x assume "x \<in> set es1"
      note self = reader_entry_self [OF wf1 this]
      show "(if Option.bind (reader_entry es2 (e_name x)) ?g \<noteq> Some None
          then Some (case Option.bind (reader_entry es2 (e_name x)) ?g of
            Some (Some s) \<Rightarrow> Entry (e_mode x) (e_name x) s | _ \<Rightarrow> x) else None) =
        sub_entry bz es2 x"
      proof (cases "reader_entry es2 (e_name x)")
        case (Some z)
        then have "e_name z = e_name x" by (auto dest: reader_entry_SomeD)
        with Some self show ?thesis by (simp add: sub_entry_def Let_def)
      qed (simp add: sub_entry_def)
    qed
    finally show ?thesis .
  qed
qed

lemma wf_subtract:
  assumes bz: "bisect_ok bz"
  shows "wf_tree a \<Longrightarrow> wf_tree b \<Longrightarrow> wf_tree (subtract bz a b)"
proof (induction a arbitrary: b rule: wf_tree_induct)
  case (Tree es)
  from Tree.prems obtain fs where b: "b = Tree fs" and wfb: "wf_obj (Tree fs)"
    by (rule wf_tree_cases)
  have "wf_obj (Tree (List.map_filter (sub_entry bz fs) es))"
  proof (rule wf_map_filter [OF Tree.hyps])
    fix x y assume x: "x \<in> set es" and y: "sub_entry bz fs x = Some y"
    note rx = reader_entry_self [OF Tree.hyps x]
    show "wf_entry y \<and> e_name y = e_name x \<and> is_tree (e_mode y) = is_tree (e_mode x)"
    proof (cases "reader_entry fs (e_name x)")
      case None
      with y Tree.hyps x show ?thesis by (auto simp: sub_entry_def dest: wf_obj_TreeD)
    next
      case (Some z)
      let ?s = "subtract bz (e_oid x) (e_oid z)"
      from y Some have s: "?s \<noteq> empty_id" "?s \<noteq> zero_oid" "y = Entry (e_mode x) (e_name x) ?s"
        by (auto simp: sub_entry_def Let_def split: if_splits)
      then have "is_Tree (e_oid x)" "is_Tree (e_oid z)" using subtract_leaf by blast+
      with reader_entry_wf [OF Tree.hyps rx] reader_entry_wf [OF wfb Some]
      have "wf_tree ?s" "e_mode x = mode_tree" "valid_name (e_name x)"
        using Tree.IH [OF rx, of "e_oid z"] by (auto simp: wf_entry_iff)
      with s show ?thesis by (auto simp: wf_entry_iff wf_tree_def)
    qed
  qed
  with b show ?case by (simp add: subtract_tree [OF bz Tree.hyps wfb])
qed

lemma hits_leaf: "\<not> is_Tree t \<Longrightarrow> \<not> hits t p"
  by (cases t; cases p) auto

lemma wf_tree_entries: "wf_tree t \<Longrightarrow> t \<noteq> empty_id \<Longrightarrow> tree_entries t \<noteq> []"
  by (cases t) (auto simp: wf_tree_def empty_id_def)

lemma flat_subtract_hits:
  assumes bz: "bisect_ok bz"
  shows "wf_tree a \<Longrightarrow> wf_tree b \<Longrightarrow> flat (subtract bz a b) p = (if hits b p then None else flat a p)"
proof (induction p arbitrary: a b)
  case (Cons n p)
  from Cons.prems obtain es fs where ab: "a = Tree es" "b = Tree fs"
    and wfa: "wf_obj (Tree es)" and wfb: "wf_obj (Tree fs)" by (metis wf_tree_cases)
  have rd: "reader_entry (tree_entries (subtract bz a b)) n =
      Option.bind (reader_entry es n) (sub_entry bz fs)"
    using reader_map_filter [OF sub_entry_name wf_obj_TreeD(2) [OF wfa]]
    by (simp add: ab subtract_tree [OF bz wfa wfb])
  show ?case
  proof (cases "reader_entry es n")
    case None
    with rd ab show ?thesis by (simp add: flat_Cons_view)
  next
    case (Some x)
    note wx = reader_entry_wf [OF wfa Some]
    show ?thesis
    proof (cases "reader_entry fs n")
      case None
      with rd ab Some wx show ?thesis by (simp add: flat_Cons_view sub_entry_def)
    next
      case some: (Some z)
      note wz = reader_entry_wf [OF wfb some]
      let ?s = "subtract bz (e_oid x) (e_oid z)"
      have rd': "reader_entry (tree_entries (subtract bz a b)) n =
        (if ?s = empty_id \<or> ?s = zero_oid then None else Some (Entry (e_mode x) n ?s))"
        using rd Some some wx by (simp add: sub_entry_def Let_def)
      show ?thesis
      proof (cases "is_tree (e_mode x) \<and> is_tree (e_mode z)")
        case True
        then have "wf_tree (e_oid x)" "wf_tree (e_oid z)" using wx wz by auto
        with Cons.IH [of "e_oid x" "e_oid z"] wf_subtract [OF bz, of "e_oid x" "e_oid z"]
        have "flat ?s p = (if hits (e_oid z) p then None else flat (e_oid x) p)" "?s \<noteq> zero_oid"
          by (auto simp: wf_tree_def zero_oid_def)
        with True rd' ab Some some show ?thesis
          by (auto simp: flat_Cons_view entry_view_def)
      next
        case False
        then have "?s = empty_id" using wx(1) wz(1) by (auto simp: wf_entry_iff subtract_leaf)
        with False rd' ab Some some wz show ?thesis
          by (cases "p = []") (auto simp: flat_Cons_view entry_view_def wf_tree_entries)
      qed
    qed
  qed
qed simp

subsection \<open>Intersection\<close>

definition int_entry :: "bisect \<Rightarrow> entry list \<Rightarrow> entry \<Rightarrow> entry option" where
  "int_entry bz es1 e2 =
    (case reader_entry es1 (e_name e2) of
       None \<Rightarrow> None
     | Some e1 \<Rightarrow>
        let c = intersect bz (e_oid e1) (e_oid e2) in
        if c \<noteq> empty_id \<and> c \<noteq> zero_oid then Some (Entry (e_mode e1) (e_name e2) c) else None)"

lemma int_entry_name: "int_entry bz es1 e = Some y \<Longrightarrow> e_name y = e_name e"
  by (auto simp: int_entry_def Let_def split: option.splits if_splits)

lemma intersect_same [simp]: "intersect bz a a = a"
  by (simp add: intersect.simps)

lemma intersect_leaf:
  "\<not> is_Tree a \<or> \<not> is_Tree b \<Longrightarrow> a \<noteq> empty_id \<Longrightarrow> b \<noteq> empty_id \<Longrightarrow> intersect bz a b = a"
  by (cases a; cases b) (auto simp: intersect.simps)

lemma intersect_empty [simp]: "intersect bz empty_id b = empty_id" "intersect bz a empty_id = empty_id"
  by (simp_all add: intersect.simps)

lemma intersect_tree:
  assumes bz: "bisect_ok bz" and wf1: "wf_obj (Tree es1)"
    and "es1 \<noteq> es2" "es1 \<noteq> []" "es2 \<noteq> []"
  shows "intersect bz (Tree es1) (Tree es2) =
    Tree (foldl insert_in_order [] (List.map_filter (int_entry bz es1) es2))"
proof -
  have step: "(\<lambda>out entry.
      case lookup_entry bz es1 (e_name entry) (entries_canonically_sorted es1) of
        None \<Rightarrow> out
      | Some e1 \<Rightarrow>
          let child = intersect bz (e_oid e1) (e_oid entry) in
          if child \<noteq> empty_id \<and> child \<noteq> zero_oid
          then insert_in_order out (Entry (e_mode e1) (e_name entry) child)
          else out) =
    (\<lambda>s x. case int_entry bz es1 x of None \<Rightarrow> s | Some y \<Rightarrow> insert_in_order s y)"
    using bz wf1 by (auto simp: fun_eq_iff int_entry_def Let_def split: option.split)
  show ?thesis
    using assms(3-5) by (subst intersect.simps) (simp add: empty_id_def [symmetric] Let_def step
      foldl_map_filter, simp add: empty_id_def)
qed

lemma wf_map_filter_batch:
  assumes "\<And>x y. x \<in> set es \<Longrightarrow> g x = Some y \<Longrightarrow> wf_entry y \<and> e_name y = e_name x"
    and "distinct (map e_name es)" and "\<And>x y. g x = Some y \<Longrightarrow> e_name y = e_name x"
  shows "wf_obj (Tree (foldl insert_in_order [] (List.map_filter g es)))"
    and "reader_entry (foldl insert_in_order [] (List.map_filter g es)) n =
      Option.bind (reader_entry es n) g"
proof -
  have "wf_obj (Tree (foldl insert_in_order [] (List.map_filter g es))) \<and>
    (\<forall>n. reader_entry (foldl insert_in_order [] (List.map_filter g es)) n =
      (case reader_entry [] n of Some e \<Rightarrow> Some e | None \<Rightarrow> reader_entry (List.map_filter g es) n))"
  proof (rule insert_in_order_batch)
    show "distinct (map e_name (List.map_filter g es))"
      using assms(2,3) by (simp add: map_key_map_filter distinct_map_filter)
  qed (use assms(1) in \<open>auto simp: set_map_filter_Some\<close>)
  with reader_map_filter [of g es n] assms(2,3)
  show "wf_obj (Tree (foldl insert_in_order [] (List.map_filter g es)))"
    "reader_entry (foldl insert_in_order [] (List.map_filter g es)) n =
      Option.bind (reader_entry es n) g" by auto
qed

lemma intersect_dir:
  assumes bz: "bisect_ok bz"
  shows "wf_tree a \<Longrightarrow> wf_tree b \<Longrightarrow> wf_tree (intersect bz a b) \<and>
    (\<forall>n. reader_entry (tree_entries (intersect bz a b)) n =
      Option.bind (reader_entry (tree_entries b) n) (int_entry bz (tree_entries a)))"
proof (induction a arbitrary: b rule: wf_tree_induct)
  case (Tree es)
  from Tree.prems obtain fs where b: "b = Tree fs" and wfb: "wf_obj (Tree fs)"
    by (rule wf_tree_cases)
  consider (same) "es = fs" | (empty) "es \<noteq> fs" "es = [] \<or> fs = []"
    | (main) "es \<noteq> fs" "es \<noteq> []" "fs \<noteq> []" by blast
  then show ?case
  proof cases
    case same
    have "int_entry bz es e = Some e" if "e \<in> set es" for e
      using reader_entry_self [OF Tree.hyps that] wf_obj_TreeD(4) [OF Tree.hyps that]
      by (cases e) (simp add: int_entry_def wf_entry_iff)
    then have "Option.bind (reader_entry es n) (int_entry bz es) = reader_entry es n" for n
      by (cases "reader_entry es n") (auto dest: reader_entry_SomeD)
    with same b Tree.hyps show ?thesis by simp
  next
    case empty
    then have "intersect bz (Tree es) b = empty_id"
      using b by (auto simp: empty_id_def [symmetric])
    with empty b show ?thesis
      by (auto simp: int_entry_def split: bind_split)
  next
    case main
    have wf: "wf_entry y \<and> e_name y = e_name x" if x: "x \<in> set fs" and y: "int_entry bz es x = Some y" for x y
    proof -
      note rx = reader_entry_self [OF wfb x]
      from y obtain z where z: "reader_entry es (e_name x) = Some z"
        by (auto simp: int_entry_def split: option.splits)
      note wz = reader_entry_wf [OF Tree.hyps z] and wx = reader_entry_wf [OF wfb rx]
      let ?c = "intersect bz (e_oid z) (e_oid x)"
      from y z have c: "?c \<noteq> empty_id" "?c \<noteq> zero_oid" "y = Entry (e_mode z) (e_name x) ?c"
        by (auto simp: int_entry_def Let_def split: if_splits)
      show ?thesis
      proof (cases "is_tree (e_mode z) \<and> is_tree (e_mode x)")
        case True
        with Tree.IH [OF z, of "e_oid x"] wx wz have "wf_tree ?c" "e_mode z = mode_tree" by auto
        with c wx(1) show ?thesis by (simp add: wf_entry_iff wf_tree_def)
      next
        case False
        then have "?c = e_oid z" using wx(1) wz(1) by (auto simp: wf_entry_iff intersect_leaf)
        with c wz show ?thesis by (simp add: wf_entry_iff)
      qed
    qed
    from wf_map_filter_batch [OF wf wf_obj_TreeD(2) [OF wfb] int_entry_name] b main
    show ?thesis by (simp add: intersect_tree [OF bz Tree.hyps])
  qed
qed

lemma flat_intersect_hits:
  assumes bz: "bisect_ok bz"
  shows "wf_tree a \<Longrightarrow> wf_tree b \<Longrightarrow> flat (intersect bz a b) p = (if hits b p then flat a p else None)"
proof (induction p arbitrary: a b)
  case (Cons n p)
  from Cons.prems obtain es fs where ab: "a = Tree es" "b = Tree fs"
    and wfa: "wf_obj (Tree es)" and wfb: "wf_obj (Tree fs)" by (metis wf_tree_cases)
  have rd: "reader_entry (tree_entries (intersect bz a b)) n =
      Option.bind (reader_entry fs n) (int_entry bz es)"
    using intersect_dir [OF bz Cons.prems] ab by simp
  show ?case
  proof (cases "reader_entry fs n")
    case None
    with rd ab show ?thesis by (simp add: flat_Cons_view)
  next
    case (Some z)
    note wz = reader_entry_wf [OF wfb Some]
    show ?thesis
    proof (cases "reader_entry es n")
      case None
      with rd ab Some wz show ?thesis by (simp add: flat_Cons_view int_entry_def)
    next
      case some: (Some x)
      note wx = reader_entry_wf [OF wfa some]
      let ?c = "intersect bz (e_oid x) (e_oid z)"
      have rd': "reader_entry (tree_entries (intersect bz a b)) n =
        (if ?c \<noteq> empty_id \<and> ?c \<noteq> zero_oid then Some (Entry (e_mode x) n ?c) else None)"
        using rd Some some wz by (simp add: int_entry_def Let_def)
      show ?thesis
      proof (cases "is_tree (e_mode x) \<and> is_tree (e_mode z)")
        case True
        then have "wf_tree (e_oid x)" "wf_tree (e_oid z)" using wx wz by auto
        with Cons.IH [of "e_oid x" "e_oid z"] intersect_dir [OF bz, of "e_oid x" "e_oid z"]
        have "flat ?c p = (if hits (e_oid z) p then flat (e_oid x) p else None)" "?c \<noteq> zero_oid"
          by (auto simp: wf_tree_def zero_oid_def)
        with True rd' ab Some some show ?thesis
          by (auto simp: flat_Cons_view entry_view_def)
      next
        case False
        then have "?c = e_oid x" using wx(1) wz(1) by (auto simp: wf_entry_iff intersect_leaf)
        with False rd' ab Some some wz wx(1) show ?thesis
          by (cases "p = []")
            (auto simp: flat_Cons_view entry_view_def wf_tree_entries wf_entry_iff)
      qed
    qed
  qed
qed simp

subsection \<open>Overlay\<close>

lemma overlay_same [simp]: "overlay bz a a = a"
  by (simp add: overlay.simps)

lemma overlay_empty [simp]: "overlay bz empty_id b = b" "overlay bz a empty_id = a"
  by (simp_all add: overlay.simps)

lemma overlay_leaf:
  "\<not> is_Tree a \<or> \<not> is_Tree b \<Longrightarrow> a \<noteq> empty_id \<Longrightarrow> overlay bz a b = a"
  by (cases a; cases b) (auto simp: overlay.simps)

lemma foldl_mods_new:
  "foldl (\<lambda>st x. case g x of Some v \<Rightarrow> ((fst st)(key x \<mapsto> f v x), snd st) | None \<Rightarrow> (fst st, snd st @ [x]))
     (m, l) xs =
   (foldl (\<lambda>m x. case map_option (\<lambda>v. f v x) (g x) of None \<Rightarrow> m | Some v \<Rightarrow> m(key x \<mapsto> v)) m xs,
    l @ filter (\<lambda>x. g x = None) xs)"
  by (induction xs arbitrary: m l) (auto split: option.split)

definition over_entry :: "bisect \<Rightarrow> entry list \<Rightarrow> entry \<Rightarrow> entry" where
  "over_entry bz es2 e =
    (case reader_entry es2 (e_name e) of
       None \<Rightarrow> e
     | Some e2 \<Rightarrow> Entry (e_mode e) (e_name e) (overlay bz (e_oid e) (e_oid e2)))"

lemma overlay_tree:
  assumes bz: "bisect_ok bz" and wf1: "wf_obj (Tree es1)" and wf2: "wf_obj (Tree es2)"
    and "es1 \<noteq> es2" "es1 \<noteq> []" "es2 \<noteq> []"
  shows "overlay bz (Tree es1) (Tree es2) =
    Tree (foldl insert_in_order (map (over_entry bz es2) es1)
      (filter (\<lambda>e. reader_entry es1 (e_name e) = None) es2))"
proof -
  let ?g = "\<lambda>x. map_option (\<lambda>e1. overlay bz (e_oid e1) (e_oid x)) (reader_entry es1 (e_name x))"
  let ?mods = "foldl (\<lambda>m x. case ?g x of None \<Rightarrow> m | Some v \<Rightarrow> m(e_name x \<mapsto> v)) Map.empty es2"
  have d2: "distinct (map e_name es2)" using wf2 by (rule wf_obj_TreeD)
  have mods: "?mods n = Option.bind (reader_entry es2 n) ?g" for n
    using foldl_upd [OF d2, of ?g Map.empty n]
    by (auto simp: reader_entry_def split: option.split)
  have upd: "(case ?mods (e_name e) of Some rid \<Rightarrow> Entry (e_mode e) (e_name e) rid | None \<Rightarrow> e) =
      over_entry bz es2 e" if "e \<in> set es1" for e
  proof (cases "reader_entry es2 (e_name e)")
    case (Some z)
    then have "e_name z = e_name e" by (auto dest: reader_entry_SomeD)
    with Some reader_entry_self [OF wf1 that] show ?thesis
      unfolding mods by (simp add: over_entry_def)
  qed (unfold mods, simp add: over_entry_def)
  have "overlay bz (Tree es1) (Tree es2) =
    Tree (foldl insert_in_order
      (map (\<lambda>e. case ?mods (e_name e) of Some rid \<Rightarrow> Entry (e_mode e) (e_name e) rid | None \<Rightarrow> e) es1)
      (filter (\<lambda>e. reader_entry es1 (e_name e) = None) es2))"
    using assms by (subst overlay.simps)
      (simp add: empty_id_def [symmetric] Let_def foldl_mods_new, simp add: empty_id_def)
  also have "map (\<lambda>e. case ?mods (e_name e) of Some rid \<Rightarrow> Entry (e_mode e) (e_name e) rid | None \<Rightarrow> e) es1 =
      map (over_entry bz es2) es1"
    using upd by (rule map_cong [OF refl])
  finally show ?thesis .
qed

lemma over_entry_name [simp]:
  "e_name (over_entry bz es2 e) = e_name e" "e_mode (over_entry bz es2 e) = e_mode e"
  by (auto simp: over_entry_def split: option.split)

lemma reader_map:
  assumes "\<And>e. e_name (f e) = e_name e"
  shows "reader_entry (map f es) n = map_option f (reader_entry es n)"
  using assms by (induction es) (auto simp: reader_entry_Cons)

lemma wf_map_entries:
  assumes "wf_obj (Tree es)"
    and "\<And>e. e \<in> set es \<Longrightarrow> wf_entry (f e) \<and> e_name (f e) = e_name e \<and> e_mode (f e) = e_mode e"
  shows "wf_obj (Tree (map f es))"
proof -
  have "wf_obj (Tree (List.map_filter (\<lambda>e. Some (f e)) es))"
    using assms by (intro wf_map_filter) auto
  then show ?thesis by (simp add: map_filter_def comp_def)
qed

definition over_dir :: "bisect \<Rightarrow> entry list \<Rightarrow> entry list \<Rightarrow> string \<Rightarrow> entry option" where
  "over_dir bz es1 es2 n =
    (case reader_entry es1 n of
       None \<Rightarrow> reader_entry es2 n
     | Some e1 \<Rightarrow> Some (over_entry bz es2 e1))"

lemma overlay_dir:
  assumes bz: "bisect_ok bz"
  shows "wf_tree a \<Longrightarrow> wf_tree b \<Longrightarrow>
    wf_tree (overlay bz a b) \<and> (overlay bz a b = empty_id \<longrightarrow> a = empty_id \<and> b = empty_id) \<and>
    (\<forall>n. reader_entry (tree_entries (overlay bz a b)) n = over_dir bz (tree_entries a) (tree_entries b) n)"
proof (induction a arbitrary: b rule: wf_tree_induct)
  case (Tree es)
  from Tree.prems obtain fs where b: "b = Tree fs" and wfb: "wf_obj (Tree fs)"
    by (rule wf_tree_cases)
  consider (same) "es = fs" | (empty1) "es \<noteq> fs" "es = []" | (empty2) "es \<noteq> fs" "fs = []"
    | (main) "es \<noteq> fs" "es \<noteq> []" "fs \<noteq> []" by blast
  then show ?case
  proof cases
    case same
    have "over_entry bz es e = e" if "e \<in> set es" for e
      using reader_entry_self [OF Tree.hyps that] by (cases e) (simp add: over_entry_def)
    then have "over_dir bz es es n = reader_entry es n" for n
      by (auto simp: over_dir_def split: option.split dest: reader_entry_SomeD)
    with same b Tree.hyps show ?thesis by simp
  next
    case empty1
    then have "overlay bz (Tree es) b = b" by (simp add: empty_id_def [symmetric])
    with empty1 b wfb show ?thesis by (simp add: over_dir_def empty_id_def)
  next
    case empty2
    then have "overlay bz (Tree es) b = Tree es" by (simp add: b empty_id_def [symmetric])
    with empty2 b Tree.hyps show ?thesis
      by (auto simp: over_dir_def over_entry_def empty_id_def split: option.split)
  next
    case main
    let ?out = "map (over_entry bz fs) es"
    let ?new = "filter (\<lambda>e. reader_entry es (e_name e) = None) fs"
    have "wf_entry (over_entry bz fs e)" if e: "e \<in> set es" for e
    proof (cases "reader_entry fs (e_name e)")
      case None
      with wf_obj_TreeD(4) [OF Tree.hyps e] show ?thesis by (simp add: over_entry_def)
    next
      case (Some z)
      note re = reader_entry_self [OF Tree.hyps e]
      note we = reader_entry_wf [OF Tree.hyps re] and wz = reader_entry_wf [OF wfb Some]
      let ?o = "overlay bz (e_oid e) (e_oid z)"
      have oe: "over_entry bz fs e = Entry (e_mode e) (e_name e) ?o"
        using Some by (simp add: over_entry_def)
      show ?thesis
      proof (cases "is_tree (e_mode e) \<and> is_tree (e_mode z)")
        case True
        with Tree.IH [OF re, of "e_oid z"] we wz have "wf_tree ?o" "?o \<noteq> empty_id" by auto
        with True we oe show ?thesis by (simp add: wf_entry_iff wf_tree_def) (auto simp: zero_oid_def)
      next
        case False
        then have "?o = e_oid e" using we(1) wz(1) by (auto simp: wf_entry_iff overlay_leaf)
        with we oe show ?thesis by (simp add: wf_entry_iff)
      qed
    qed
    then have out: "wf_obj (Tree ?out)" by (intro wf_map_entries [OF Tree.hyps]) auto
    have ro: "reader_entry ?out n = map_option (over_entry bz fs) (reader_entry es n)" for n
      by (rule reader_map) simp
    have "wf_obj (Tree (foldl insert_in_order ?out ?new)) \<and>
      (\<forall>n. reader_entry (foldl insert_in_order ?out ?new) n =
        (case reader_entry ?out n of Some e \<Rightarrow> Some e | None \<Rightarrow> reader_entry ?new n))"
      using wf_obj_TreeD(2,4) [OF wfb] ro
      by (intro insert_in_order_batch [OF out]) (auto simp: distinct_map_filter)
    moreover have "reader_entry ?new n = (if reader_entry es n = None then reader_entry fs n else None)" for n
      by (induction fs) (auto simp: reader_entry_Cons)
    ultimately have wf: "wf_obj (Tree (foldl insert_in_order ?out ?new))"
      and rd: "reader_entry (foldl insert_in_order ?out ?new) n = over_dir bz es fs n" for n
      using ro by (auto simp: over_dir_def split: option.split)
    have "over_dir bz es fs (e_name (hd es)) \<noteq> None"
      using main(2) reader_entry_hd by (simp add: over_dir_def)
    then have "foldl insert_in_order ?out ?new \<noteq> []" using rd [of "e_name (hd es)"] by force
    with wf rd b main show ?thesis
      by (simp add: overlay_tree [OF bz Tree.hyps wfb] empty_id_def)
  qed
qed

lemma flat_overlay_hits:
  assumes bz: "bisect_ok bz"
  shows "wf_tree a \<Longrightarrow> wf_tree b \<Longrightarrow>
    flat (overlay bz a b) p =
      (case flat a p of Some x \<Rightarrow> Some x | None \<Rightarrow> if hits a p then None else flat b p)"
proof (induction p arbitrary: a b)
  case (Cons n p)
  from Cons.prems obtain es fs where ab: "a = Tree es" "b = Tree fs"
    and wfa: "wf_obj (Tree es)" and wfb: "wf_obj (Tree fs)" by (metis wf_tree_cases)
  have rd: "reader_entry (tree_entries (overlay bz a b)) n = over_dir bz es fs n"
    using overlay_dir [OF bz Cons.prems] ab by simp
  show ?case
  proof (cases "reader_entry es n")
    case None
    with rd ab show ?thesis by (simp add: flat_Cons_view over_dir_def)
  next
    case (Some x)
    note wx = reader_entry_wf [OF wfa Some]
    show ?thesis
    proof (cases "reader_entry fs n")
      case None
      with rd ab Some wx show ?thesis
        by (simp add: flat_Cons_view over_dir_def over_entry_def split: option.split)
    next
      case some: (Some z)
      note wz = reader_entry_wf [OF wfb some]
      let ?c = "overlay bz (e_oid x) (e_oid z)"
      have rd': "reader_entry (tree_entries (overlay bz a b)) n = Some (Entry (e_mode x) n ?c)"
        using rd Some some wx by (simp add: over_dir_def over_entry_def)
      show ?thesis
      proof (cases "is_tree (e_mode x) \<and> is_tree (e_mode z)")
        case True
        then have "wf_tree (e_oid x)" "wf_tree (e_oid z)" using wx wz by auto
        with Cons.IH [of "e_oid x" "e_oid z"] True rd' ab Some some show ?thesis
          by (auto simp: flat_Cons_view entry_view_def split: option.split)
      next
        case False
        then have "?c = e_oid x" using wx(1) wz(1) by (auto simp: wf_entry_iff overlay_leaf)
        with False rd' ab Some some wz wx show ?thesis
          by (auto simp: flat_Cons_view entry_view_def wf_tree_entries split: option.split)
      qed
    qed
  qed
qed simp

subsection \<open>The algebra of the three operations\<close>

lemma wf_intersect: "bisect_ok bz \<Longrightarrow> wf_tree a \<Longrightarrow> wf_tree b \<Longrightarrow> wf_tree (intersect bz a b)"
  by (simp add: intersect_dir)

lemma wf_overlay: "bisect_ok bz \<Longrightarrow> wf_tree a \<Longrightarrow> wf_tree b \<Longrightarrow> wf_tree (overlay bz a b)"
  by (simp add: overlay_dir)

declare wf_subtract [wf_intros] wf_intersect [wf_intros] wf_overlay [wf_intros]

lemmas flat_ops [tree_simps] = flat_subtract_hits flat_intersect_hits flat_overlay_hits

lemma hits_flat: "wf_tree t \<Longrightarrow> flat t p \<noteq> None \<Longrightarrow> hits t p"
  by (rule flat_hits)

lemma hits_subset:
  assumes "wf_tree a" and "wf_tree c" and "flat a p \<noteq> None"
    and "\<And>q. flat c q \<noteq> None \<Longrightarrow> flat c q = flat a q"
  shows "hits c p \<longleftrightarrow> flat c p \<noteq> None"
proof
  assume "hits c p"
  then obtain q where q: "flat c q \<noteq> None" "comparable p q"
    using assms(2) by (auto simp: hits_meets meets_def)
  moreover from q(1) assms(4) have "flat a q \<noteq> None" by metis
  ultimately show "flat c p \<noteq> None" using flat_comparable assms(3) by metis
qed (rule flat_hits)

definition bisect_lin :: bisect where
  "bisect_lin es name dir = find (\<lambda>e. e_name e = name \<and> is_tree (e_mode e) = dir) es"

lemma bisect_ok_lin: "bisect_ok bisect_lin"
  by (simp add: bisect_ok_def bisect_lin_def)

text \<open>Two sample trees: files \<^verbatim>\<open>a\<close>, \<^verbatim>\<open>d/x\<close>, \<^verbatim>\<open>d/y\<close>, and files \<^verbatim>\<open>d/x\<close>, \<^verbatim>\<open>e\<close>.\<close>

definition sample1 :: obj where
  "sample1 = Tree [Entry mode_blob ''a'' (Blob ''1''),
    Entry mode_tree ''d'' (Tree [Entry mode_blob ''x'' (Blob ''2''), Entry mode_blob ''y'' (Blob ''3'')])]"

definition sample2 :: obj where
  "sample2 = Tree [Entry mode_tree ''d'' (Tree [Entry mode_blob ''x'' (Blob ''4'')]),
    Entry mode_blob ''e'' (Blob ''5'')]"

lemma wf_samples: "wf_tree sample1" "wf_tree sample2"
  by code_simp+

text \<open>
  C11. \<open>subtract\<close> removes by path: a file of the first tree survives, mode and content unchanged,
  exactly when no file of the second tree lies at, below or above its path. The result is a
  well-formed tree.
\<close>

theorem subtract_spec:
  assumes "bisect_ok bz" and "wf_tree a" and "wf_tree b"
  shows "wf_tree (subtract bz a b) \<and>
    flat (subtract bz a b) p = (if meets (flat b) p then None else flat a p)"
  using assms by (simp add: flat_ops wf_subtract hits_meets)

theorem subtract_spec_witness:
  "flat (subtract bisect_lin sample1 sample2) [''d'', ''y''] = Some (mode_blob, Blob ''3'') \<and>
   flat (subtract bisect_lin sample1 sample2) [''d'', ''x''] = None"
proof -
  have "meets (flat sample2) [''d'', ''x'']" "\<not> meets (flat sample2) [''d'', ''y'']"
    "flat sample1 [''d'', ''y''] = Some (mode_blob, Blob ''3'')"
    unfolding hits_meets [OF wf_samples(2), symmetric] by code_simp+
  then show ?thesis
    using subtract_spec [OF bisect_ok_lin wf_samples, of "[''d'', ''y'']"]
      subtract_spec [OF bisect_ok_lin wf_samples, of "[''d'', ''x'']"]
    by simp
qed

text \<open>
  C12. \<open>overlay\<close> is a union in which the first tree wins: a file of the second tree is added exactly
  when it meets no file of the first. The result is a well-formed tree.
\<close>

theorem overlay_spec:
  assumes "bisect_ok bz" and "wf_tree a" and "wf_tree b"
  shows "wf_tree (overlay bz a b) \<and>
    flat (overlay bz a b) p = (if meets (flat a) p then flat a p else flat b p)"
proof -
  have "\<not> meets (flat a) p \<Longrightarrow> flat a p = None"
    using flat_hits [of a p] assms(2) by (cases "flat a p") (auto simp: hits_meets)
  with assms show ?thesis by (auto simp: flat_ops wf_overlay hits_meets split: option.split)
qed

theorem overlay_spec_witness:
  "flat (overlay bisect_lin sample1 sample2) [''d'', ''x''] = Some (mode_blob, Blob ''2'') \<and>
   flat (overlay bisect_lin sample1 sample2) [''e''] = Some (mode_blob, Blob ''5'')"
proof -
  have "meets (flat sample1) [''d'', ''x'']" "\<not> meets (flat sample1) [''e'']"
    "flat sample1 [''d'', ''x''] = Some (mode_blob, Blob ''2'')"
    "flat sample2 [''e''] = Some (mode_blob, Blob ''5'')"
    unfolding hits_meets [OF wf_samples(1), symmetric] by code_simp+
  then show ?thesis
    using overlay_spec [OF bisect_ok_lin wf_samples, of "[''d'', ''x'']"]
      overlay_spec [OF bisect_ok_lin wf_samples, of "[''e'']"]
    by simp
qed

text \<open>
  C13. \<open>intersect\<close> is the complement of \<open>subtract\<close> over its first argument, as its documentation
  says: computing it directly gives the same tree as the double subtraction.
\<close>

theorem intersect_double_subtract:
  assumes bz: "bisect_ok bz" and a: "wf_tree a" and b: "wf_tree b"
  shows "intersect bz a b = subtract bz a (subtract bz a b)"
proof (rule flat_ext)
  let ?c = "subtract bz a b"
  have c: "wf_tree ?c" using assms by (rule wf_subtract)
  have "flat (intersect bz a b) p = flat (subtract bz a ?c) p" for p
  proof (cases "flat a p")
    case None
    with assms c show ?thesis by (simp add: flat_ops)
  next
    case (Some x)
    have "hits ?c p \<longleftrightarrow> flat ?c p \<noteq> None"
      using Some by (intro hits_subset [OF a c]) (auto simp: flat_subtract_hits assms split: if_splits)
    with Some assms c show ?thesis by (simp add: flat_ops)
  qed
  then show "flat (intersect bz a b) = flat (subtract bz a ?c)" by (rule ext)
qed (use assms in \<open>auto intro: wf_intros\<close>)

theorem intersect_double_subtract_witness:
  "intersect bisect_lin sample1 sample2 =
    Tree [Entry mode_tree ''d'' (Tree [Entry mode_blob ''x'' (Blob ''2'')])]"
  unfolding intersect_double_subtract [OF bisect_ok_lin wf_samples] by code_simp

text \<open>
  C14. \<open>subtract\<close> and \<open>intersect\<close> split a tree: no file is in both parts, and overlaying the parts,
  in either order, gives the tree back.
\<close>

theorem subtract_intersect_partition:
  assumes bz: "bisect_ok bz" and a: "wf_tree a" and b: "wf_tree b"
  shows "(flat (subtract bz a b) p = None \<or> flat (intersect bz a b) p = None) \<and>
    overlay bz (subtract bz a b) (intersect bz a b) = a \<and>
    overlay bz (intersect bz a b) (subtract bz a b) = a"
proof -
  let ?s = "subtract bz a b" and ?i = "intersect bz a b"
  have s: "wf_tree ?s" and i: "wf_tree ?i" using assms by (auto intro: wf_intros)
  have hs: "hits ?s p \<longleftrightarrow> flat ?s p \<noteq> None" and hi: "hits ?i p \<longleftrightarrow> flat ?i p \<noteq> None"
    if "flat a p \<noteq> None" for p
    using that by (intro hits_subset [OF a s] hits_subset [OF a i];
      auto simp: flat_ops assms split: if_splits)+
  have "flat (overlay bz ?s ?i) p = flat a p" "flat (overlay bz ?i ?s) p = flat a p" for p
    using hs [of p] hi [of p] assms s i
    by (cases "flat a p"; auto simp: flat_ops)+
  then have "overlay bz ?s ?i = a" "overlay bz ?i ?s = a"
    using assms s i by (auto intro!: flat_ext wf_intros)
  with assms show ?thesis by (simp add: flat_ops)
qed

theorem subtract_intersect_partition_witness:
  "overlay bisect_lin (subtract bisect_lin sample1 sample2) (intersect bisect_lin sample1 sample2) =
    sample1"
  using subtract_intersect_partition [OF bisect_ok_lin wf_samples] by blast

end
