(* ===== verification/Filter_Op.thy ===== *)
theory Filter_Op
  imports Tree_Ops
begin

text \<open>
  The filter language: \<^verbatim>\<open>josh-filter/src/op.rs\<close>, the builder methods of
  \<^verbatim>\<open>josh-filter/src/filter.rs\<close> that do not optimize, and the traversals of
  \<^verbatim>\<open>josh-core/src/filter/mod.rs\<close> that only look at the structure of a filter.

  A \<^verbatim>\<open>Filter\<close> is an interned handle to an \<^verbatim>\<open>Op\<close>, and two handles are equal exactly when the
  ops are, so one datatype \<open>filt\<close> models both; \<^verbatim>\<open>to_filter\<close> and \<^verbatim>\<open>to_op\<close> are the identity. A
  compiled regex or glob is identified by its source text, as its \<^verbatim>\<open>PartialEq\<close> does. A
  \<^verbatim>\<open>BTreeMap\<close> is an association list sorted by key. A resolved commit id is its hex text.
\<close>

datatype link_mode = Embedded | Snapshot | Pointer

datatype lazy_ref = Resolved string | Lazy string

datatype insert_content = Inline string | InsOid obj

datatype rev_match = AncestorStrict | AncestorInclusive | EqualRev | DefaultRev

datatype filt =
    Meta "(string \<times> string) list" filt
  | Nop
  | Empty
  | Fold
  | Paths
  | Adapt string
  | Link "link_mode option"
  | Unlink
  | Export
  | Embed path
  | Squash "(lazy_ref \<times> filt) list option"
  | Author string string
  | Committer string string
  | Rev "(rev_match \<times> lazy_ref \<times> filt) list"
  | Prune
  | RegexReplace "(string \<times> string) list"
  | Hook string
  | Index
  | Invert
  | Insert path insert_content
  | File path path
  | Prefix path
  | Subdir path
  | Workspace path
  | Stored path
  | Starlark path filt
  | TreeId path filt
  | ObjectDeref path
  | ObjectRef path
  | Pattern string
  | Message string string
  | Unapply lazy_ref filt
  | Compose "filt list"
  | Chain "filt list"
  | Subtract filt filt
  | Exclude filt
  | Select filt
  | Pin filt
  | Downstack lazy_ref

subsection \<open>Link modes and references\<close>

fun link_mode_str :: "link_mode \<Rightarrow> string" where
  "link_mode_str Embedded = ''embedded''"
| "link_mode_str Snapshot = ''snapshot''"
| "link_mode_str Pointer = ''pointer''"

definition link_mode_parse :: "string \<Rightarrow> link_mode result" where
  "link_mode_parse s =
    (if s = ''embedded'' then Inr Embedded
     else if s = ''snapshot'' then Inr Snapshot
     else if s = ''pointer'' then Inr Pointer
     else Inl UnknownLinkMode)"

fun lazy_ref_str :: "lazy_ref \<Rightarrow> string" where
  "lazy_ref_str (Resolved oid) = oid"
| "lazy_ref_str (Lazy s) = ''\"'' @ s @ ''\"''"

text \<open>
  \<^verbatim>\<open>LazyRef::parse\<close>. Reading a JSON string (\<open>json\<close>) and a hex id (\<open>from_hex\<close>) is library code.
\<close>

definition lazy_ref_parse ::
  "(string \<Rightarrow> string option) \<Rightarrow> (string \<Rightarrow> string option) \<Rightarrow> string \<Rightarrow> lazy_ref result" where
  "lazy_ref_parse json from_hex s =
    (let s = map (\<lambda>c. if c = CHR 0x27 then CHR 0x22 else c) s in
     case json s of
       Some t \<Rightarrow> Inr (Lazy t)
     | None \<Rightarrow> (case from_hex s of Some oid \<Rightarrow> Inr (Resolved oid) | None \<Rightarrow> Inl InvalidRef))"

subsection \<open>Ordered maps\<close>

fun bt_insert :: "'k::linorder \<Rightarrow> 'v \<Rightarrow> ('k \<times> 'v) list \<Rightarrow> ('k \<times> 'v) list" where
  "bt_insert k v [] = [(k, v)]"
| "bt_insert k v ((k', v') # m) =
    (if k < k' then (k, v) # (k', v') # m
     else if k = k' then (k, v) # m
     else (k', v') # bt_insert k v m)"

definition bt_get :: "('k \<times> 'v) list \<Rightarrow> 'k \<Rightarrow> 'v option" where
  "bt_get m k = map_of m k"

definition bt_sorted :: "('k::linorder \<times> 'v) list \<Rightarrow> bool" where
  "bt_sorted m = sorted_wrt (<) (map fst m)"

definition bt_of_list :: "('k::linorder \<times> 'v) list \<Rightarrow> ('k \<times> 'v) list" where
  "bt_of_list kvs = foldl (\<lambda>m (k, v). bt_insert k v m) [] kvs"

subsection \<open>Builder methods\<close>

fun with_meta :: "filt \<Rightarrow> string \<Rightarrow> string \<Rightarrow> filt" where
  "with_meta (Meta existing inner) key v = Meta (bt_insert key v existing) inner"
| "with_meta f key v = Meta [(key, v)] f"

fun get_meta :: "filt \<Rightarrow> string \<Rightarrow> string option" where
  "get_meta (Meta meta inner) key = bt_get meta key"
| "get_meta f key = None"

fun into_meta :: "filt \<Rightarrow> (string \<times> string) list" where
  "into_meta (Meta meta inner) = meta"
| "into_meta f = []"

fun peel :: "filt \<Rightarrow> filt" where
  "peel (Meta meta inner) = peel inner"
| "peel f = f"

fun without_meta_keys :: "filt \<Rightarrow> string list \<Rightarrow> filt" where
  "without_meta_keys (Meta meta inner) keys =
    (let meta' = List.filter (\<lambda>kv. fst kv \<notin> set keys) meta
     in if meta' = [] then inner else Meta meta' inner)"
| "without_meta_keys f keys = f"

definition linear :: "filt \<Rightarrow> filt" where
  "linear f = with_meta f ''history'' ''linear''"

definition unsign :: "filt \<Rightarrow> filt" where
  "unsign f = with_meta f ''gpgsig'' ''remove''"

definition propagate_meta :: "filt \<Rightarrow> (string \<times> string) list \<Rightarrow> filt" where
  "propagate_meta f meta = foldl (\<lambda>f (k, v). with_meta f k v) f meta"

subsection \<open>Sizes\<close>

text \<open>The number of operators of a filter: the measure of the recursions that follow its structure.\<close>

fun nodes :: "filt \<Rightarrow> nat" where
  "nodes (Meta m f) = Suc (nodes f)"
| "nodes (Squash (Some kvs)) = Suc (sum_list (map (\<lambda>kv. nodes (snd kv)) kvs))"
| "nodes (Rev arms) = Suc (sum_list (map (\<lambda>arm. nodes (snd (snd arm))) arms))"
| "nodes (Starlark p f) = Suc (nodes f)"
| "nodes (TreeId p f) = Suc (nodes f)"
| "nodes (Unapply r f) = Suc (nodes f)"
| "nodes (Compose fs) = Suc (sum_list (map nodes fs))"
| "nodes (Chain fs) = Suc (sum_list (map nodes fs))"
| "nodes (Subtract a b) = Suc (nodes a + nodes b)"
| "nodes (Exclude f) = Suc (nodes f)"
| "nodes (Select f) = Suc (nodes f)"
| "nodes (Pin f) = Suc (nodes f)"
| "nodes f = 1"

lemma nodes_pos: "0 < nodes f"
  by (induction f rule: nodes.induct) auto

end
