(* ===== verification/Filter_Walk.thy ===== *)
theory Filter_Walk
  imports Filter_Op
begin

text \<open>
  Functions of \<^verbatim>\<open>josh-core/src/filter/mod.rs\<close> and \<^verbatim>\<open>josh-filter/src/opt/paths.rs\<close> that walk the
  structure of a filter: lazy references and their resolution, source and destination paths, chain
  flattening with metadata, and the two functions that prepare stored filters and pins.
\<close>

fun lazy_ref_key :: "lazy_ref \<Rightarrow> nat \<times> string" where
  "lazy_ref_key (Resolved oid) = (0, oid)"
| "lazy_ref_key (Lazy s) = (1, s)"

lemma lazy_ref_key_inject: "lazy_ref_key a = lazy_ref_key b \<Longrightarrow> a = b"
  by (cases a; cases b) auto

text \<open>The derived order of \<^verbatim>\<open>LazyRef\<close>: by constructor, then by value.\<close>

instantiation lazy_ref :: linorder
begin

definition less_eq_lazy_ref :: "lazy_ref \<Rightarrow> lazy_ref \<Rightarrow> bool" where
  "less_eq_lazy_ref a b \<longleftrightarrow>
     fst (lazy_ref_key a) < fst (lazy_ref_key b) \<or>
     fst (lazy_ref_key a) = fst (lazy_ref_key b) \<and> snd (lazy_ref_key a) \<le> snd (lazy_ref_key b)"

definition less_lazy_ref :: "lazy_ref \<Rightarrow> lazy_ref \<Rightarrow> bool" where
  "less_lazy_ref a b \<longleftrightarrow> a \<le> b \<and> \<not> b \<le> a"

instance
proof
  fix a b c :: lazy_ref
  show "a < b \<longleftrightarrow> a \<le> b \<and> \<not> b \<le> a" by (rule less_lazy_ref_def)
  show "a \<le> a" by (simp add: less_eq_lazy_ref_def)
  show "a \<le> b \<Longrightarrow> b \<le> c \<Longrightarrow> a \<le> c" by (auto simp: less_eq_lazy_ref_def)
  show "a \<le> b \<Longrightarrow> b \<le> a \<Longrightarrow> a = b"
    by (auto simp: less_eq_lazy_ref_def intro!: lazy_ref_key_inject prod_eqI)
  show "a \<le> b \<or> b \<le> a" by (auto simp: less_eq_lazy_ref_def)
qed

end

subsection \<open>Lazy references\<close>

definition sort_dedup :: "'a::linorder list \<Rightarrow> 'a list" where
  "sort_dedup xs = remdups_adj (sort xs)"

fun lazy_name :: "lazy_ref \<Rightarrow> string list" where
  "lazy_name (Lazy s) = [s]"
| "lazy_name (Resolved _) = []"

fun lazy_refs :: "filt \<Rightarrow> string list" where
  "lazy_refs (Meta m f) = lazy_refs f"
| "lazy_refs (Compose fs) = sort_dedup (concat (map lazy_refs fs))"
| "lazy_refs (Exclude f) = sort_dedup (lazy_refs f)"
| "lazy_refs (Select f) = sort_dedup (lazy_refs f)"
| "lazy_refs (Pin f) = sort_dedup (lazy_refs f)"
| "lazy_refs (Chain fs) = sort_dedup (concat (map lazy_refs fs))"
| "lazy_refs (Subtract a b) = sort_dedup (lazy_refs a @ lazy_refs b)"
| "lazy_refs (Rev arms) =
    sort_dedup (sort_dedup
      (sort_dedup (concat (map (\<lambda>arm. lazy_refs (snd (snd arm))) arms)) @
       concat (map (\<lambda>arm. lazy_name (fst (snd arm))) arms)))"
| "lazy_refs (Squash (Some revs)) = sort_dedup (concat (map (\<lambda>kv. lazy_name (fst kv)) revs))"
| "lazy_refs (Downstack r) = sort_dedup (lazy_name r)"
| "lazy_refs f = []"

fun resolve_ref :: "(string \<Rightarrow> string option) \<Rightarrow> lazy_ref \<Rightarrow> lazy_ref" where
  "resolve_ref refs (Lazy s) = (case refs s of Some res \<Rightarrow> Resolved res | None \<Rightarrow> Lazy s)"
| "resolve_ref refs r = r"

fun resolve_refs :: "(string \<Rightarrow> string option) \<Rightarrow> filt \<Rightarrow> filt" where
  "resolve_refs refs (Compose fs) = Compose (map (resolve_refs refs) fs)"
| "resolve_refs refs (Exclude f) = Exclude (resolve_refs refs f)"
| "resolve_refs refs (Select f) = Select (resolve_refs refs f)"
| "resolve_refs refs (Pin f) = Pin (resolve_refs refs f)"
| "resolve_refs refs (Chain fs) = Chain (map (resolve_refs refs) fs)"
| "resolve_refs refs (Subtract a b) = Subtract (resolve_refs refs a) (resolve_refs refs b)"
| "resolve_refs refs (Rev arms) =
    Rev (map (\<lambda>arm. (fst arm, resolve_ref refs (fst (snd arm)), resolve_refs refs (snd (snd arm)))) arms)"
| "resolve_refs refs (Squash (Some revs)) =
    Squash (Some (bt_of_list (map (\<lambda>kv. (resolve_ref refs (fst kv), snd kv)) revs)))"
| "resolve_refs refs (Downstack r) = Downstack (resolve_ref refs r)"
| "resolve_refs refs f = f"

subsection \<open>Source and destination paths\<close>

fun src_path :: "filt \<Rightarrow> path" where
  "src_path (Meta m f) = src_path f"
| "src_path (Subdir p) = normalize_path p"
| "src_path (File dst src) = normalize_path src"
| "src_path (Chain fs) = normalize_path (foldl path_join [] (map src_path fs))"
| "src_path f = normalize_path []"

fun dst_path :: "filt \<Rightarrow> path" where
  "dst_path (Meta m f) = dst_path f"
| "dst_path (Prefix p) = normalize_path p"
| "dst_path (File dst src) = normalize_path dst"
| "dst_path (Chain fs) = normalize_path (foldl path_join [] (map dst_path (rev fs)))"
| "dst_path f = normalize_path []"

subsection \<open>Chains with metadata\<close>

fun is_chain :: "filt \<Rightarrow> bool" where
  "is_chain (Chain _) = True"
| "is_chain _ = False"

fun chain_steps :: "filt \<Rightarrow> filt list" where
  "chain_steps (Chain fs) = fs"
| "chain_steps _ = []"

lemma nodes_peel: "nodes (peel f) \<le> nodes f"
  by (induction f rule: peel.induct) auto

lemma nodes_elem: "f \<in> set fs \<Longrightarrow> nodes f < Suc (sum_list (map nodes fs))"
  by (induction fs) auto

lemma nodes_chain_steps: "g \<in> set (chain_steps (peel f)) \<Longrightarrow> nodes g < nodes f"
  using nodes_peel [of f] by (cases "peel f") (auto dest: nodes_elem)

definition merge_meta :: "(string \<times> string) list \<Rightarrow> (string \<times> string) list \<Rightarrow> (string \<times> string) list" where
  "merge_meta meta outer_meta =
    foldl (\<lambda>m (k, v). case bt_get m k of Some _ \<Rightarrow> m | None \<Rightarrow> bt_insert k v m) meta outer_meta"

function expand_chain :: "filt \<Rightarrow> (string \<times> string) list \<Rightarrow> filt list" where
  "expand_chain f outer_meta =
    (let meta = merge_meta (into_meta f) outer_meta in
     if is_chain (peel f)
     then concat (map (\<lambda>g. expand_chain g meta) (chain_steps (peel f)))
     else [propagate_meta (peel f) meta])"
  by pat_completeness auto
termination
  by (relation "measure (\<lambda>(f, m). nodes f)") (auto simp: nodes_chain_steps)

declare expand_chain.simps [simp del]

definition flatten_chain :: "filt \<Rightarrow> filt list" where
  "flatten_chain f = expand_chain f []"

subsection \<open>Pins and stored filters\<close>

fun legalize_pin :: "(filt \<Rightarrow> filt) \<Rightarrow> filt \<Rightarrow> filt" where
  "legalize_pin c (Compose fs) = Compose (map (legalize_pin c) fs)"
| "legalize_pin c (Chain fs) = Chain (map (legalize_pin c) fs)"
| "legalize_pin c (Subtract a b) = Subtract (legalize_pin c a) (legalize_pin c b)"
| "legalize_pin c (Exclude f) = Exclude (legalize_pin c f)"
| "legalize_pin c (Select f) = Select (legalize_pin c f)"
| "legalize_pin c (Meta m f) = Meta m (legalize_pin c f)"
| "legalize_pin c (Pin f) = c f"
| "legalize_pin c f = f"

fun needs_legalization :: "filt \<Rightarrow> bool" where
  "needs_legalization (Stored p) = True"
| "needs_legalization (Starlark p f) = True"
| "needs_legalization (Compose fs) = list_ex needs_legalization fs"
| "needs_legalization (Chain fs) = list_ex needs_legalization fs"
| "needs_legalization (Subtract a b) = (needs_legalization a \<or> needs_legalization b)"
| "needs_legalization (Exclude f) = needs_legalization f"
| "needs_legalization (Select f) = needs_legalization f"
| "needs_legalization (Pin f) = needs_legalization f"
| "needs_legalization (TreeId p f) = needs_legalization f"
| "needs_legalization (Meta m f) = needs_legalization f"
| "needs_legalization f = False"

subsection \<open>Facts about ordered maps\<close>

lemma bt_sorted_Cons: "bt_sorted ((k, v) # m) \<longleftrightarrow> (\<forall>x\<in>set m. k < fst x) \<and> bt_sorted m"
  by (auto simp: bt_sorted_def)

lemma bt_sorted_Nil [simp]: "bt_sorted []"
  by (simp add: bt_sorted_def)

lemma fst_set_bt_insert [simp]: "fst ` set (bt_insert k v m) = insert k (fst ` set m)"
  by (induction k v m rule: bt_insert.induct) auto

lemma bt_sorted_insert: "bt_sorted m \<Longrightarrow> bt_sorted (bt_insert k v m)"
proof (induction k v m rule: bt_insert.induct)
  case (2 k v k' v' m)
  have "\<forall>x\<in>set (bt_insert k v m). k' < fst x" if "k' < k"
  proof
    fix x assume "x \<in> set (bt_insert k v m)"
    then have "fst x \<in> insert k (fst ` set m)"
      unfolding fst_set_bt_insert [of k v m, symmetric] by (rule imageI)
    with 2(2) that show "k' < fst x" by (auto simp: bt_sorted_Cons)
  qed
  with 2 show ?case by (fastforce simp: bt_sorted_Cons)
qed (simp add: bt_sorted_Cons)

lemma bt_get_insert:
  "bt_sorted m \<Longrightarrow> bt_get (bt_insert k v m) k' = (if k' = k then Some v else bt_get m k')"
proof (induction k v m rule: bt_insert.induct)
  case (2 k v a b m)
  have "map_of m k = None" if "k < a"
    using 2(2) that by (force simp: bt_sorted_Cons map_of_eq_None_iff)
  with 2 show ?case by (auto simp: bt_sorted_Cons bt_get_def)
qed (simp add: bt_get_def)

lemma fst_set_bt_of_list: "fst ` set (bt_of_list kvs) = fst ` set kvs"
proof -
  have "fst ` set (foldl (\<lambda>m (k, v). bt_insert k v m) acc kvs) = fst ` set acc \<union> fst ` set kvs" for acc
    by (induction kvs arbitrary: acc) (auto simp: split_beta)
  from this [of "[]"] show ?thesis by (simp add: bt_of_list_def)
qed

lemma bt_sorted_of_list: "bt_sorted (bt_of_list kvs)"
proof -
  have "bt_sorted acc \<Longrightarrow> bt_sorted (foldl (\<lambda>m (k, v). bt_insert k v m) acc kvs)" for acc
    by (induction kvs arbitrary: acc) (auto simp: bt_sorted_insert split_beta)
  then show ?thesis by (simp add: bt_of_list_def)
qed

subsection \<open>Metadata\<close>

lemma peel_with_meta [simp]: "peel (with_meta f k v) = peel f"
  by (cases f) auto

lemma peel_propagate_meta [simp]: "peel (propagate_meta f m) = peel f"
proof (induction m arbitrary: f)
  case (Cons kv m)
  then show ?case by (cases kv) (simp add: propagate_meta_def)
qed (simp add: propagate_meta_def)

lemma peel_peel [simp]: "peel (peel f) = peel f"
  by (induction f rule: peel.induct) auto

lemma peel_not_Meta: "peel f \<noteq> Meta m g"
  by (induction f rule: peel.induct) auto

text \<open>
  C21. Metadata set on a filter is read back: \<open>get_meta\<close> after \<open>with_meta\<close> gives the new value at the
  key and the old values elsewhere, and the filter below the metadata is unchanged.
\<close>

theorem get_with_meta:
  assumes "bt_sorted (into_meta f)"
  shows "get_meta (with_meta f k v) k' = (if k' = k then Some v else get_meta f k') \<and>
    peel (with_meta f k v) = peel f \<and> bt_sorted (into_meta (with_meta f k v))"
  using assms by (cases f) (auto simp: bt_get_insert bt_sorted_insert, auto simp: bt_get_def bt_sorted_Cons)

theorem get_with_meta_witness:
  "get_meta (with_meta (linear Nop) ''gpgsig'' ''remove'') ''history'' = Some ''linear''"
  using get_with_meta [of "linear Nop" "''gpgsig''" "''remove''" "''history''"]
  by (simp add: linear_def bt_get_def bt_sorted_Cons)

subsection \<open>Lazy references\<close>

lemma set_sort_dedup [simp]: "set (sort_dedup xs) = set xs"
  by (simp add: sort_dedup_def)

lemma sort_dedup_Nil [simp]: "sort_dedup [] = []"
  by (simp add: sort_dedup_def)

lemma sort_dedup_eq_Nil [simp]: "sort_dedup xs = [] \<longleftrightarrow> xs = []"
  using set_sort_dedup [of xs] by (metis set_empty)

lemma lazy_name_resolve:
  "\<forall>s\<in>set (lazy_name r). refs s \<noteq> None \<Longrightarrow> lazy_name (resolve_ref refs r) = []"
  by (cases r) auto

text \<open>No metadata wrapper on the operators that the resolution of references visits.\<close>

fun meta_free :: "filt \<Rightarrow> bool" where
  "meta_free (Meta m f) = False"
| "meta_free (Compose fs) = list_all meta_free fs"
| "meta_free (Exclude f) = meta_free f"
| "meta_free (Select f) = meta_free f"
| "meta_free (Pin f) = meta_free f"
| "meta_free (Chain fs) = list_all meta_free fs"
| "meta_free (Subtract a b) = (meta_free a \<and> meta_free b)"
| "meta_free (Rev arms) = list_all (\<lambda>arm. meta_free (snd (snd arm))) arms"
| "meta_free f = True"

text \<open>
  C22. Resolution is complete: once every reference that \<open>lazy_refs\<close> reports has a value,
  \<open>resolve_refs\<close> leaves no lazy reference, on filters without metadata wrappers.
\<close>

theorem resolve_refs_complete:
  assumes "meta_free f" and "\<forall>s\<in>set (lazy_refs f). refs s \<noteq> None"
  shows "lazy_refs (resolve_refs refs f) = []"
  using assms
proof (induction f rule: lazy_refs.induct)
  case (2 fs)
  have "lazy_refs (resolve_refs refs f) = []" if "f \<in> set fs" for f
    using 2 that by (simp add: list_all_iff)
  then show ?case by simp
next
  case (6 fs)
  have "lazy_refs (resolve_refs refs f) = []" if "f \<in> set fs" for f
    using 6 that by (simp add: list_all_iff)
  then show ?case by simp
next
  case (8 arms)
  have "lazy_refs (resolve_refs refs (snd (snd arm))) = []"
    "lazy_name (resolve_ref refs (fst (snd arm))) = []" if "arm \<in> set arms" for arm
    using 8 that lazy_name_resolve [of "fst (snd arm)" refs]
    by (simp_all add: list_all_iff ball_Un UN_ball_bex_simps)
  then show ?case by (simp add: comp_def)
next
  case (9 revs)
  let ?kvs = "map (\<lambda>kv. (resolve_ref refs (fst kv), snd kv)) revs"
  have "lazy_name r = []" if "r \<in> fst ` set (bt_of_list ?kvs)" for r
    using that 9 unfolding fst_set_bt_of_list by (fastforce intro: lazy_name_resolve)
  then show ?case by simp
next
  case (10 r)
  then show ?case using lazy_name_resolve [of r refs] by simp
qed simp_all

theorem resolve_refs_complete_witness:
  "lazy_refs (Chain [Rev [(AncestorInclusive, Lazy ''v1'', Nop)], Downstack (Lazy ''main'')]) = [''main'', ''v1''] \<and>
   lazy_refs (resolve_refs [''v1'' \<mapsto> ''aa'', ''main'' \<mapsto> ''bb'']
     (Chain [Rev [(AncestorInclusive, Lazy ''v1'', Nop)], Downstack (Lazy ''main'')])) = []"
proof -
  let ?f = "Chain [Rev [(AncestorInclusive, Lazy ''v1'', Nop)], Downstack (Lazy ''main'')]"
  have refs: "lazy_refs ?f = [''main'', ''v1'']" by code_simp
  then show ?thesis
    using resolve_refs_complete [of ?f "[''v1'' \<mapsto> ''aa'', ''main'' \<mapsto> ''bb'']"] by simp
qed

text \<open>The references below metadata wrappers, of which \<open>lazy_refs\<close> knows and \<open>resolve_refs\<close> does not.\<close>

fun meta_refs :: "filt \<Rightarrow> string list" where
  "meta_refs (Meta m f) = lazy_refs f"
| "meta_refs (Compose fs) = concat (map meta_refs fs)"
| "meta_refs (Exclude f) = meta_refs f"
| "meta_refs (Select f) = meta_refs f"
| "meta_refs (Pin f) = meta_refs f"
| "meta_refs (Chain fs) = concat (map meta_refs fs)"
| "meta_refs (Subtract a b) = meta_refs a @ meta_refs b"
| "meta_refs (Rev arms) = concat (map (\<lambda>arm. meta_refs (snd (snd arm))) arms)"
| "meta_refs f = []"

lemma set_lazy_name_resolve: "set (lazy_name (resolve_ref refs r)) = {s \<in> set (lazy_name r). refs s = None}"
  by (cases r) (auto split: option.split)

lemma UN_resolved:
  assumes "\<And>x. x \<in> A \<Longrightarrow> F x = {s \<in> G x. refs s = None} \<union> M x"
  shows "(\<Union>x \<in> A. F x) = {s \<in> (\<Union>x \<in> A. G x). refs s = None} \<union> (\<Union>x \<in> A. M x)"
  using assms by auto

text \<open>
  C23. What resolution leaves, for every filter and every table of references: the references without a value, and all
  references below a metadata wrapper, with or without a value. \<open>lazy_refs\<close> looks through
  such a wrapper and \<open>resolve_refs\<close> does not, so a reference inside \<^verbatim>\<open>:~(...)[...]\<close> is reported and never resolved.
\<close>

theorem resolve_refs_exact:
  "set (lazy_refs (resolve_refs refs f)) = {s \<in> set (lazy_refs f). refs s = None} \<union> set (meta_refs f)"
proof (induction f rule: lazy_refs.induct)
  case (1 m f)
  show ?case by auto
next
  case (2 fs)
  from UN_resolved [of "set fs", OF 2] show ?case by simp
next
  case (6 fs)
  from UN_resolved [of "set fs", OF 6] show ?case by simp
next
  case (7 a b)
  then show ?case by auto
next
  case (8 arms)
  have "(\<Union>arm \<in> set arms. set (lazy_refs (resolve_refs refs (snd (snd arm))))) =
      {s \<in> (\<Union>arm \<in> set arms. set (lazy_refs (snd (snd arm)))). refs s = None} \<union> (\<Union>arm \<in> set arms. set (meta_refs (snd (snd arm))))"
    by (rule UN_resolved) (rule 8)
  moreover have "(\<Union>arm \<in> set arms. set (lazy_name (resolve_ref refs (fst (snd arm))))) =
      {s \<in> (\<Union>arm \<in> set arms. set (lazy_name (fst (snd arm)))). refs s = None} \<union> (\<Union>arm \<in> set arms. {})"
    by (rule UN_resolved) (simp add: set_lazy_name_resolve)
  ultimately show ?case by auto
next
  case (9 revs)
  let ?kvs = "map (\<lambda>kv. (resolve_ref refs (fst kv), snd kv)) revs"
  have "(\<Union>kv \<in> set (bt_of_list ?kvs). set (lazy_name (fst kv))) = (\<Union>r \<in> fst ` set (bt_of_list ?kvs). set (lazy_name r))" by simp
  also have "\<dots> = (\<Union>kv \<in> set revs. set (lazy_name (resolve_ref refs (fst kv))))" unfolding fst_set_bt_of_list by simp
  also have "\<dots> = {s \<in> (\<Union>kv \<in> set revs. set (lazy_name (fst kv))). refs s = None} \<union> (\<Union>kv \<in> set revs. {})"
    by (rule UN_resolved) (simp add: set_lazy_name_resolve)
  finally show ?case by simp
next
  case (10 r)
  show ?case by (simp add: set_lazy_name_resolve)
qed simp_all

subsection \<open>Flattened chains\<close>

lemma is_chain_peel_expand: "g \<in> set (expand_chain f m) \<Longrightarrow> \<not> is_chain (peel g)"
proof (induction f m rule: expand_chain.induct)
  case (1 f m)
  show ?case
  proof (cases "is_chain (peel f)")
    case True
    with 1(2) obtain h where "h \<in> set (chain_steps (peel f))"
      "g \<in> set (expand_chain h (merge_meta (into_meta f) m))"
      by (subst (asm) expand_chain.simps) (auto simp: Let_def)
    with 1(1) True show ?thesis by blast
  next
    case False
    with 1(2) have "g = propagate_meta (peel f) (merge_meta (into_meta f) m)"
      by (subst (asm) expand_chain.simps) (simp add: Let_def)
    with False show ?thesis by simp
  qed
qed

end
