(* ===== verification/Opt_Structure.thy ===== *)
theory Opt_Structure
  imports Filter_Walk
begin

text \<open>
  Inversion of filters (\<^verbatim>\<open>josh-filter/src/opt/invert.rs\<close>) and the structural helpers of the
  optimizer (\<^verbatim>\<open>josh-filter/src/opt/structure.rs\<close>). The process-wide memo tables of these pure
  functions are not part of the model.
\<close>

subsection \<open>Inversion\<close>

fun invert :: "filt \<Rightarrow> filt result" where
  "invert Nop = Inr Nop"
| "invert (Message m r) = Inr Nop"
| "invert (Squash None) = Inr Nop"
| "invert Prune = Inr Prune"
| "invert Export = Inr Export"
| "invert Empty = Inr Empty"
| "invert (Link mode) = Inr Unlink"
| "invert (Subdir p) = Inr (Prefix p)"
| "invert (File dst src) = Inr (File src dst)"
| "invert (Prefix p) = Inr (Subdir p)"
| "invert (Pattern glob) = Inr (Pattern glob)"
| "invert (RegexReplace rs) = Inr Nop"
| "invert (Pin f) = Inr Nop"
| "invert (Insert p c) = Inr Empty"
| "invert (TreeId p f) = Inr Empty"
| "invert (ObjectDeref p) = Inr (ObjectRef p)"
| "invert (ObjectRef p) = Inr (ObjectDeref p)"
| "invert (Meta m f) = bindR (invert f) (\<lambda>g. Inr (Meta m g))"
| "invert (Chain fs) = bindR (mapR invert (rev fs)) (\<lambda>gs. Inr (Chain gs))"
| "invert (Compose fs) = bindR (mapR invert fs) (\<lambda>gs. Inr (Compose gs))"
| "invert (Exclude f) = bindR (invert f) (\<lambda>g. Inr (Exclude g))"
| "invert (Select f) = bindR (invert f) (\<lambda>g. Inr (Select g))"
| "invert f = Inl NoInvert"

subsection \<open>Shapes\<close>

fun chain_of :: "filt \<Rightarrow> filt list option" where
  "chain_of (Chain fs) = Some fs"
| "chain_of _ = None"

fun compose_of :: "filt \<Rightarrow> filt list option" where
  "compose_of (Compose fs) = Some fs"
| "compose_of _ = None"

fun is_generative :: "filt \<Rightarrow> bool" where
  "is_generative (Insert p c) = True"
| "is_generative (TreeId p f) = True"
| "is_generative _ = False"

fun resurrects_from_empty :: "filt \<Rightarrow> bool" where
  "resurrects_from_empty (Insert p c) = True"
| "resurrects_from_empty (TreeId p f) = True"
| "resurrects_from_empty (Chain fs) = list_ex resurrects_from_empty fs"
| "resurrects_from_empty (Compose fs) = list_ex resurrects_from_empty fs"
| "resurrects_from_empty (Subtract a b) = resurrects_from_empty a"
| "resurrects_from_empty _ = False"

fun distributes_over_compose :: "filt \<Rightarrow> bool" where
  "distributes_over_compose Nop = True"
| "distributes_over_compose Empty = True"
| "distributes_over_compose (Prefix p) = True"
| "distributes_over_compose (Subdir p) = True"
| "distributes_over_compose (Chain fs) = list_all distributes_over_compose fs"
| "distributes_over_compose (Compose fs) = list_all distributes_over_compose fs"
| "distributes_over_compose _ = False"

subsection \<open>Common parts of chains\<close>

lemma nodes_last: "fs \<noteq> [] \<Longrightarrow> nodes (last fs) < Suc (sum_list (map nodes fs))"
  by (rule nodes_elem) simp

function last_chain :: "filt \<Rightarrow> filt \<Rightarrow> filt \<times> filt" where
  "last_chain rest f =
    (case chain_of f of
       None \<Rightarrow> (rest, f)
     | Some fs \<Rightarrow> if fs = [] then (rest, f) else last_chain (Chain (rest # butlast fs)) (last fs))"
  by pat_completeness auto
termination
  by (relation "measure (\<lambda>(rest, f). nodes f)") (auto elim!: chain_of.elims intro: nodes_last)

declare last_chain.simps [simp del]

fun common_pre_loop :: "filt option \<Rightarrow> filt list \<Rightarrow> filt list \<Rightarrow> (filt \<times> filt list) option" where
  "common_pre_loop c rest [] =
    (case c of
       None \<Rightarrow> None
     | Some c \<Rightarrow> if is_generative c then None else Some (c, rest))"
| "common_pre_loop c rest (f # fs) =
    (case chain_of f of
       Some (first # chain_rest) \<Rightarrow>
         let rest' = rest @ [if chain_rest \<noteq> [] then Chain chain_rest else Nop] in
         if c = None then common_pre_loop (Some first) rest' fs
         else if c \<noteq> Some first then None
         else common_pre_loop c rest' fs
     | _ \<Rightarrow> None)"

definition common_pre :: "filt list \<Rightarrow> (filt \<times> filt list) option" where
  "common_pre fs = common_pre_loop None [] fs"

fun common_post_loop :: "filt option \<Rightarrow> filt list \<Rightarrow> filt list \<Rightarrow> (filt option \<times> filt list) option" where
  "common_post_loop c rest [] = Some (c, rest)"
| "common_post_loop c rest (f # fs) =
    (let (a, b) = last_chain Nop f;
         rest' = rest @ [a];
         c' = (if c = None then Some b else c)
     in if c' \<noteq> Some b then None else common_post_loop c' rest' fs)"

fun hoistable_post :: "filt \<Rightarrow> bool" where
  "hoistable_post (Prefix p) = True"
| "hoistable_post (Message m r) = True"
| "hoistable_post c = False"

definition common_post :: "filt list \<Rightarrow> (filt \<times> filt list) option" where
  "common_post fs =
    (case common_post_loop None [] fs of
       None \<Rightarrow> None
     | Some (None, rest) \<Rightarrow> None
     | Some (Some c, rest) \<Rightarrow>
         if invert c = Inr c \<or> hoistable_post c then Some (c, rest) else None)"

subsection \<open>Grouping\<close>

definition push_last :: "'a list list \<Rightarrow> 'a \<Rightarrow> 'a list list" where
  "push_last res f = butlast res @ [last res @ [f]]"

definition same_head :: "filt \<Rightarrow> filt \<Rightarrow> bool" where
  "same_head f g =
    (case chain_of f of
       Some (a # _) \<Rightarrow> (case chain_of g of Some (b # _) \<Rightarrow> a = b | _ \<Rightarrow> False)
     | _ \<Rightarrow> False)"

definition same_last :: "filt \<Rightarrow> filt \<Rightarrow> bool" where
  "same_last f g \<longleftrightarrow> snd (last_chain Nop f) = snd (last_chain Nop g)"

definition group_step :: "(filt \<Rightarrow> filt \<Rightarrow> bool) \<Rightarrow> filt list list \<Rightarrow> filt \<Rightarrow> filt list list" where
  "group_step same res f =
    (if res = [] then [[f]]
     else if same f (hd (last res)) then push_last res f
     else res @ [[f]])"

definition group :: "filt list \<Rightarrow> filt list list" where
  "group fs =
    (let res = foldl (group_step same_head) [] fs in
     if length res \<noteq> length fs then res else foldl (group_step same_last) [] fs)"

subsection \<open>Facts about inversion\<close>

lemma nodes_list_le:
  "list_all2 (\<lambda>x y. nodes y \<le> nodes x) xs ys \<Longrightarrow> sum_list (map nodes ys) \<le> sum_list (map nodes xs)"
  by (induction rule: list_all2_induct) auto

lemma sum_nodes_rev: "sum_list (map nodes (rev fs)) = sum_list (map nodes fs)"
  by (simp add: rev_map [symmetric] sum_list_rev)

lemma list_all2_mono_set:
  "list_all2 P xs ys \<Longrightarrow> (\<And>x y. x \<in> set xs \<Longrightarrow> y \<in> set ys \<Longrightarrow> P x y \<Longrightarrow> Q x y) \<Longrightarrow> list_all2 Q xs ys"
  by (induction rule: list_all2_induct) auto

lemma nodes_invert: "invert f = Inr g \<Longrightarrow> nodes g \<le> nodes f"
proof (induction f arbitrary: g rule: invert.induct)
  case (19 fs)
  then obtain gs where g: "g = Chain gs" "list_all2 (\<lambda>x y. invert x = Inr y) (rev fs) gs"
    by (auto simp: bindR_Inr_iff mapR_Inr_iff)
  have "list_all2 (\<lambda>x y. nodes y \<le> nodes x) (rev fs) gs"
    using g(2) by (rule list_all2_mono_set) (use 19 in auto)
  with g nodes_list_le [of "rev fs" gs] show ?case by (simp add: sum_nodes_rev)
next
  case (20 fs)
  then obtain gs where g: "g = Compose gs" "list_all2 (\<lambda>x y. invert x = Inr y) fs gs"
    by (auto simp: bindR_Inr_iff mapR_Inr_iff)
  have "list_all2 (\<lambda>x y. nodes y \<le> nodes x) fs gs"
    using g(2) by (rule list_all2_mono_set) (use 20 in auto)
  with g nodes_list_le [of fs gs] show ?case by simp
qed (auto simp: bindR_Inr_iff nodes_pos Suc_leI)

text \<open>
  Operators whose inverse has an inverse: everything invertible except \<^verbatim>\<open>:link\<close>.
\<close>

fun link_free :: "filt \<Rightarrow> bool" where
  "link_free (Link mode) = False"
| "link_free (Meta m f) = link_free f"
| "link_free (Chain fs) = list_all link_free fs"
| "link_free (Compose fs) = list_all link_free fs"
| "link_free (Exclude f) = link_free f"
| "link_free (Select f) = link_free f"
| "link_free f = True"

lemma invert_list_again:
  assumes "list_all2 (\<lambda>x y. invert x = Inr y) fs gs"
    and "\<And>x y. x \<in> set fs \<Longrightarrow> invert x = Inr y \<Longrightarrow> \<exists>h. invert y = Inr h \<and> invert h = Inr y"
  shows "\<exists>hs. mapR invert gs = Inr hs \<and> mapR invert hs = Inr gs"
  using assms
proof (induction rule: list_all2_induct)
  case (Cons x xs y ys)
  then obtain h hs where "invert y = Inr h" "invert h = Inr y"
    "mapR invert ys = Inr hs" "mapR invert hs = Inr ys" by fastforce
  then show ?case by (intro exI [of _ "h # hs"]) simp
qed simp

lemma mapR_rev: "mapR f xs = Inr ys \<Longrightarrow> mapR f (rev xs) = Inr (rev ys)"
  by (simp add: mapR_Inr_iff)

lemma invert_twice:
  "link_free f \<Longrightarrow> invert f = Inr g \<Longrightarrow> \<exists>h. invert g = Inr h \<and> invert h = Inr g"
proof (induction f arbitrary: g rule: invert.induct)
  case (18 m f)
  then show ?case by (fastforce simp: bindR_Inr_iff)
next
  case (19 fs)
  then obtain gs where g: "g = Chain gs" "list_all2 (\<lambda>x y. invert x = Inr y) (rev fs) gs"
    by (auto simp: bindR_Inr_iff mapR_Inr_iff)
  have "\<exists>hs. mapR invert gs = Inr hs \<and> mapR invert hs = Inr gs"
    using 19 by (intro invert_list_again [OF g(2)]) (auto simp: list_all_iff)
  then obtain hs where "mapR invert (rev gs) = Inr (rev hs)" "mapR invert hs = Inr gs"
    using mapR_rev by blast
  with g(1) show ?case by (intro exI [of _ "Chain (rev hs)"]) simp
next
  case (20 fs)
  then obtain gs where g: "g = Compose gs" "list_all2 (\<lambda>x y. invert x = Inr y) fs gs"
    by (auto simp: bindR_Inr_iff mapR_Inr_iff)
  have "\<exists>hs. mapR invert gs = Inr hs \<and> mapR invert hs = Inr gs"
    using 20 by (intro invert_list_again [OF g(2)]) (auto simp: list_all_iff)
  then obtain hs where "mapR invert gs = Inr hs" "mapR invert hs = Inr gs" by blast
  with g(1) show ?case by (intro exI [of _ "Compose hs"]) simp
next
  case (21 f)
  then show ?case by (fastforce simp: bindR_Inr_iff)
next
  case (22 f)
  then show ?case by (fastforce simp: bindR_Inr_iff)
qed simp_all

text \<open>
  C24. Inversion is an involution after one round: whenever a filter without \<^verbatim>\<open>:link\<close> has an
  inverse, the inverse has one too, and inverting that again gives the inverse back. This is what
  \<^verbatim>\<open>tree::compose\<close> and \<^verbatim>\<open>unapply\<close> rely on when they normalize a filter by a double inversion.
\<close>

theorem invert_involution:
  assumes "link_free f" and "invert f = Inr g"
  shows "\<exists>h. invert g = Inr h \<and> invert h = Inr g"
  using assms by (rule invert_twice)

theorem invert_involution_witness:
  "\<exists>h. invert (Chain [Subdir [Normal ''b''], Prefix [Normal ''a'']]) = Inr h \<and>
     invert h = Inr (Chain [Subdir [Normal ''b''], Prefix [Normal ''a'']])"
  using invert_involution [of "Chain [Subdir [Normal ''a''], Prefix [Normal ''b'']]"] by simp

text \<open>
  \<^verbatim>\<open>:link\<close> is the exception: its inverse, \<^verbatim>\<open>:unlink\<close>, has none, so the second inversion of a filter with \<^verbatim>\<open>:link\<close> fails.
\<close>

lemma mapR_Inl: "mapR f xs = Inl e \<Longrightarrow> \<exists>x \<in> set xs. f x = Inl e"
proof (induction xs)
  case (Cons x xs)
  then show ?case by (cases "f x"; cases "mapR f xs") (auto simp: bindR_def)
qed simp

lemma invert_error: "invert f = Inl e \<Longrightarrow> e = NoInvert"
proof (induction f rule: invert.induct)
  case (19 fs)
  then obtain x where "x \<in> set fs" "invert x = Inl e" by (auto simp: bindR_def split: sum.splits dest!: mapR_Inl)
  then show ?case using 19 by auto
next
  case (20 fs)
  then obtain x where "x \<in> set fs" "invert x = Inl e" by (auto simp: bindR_def split: sum.splits dest!: mapR_Inl)
  then show ?case using 20 by auto
qed (auto simp: bindR_def split: sum.splits)

lemma invert_list_link:
  assumes "list_all2 (\<lambda>x y. invert x = Inr y) fs gs" "x \<in> set fs" "\<not> link_free x"
    and "\<And>x y. x \<in> set fs \<Longrightarrow> invert x = Inr y \<Longrightarrow> \<not> link_free x \<Longrightarrow> \<not> ok (invert y)"
  shows "\<exists>y \<in> set gs. \<not> ok (invert y)"
  using assms by (induction rule: list_all2_induct) auto

lemma mapR_not_ok: "y \<in> set ys \<Longrightarrow> \<not> ok (f y) \<Longrightarrow> \<not> ok (mapR f ys)"
  by (auto simp: ok_iff mapR_Inr_iff list_all2_conv_all_nth in_set_conv_nth)

lemma invert_link: "invert f = Inr g \<Longrightarrow> \<not> link_free f \<Longrightarrow> \<not> ok (invert g)"
proof (induction f arbitrary: g rule: invert.induct)
  case (18 m f)
  then obtain g' where "g = Meta m g'" "\<not> ok (invert g')" by (auto simp: bindR_Inr_iff)
  then show ?case by (simp add: ok_iff bindR_Inr_iff)
next
  case (19 fs)
  then obtain gs where g: "g = Chain gs" "list_all2 (\<lambda>x y. invert x = Inr y) (rev fs) gs"
    by (auto simp: bindR_Inr_iff mapR_Inr_iff)
  obtain x where x: "x \<in> set (rev fs)" "\<not> link_free x" using 19(3) by (auto simp: list_all_iff)
  have "\<exists>y \<in> set gs. \<not> ok (invert y)" using 19(1) by (intro invert_list_link [OF g(2) x]) auto
  then have "\<not> ok (mapR invert (rev gs))" using mapR_not_ok [of _ "rev gs"] by auto
  then show ?case using g(1) by (simp add: ok_iff bindR_Inr_iff)
next
  case (20 fs)
  then obtain gs where g: "g = Compose gs" "list_all2 (\<lambda>x y. invert x = Inr y) fs gs"
    by (auto simp: bindR_Inr_iff mapR_Inr_iff)
  obtain x where x: "x \<in> set fs" "\<not> link_free x" using 20(3) by (auto simp: list_all_iff)
  have "\<exists>y \<in> set gs. \<not> ok (invert y)" using 20(1) by (intro invert_list_link [OF g(2) x]) auto
  then have "\<not> ok (mapR invert gs)" using mapR_not_ok [of _ gs] by auto
  then show ?case using g(1) by (simp add: ok_iff bindR_Inr_iff)
next
  case (21 f)
  then obtain g' where "g = Exclude g'" "\<not> ok (invert g')" by (auto simp: bindR_Inr_iff)
  then show ?case by (simp add: ok_iff bindR_Inr_iff)
next
  case (22 f)
  then obtain g' where "g = Select g'" "\<not> ok (invert g')" by (auto simp: bindR_Inr_iff)
  then show ?case by (simp add: ok_iff bindR_Inr_iff)
qed simp_all

end
