(* ===== verification/Opt_Prefix_Sort.thy ===== *)
theory Opt_Prefix_Sort
  imports Opt_Structure
begin

text \<open>
  \<^verbatim>\<open>josh-filter/src/opt/prefix_sort.rs\<close>: the canonical order of the elements of a composition. Two
  elements whose source paths or destination paths overlap keep their order; apart from that the
  elements are sorted by their paths.

  The children of a trie node are an association list: the code keeps them in a \<^verbatim>\<open>HashMap\<close> and only
  ever uses the set of indices it finds. The binary heap is the list of its elements; \<open>heap_min\<close> is
  the element its (reversed) order puts on top.
\<close>

datatype trie = Trie (tr_children: "(string \<times> trie) list") (tr_indices: "nat list")

fun al_update :: "'k \<Rightarrow> 'v \<Rightarrow> ('k \<times> 'v) list \<Rightarrow> ('k \<times> 'v) list" where
  "al_update k v [] = [(k, v)]"
| "al_update k v ((k', v') # m) = (if k = k' then (k, v) # m else (k', v') # al_update k v m)"

fun trie_insert :: "trie \<Rightarrow> string list \<Rightarrow> nat \<Rightarrow> trie" where
  "trie_insert (Trie ch ix) [] i = Trie ch (ix @ [i])"
| "trie_insert (Trie ch ix) (c # p) i =
    (let child = (case map_of ch c of Some t \<Rightarrow> t | None \<Rightarrow> Trie [] [])
     in Trie (al_update c (trie_insert child p i) ch) ix)"

fun collect_descendants :: "trie \<Rightarrow> nat list" where
  "collect_descendants (Trie ch ix) =
    concat (map (\<lambda>ct. tr_indices (snd ct) @ collect_descendants (snd ct)) ch)"

fun overlap_below :: "trie \<Rightarrow> string list \<Rightarrow> nat list" where
  "overlap_below t [] = collect_descendants t"
| "overlap_below t (c # p) =
    (case map_of (tr_children t) c of
       Some child \<Rightarrow> tr_indices child @ overlap_below child p
     | None \<Rightarrow> [])"

definition find_overlapping :: "trie \<Rightarrow> string list \<Rightarrow> nat list" where
  "find_overlapping t p = tr_indices t @ overlap_below t p"

definition os_path :: "path \<Rightarrow> string list" where
  "os_path p = map component_os_str p"

definition maybe_push_outgoing :: "nat list list \<Rightarrow> nat \<Rightarrow> nat \<Rightarrow> nat list list" where
  "maybe_push_outgoing outgoing j i =
    (if outgoing ! j = [] \<or> last (outgoing ! j) \<noteq> i
     then outgoing[j := outgoing ! j @ [i]] else outgoing)"

record sort_state =
  ss_outgoing :: "nat list list"
  ss_src :: trie
  ss_dst :: trie

definition sort_edges_step :: "filt list \<Rightarrow> sort_state \<Rightarrow> nat \<Rightarrow> sort_state" where
  "sort_edges_step fs st i =
    (let src = os_path (src_path (fs ! i));
         dst = os_path (dst_path (fs ! i));
         out1 = foldl (\<lambda>out j. maybe_push_outgoing out j i) (ss_outgoing st)
           (find_overlapping (ss_src st) src);
         out2 = foldl (\<lambda>out j. maybe_push_outgoing out j i) out1
           (find_overlapping (ss_dst st) dst)
     in \<lparr> ss_outgoing = out2, ss_src = trie_insert (ss_src st) src i,
          ss_dst = trie_insert (ss_dst st) dst i \<rparr>)"

definition sort_edges :: "filt list \<Rightarrow> nat list list" where
  "sort_edges fs =
    ss_outgoing (foldl (sort_edges_step fs)
      \<lparr> ss_outgoing = replicate (length fs) [], ss_src = Trie [] [], ss_dst = Trie [] [] \<rparr>
      [0..<length fs])"

definition key_less :: "filt list \<Rightarrow> nat \<Rightarrow> nat \<Rightarrow> bool" where
  "key_less fs i j \<longleftrightarrow>
    src_path (fs ! i) < src_path (fs ! j) \<or>
    src_path (fs ! i) = src_path (fs ! j) \<and> dst_path (fs ! i) < dst_path (fs ! j)"

fun heap_min :: "filt list \<Rightarrow> nat \<Rightarrow> nat list \<Rightarrow> nat" where
  "heap_min fs m [] = m"
| "heap_min fs m (i # is) = heap_min fs (if key_less fs i m then i else m) is"

definition indegrees :: "nat \<Rightarrow> nat list list \<Rightarrow> nat list" where
  "indegrees n outgoing =
    foldl (\<lambda>deg neighbors. foldl (\<lambda>deg j. deg[j := deg ! j + 1]) deg neighbors)
      (replicate n 0) outgoing"

definition release :: "nat list \<times> nat list \<Rightarrow> nat \<Rightarrow> nat list \<times> nat list" where
  "release st j =
    (let deg = fst st; d = deg ! j - 1
     in (deg[j := d], if d = 0 then snd st @ [j] else snd st))"

fun topo_loop :: "nat \<Rightarrow> filt list \<Rightarrow> nat list list \<Rightarrow> nat list \<Rightarrow> nat list \<Rightarrow> nat list" where
  "topo_loop 0 fs outgoing indegree heap = []"
| "topo_loop (Suc n) fs outgoing indegree heap =
    (case heap of
       [] \<Rightarrow> []
     | m # is \<Rightarrow>
        let i = heap_min fs m is;
            st = foldl release (indegree, remove1 i heap) (outgoing ! i)
        in i # topo_loop n fs outgoing (fst st) (snd st))"

definition topo_sort_with_tiebreak :: "nat list list \<Rightarrow> filt list \<Rightarrow> filt list" where
  "topo_sort_with_tiebreak outgoing fs =
    (let indegree = indegrees (length fs) outgoing;
         heap = List.filter (\<lambda>i. indegree ! i = 0) [0..<length fs]
     in map ((!) fs) (topo_loop (length fs) fs outgoing indegree heap))"

definition prefix_sort :: "filt list \<Rightarrow> filt list" where
  "prefix_sort fs =
    (if length fs \<le> 1 then fs else topo_sort_with_tiebreak (sort_edges fs) fs)"

subsection \<open>The trie finds the overlapping paths\<close>

inductive in_trie :: "trie \<Rightarrow> string list \<Rightarrow> nat \<Rightarrow> bool" where
  here: "i \<in> set ix \<Longrightarrow> in_trie (Trie ch ix) [] i"
| below: "map_of ch c = Some t \<Longrightarrow> in_trie t p i \<Longrightarrow> in_trie (Trie ch ix) (c # p) i"

inductive_simps in_trie_Nil [simp]: "in_trie (Trie ch ix) [] i"
inductive_simps in_trie_Cons [simp]: "in_trie (Trie ch ix) (c # p) i"

fun wf_trie :: "trie \<Rightarrow> bool" where
  "wf_trie (Trie ch ix) = (distinct (map fst ch) \<and> list_all (\<lambda>ct. wf_trie (snd ct)) ch)"

lemma map_of_al_update [simp]: "map_of (al_update k v m) = (map_of m)(k \<mapsto> v)"
  by (induction k v m rule: al_update.induct) auto

lemma fst_al_update: "fst ` set (al_update k v m) = insert k (fst ` set m)"
  by (induction k v m rule: al_update.induct) auto

lemma distinct_al_update: "distinct (map fst m) \<Longrightarrow> distinct (map fst (al_update k v m))"
  by (induction k v m rule: al_update.induct) (auto simp: fst_al_update)

lemma snd_al_update: "ct \<in> set (al_update k v m) \<Longrightarrow> ct = (k, v) \<or> ct \<in> set m"
  by (induction k v m rule: al_update.induct) (auto split: if_splits)

lemma wf_trie_child: "wf_trie (Trie ch ix) \<Longrightarrow> map_of ch c = Some t \<Longrightarrow> wf_trie t"
  by (auto simp: list_all_iff dest: map_of_SomeD)

lemma wf_trie_insert: "wf_trie t \<Longrightarrow> wf_trie (trie_insert t p i)"
proof (induction t p i rule: trie_insert.induct)
  case (2 ch ix c p i)
  let ?child = "case map_of ch c of Some t \<Rightarrow> t | None \<Rightarrow> Trie [] []"
  have "wf_trie ?child" using wf_trie_child [OF 2(2)] by (auto split: option.split)
  with 2 have "wf_trie (trie_insert ?child p i)" by simp
  with 2(2) show ?case
    by (auto simp: Let_def list_all_iff distinct_al_update dest!: snd_al_update)
qed simp

lemma in_trie_insert: "in_trie (trie_insert t p i) q j \<longleftrightarrow> in_trie t q j \<or> q = p \<and> j = i"
proof (induction t p i arbitrary: q rule: trie_insert.induct)
  case (1 ch ix i)
  then show ?case by (cases q) auto
next
  case (2 ch ix c p i)
  have empty: "\<not> in_trie (Trie [] []) r k" for r k by (cases r) auto
  show ?case
  proof (cases q)
    case (Cons d r)
    with 2 empty show ?thesis by (cases "map_of ch c"; cases "d = c") (auto simp: Let_def)
  qed (simp add: Let_def)
qed

lemma collect_descendants_iff:
  "wf_trie t \<Longrightarrow> i \<in> set (collect_descendants t) \<longleftrightarrow> (\<exists>q. q \<noteq> [] \<and> in_trie t q i)"
proof (induction t rule: collect_descendants.induct)
  case (1 ch ix)
  have step: "i \<in> set (tr_indices (snd ct)) \<or> i \<in> set (collect_descendants (snd ct)) \<longleftrightarrow>
      (\<exists>q. in_trie (snd ct) q i)" if "ct \<in> set ch" for ct
  proof -
    have "i \<in> set (collect_descendants (snd ct)) \<longleftrightarrow> (\<exists>q. q \<noteq> [] \<and> in_trie (snd ct) q i)"
      using 1(1) [OF that] 1(2) that by (simp add: list_all_iff)
    moreover have "i \<in> set (tr_indices (snd ct)) \<longleftrightarrow> in_trie (snd ct) [] i"
      by (cases "snd ct") auto
    ultimately show ?thesis by (metis neq_Nil_conv)
  qed
  have "i \<in> set (collect_descendants (Trie ch ix)) \<longleftrightarrow>
      (\<exists>ct\<in>set ch. i \<in> set (tr_indices (snd ct)) \<or> i \<in> set (collect_descendants (snd ct)))"
    by auto
  also have "\<dots> \<longleftrightarrow> (\<exists>ct\<in>set ch. \<exists>q. in_trie (snd ct) q i)"
    using step by (intro bex_cong) auto
  also have "\<dots> \<longleftrightarrow> (\<exists>c t. (c, t) \<in> set ch \<and> (\<exists>q. in_trie t q i))"
    by force
  also have "\<dots> \<longleftrightarrow> (\<exists>c t. map_of ch c = Some t \<and> (\<exists>q. in_trie t q i))"
    using 1(2) by simp
  also have "\<dots> \<longleftrightarrow> (\<exists>q. q \<noteq> [] \<and> in_trie (Trie ch ix) q i)"
    by (metis in_trie_Cons neq_Nil_conv)
  finally show ?case .
qed

lemma overlap_below_iff:
  "wf_trie t \<Longrightarrow> i \<in> set (overlap_below t p) \<longleftrightarrow> (\<exists>q. q \<noteq> [] \<and> in_trie t q i \<and> comparable p q)"
proof (induction t p rule: overlap_below.induct)
  case (1 t)
  then show ?case by (simp add: collect_descendants_iff comparable_def)
next
  case (2 t c p)
  obtain ch ix where t: "t = Trie ch ix" by (cases t)
  show ?case
  proof (cases "map_of ch c")
    case None
    have "\<not> (q \<noteq> [] \<and> in_trie t q i \<and> comparable (c # p) q)" for q
      using None t by (cases q) (auto simp: comparable_def)
    with None t show ?thesis by auto
  next
    case (Some child)
    with 2 t have IH: "i \<in> set (overlap_below child p) \<longleftrightarrow>
        (\<exists>q. q \<noteq> [] \<and> in_trie child q i \<and> comparable p q)"
      using wf_trie_child by simp
    have "i \<in> set (tr_indices child) \<longleftrightarrow> in_trie child [] i" by (cases child) auto
    then have "i \<in> set (overlap_below t (c # p)) \<longleftrightarrow> (\<exists>q. in_trie child q i \<and> comparable p q)"
      using IH Some t by (auto simp: comparable_def) 
    also have "\<dots> \<longleftrightarrow> (\<exists>q. q \<noteq> [] \<and> in_trie t q i \<and> comparable (c # p) q)"
    proof
      assume "\<exists>q. in_trie child q i \<and> comparable p q"
      then obtain q where "in_trie child q i" "comparable p q" by blast
      with Some t show "\<exists>q. q \<noteq> [] \<and> in_trie t q i \<and> comparable (c # p) q"
        by (intro exI [of _ "c # q"]) (auto simp: comparable_def)
    next
      assume "\<exists>q. q \<noteq> [] \<and> in_trie t q i \<and> comparable (c # p) q"
      then obtain d q where "in_trie t (d # q) i" "comparable (c # p) (d # q)"
        by (metis neq_Nil_conv)
      with Some t show "\<exists>q. in_trie child q i \<and> comparable p q" by (auto simp: comparable_def)
    qed
    finally show ?thesis .
  qed
qed

lemma find_overlapping_iff:
  "wf_trie t \<Longrightarrow> i \<in> set (find_overlapping t p) \<longleftrightarrow> (\<exists>q. in_trie t q i \<and> comparable p q)"
proof -
  assume wf: "wf_trie t"
  have "i \<in> set (tr_indices t) \<longleftrightarrow> in_trie t [] i" by (cases t) auto
  with overlap_below_iff [OF wf, of i p] show ?thesis
    by (auto simp: find_overlapping_def comparable_def)
qed

subsection \<open>The edges are the overlaps\<close>

definition overlaps :: "filt \<Rightarrow> filt \<Rightarrow> bool" where
  "overlaps f g \<longleftrightarrow>
    comparable (os_path (src_path f)) (os_path (src_path g)) \<or>
    comparable (os_path (dst_path f)) (os_path (dst_path g))"

lemma comparable_sym: "comparable p q = comparable q p"
  by (auto simp: comparable_def)

lemma push_outgoing_fold:
  assumes "\<forall>j\<in>set js. j < length out" and "\<forall>j<length out. i \<notin> set (butlast (out ! j))"
    and "\<forall>j<length out. distinct (out ! j)"
  shows "length (foldl (\<lambda>out j. maybe_push_outgoing out j i) out js) = length out \<and>
    (\<forall>j<length out. set (foldl (\<lambda>out j. maybe_push_outgoing out j i) out js ! j) =
       set (out ! j) \<union> (if j \<in> set js then {i} else {}) \<and>
       distinct (foldl (\<lambda>out j. maybe_push_outgoing out j i) out js ! j) \<and>
       i \<notin> set (butlast (foldl (\<lambda>out j. maybe_push_outgoing out j i) out js ! j)))"
  using assms
proof (induction js arbitrary: out)
  case (Cons a js)
  let ?out = "maybe_push_outgoing out a i"
  have a: "a < length out" using Cons.prems by simp
  have len: "length ?out = length out" by (simp add: maybe_push_outgoing_def)
  have notin: "i \<notin> set (out ! a)" if "out ! a = [] \<or> last (out ! a) \<noteq> i"
  proof (cases "out ! a = []")
    case False
    with that Cons.prems(2) a show ?thesis
      by (metis append_butlast_last_id in_set_conv_decomp set_append Un_iff list.set(1) list.set(2)
        empty_iff insert_iff)
  qed simp
  have elem: "set (?out ! j) = set (out ! j) \<union> (if j = a then {i} else {}) \<and> distinct (?out ! j) \<and>
      i \<notin> set (butlast (?out ! j))" if "j < length out" for j
  proof (cases "j = a \<and> (out ! a = [] \<or> last (out ! a) \<noteq> i)")
    case True
    with notin a Cons.prems(3) show ?thesis by (auto simp: maybe_push_outgoing_def)
  next
    case False
    have "i \<in> set (out ! a)" if "j = a"
      using False that by (metis last_in_set)
    with False that Cons.prems show ?thesis
      by (auto simp: maybe_push_outgoing_def nth_list_update)
  qed
  with Cons.IH [of ?out] Cons.prems(1) len show ?case by (auto simp: )
qed auto

lemma sort_edges_spec:
  "m \<le> length fs \<Longrightarrow>
   (let st = foldl (sort_edges_step fs)
      \<lparr> ss_outgoing = replicate (length fs) [], ss_src = Trie [] [], ss_dst = Trie [] [] \<rparr> [0..<m]
    in length (ss_outgoing st) = length fs \<and>
      wf_trie (ss_src st) \<and> wf_trie (ss_dst st) \<and>
      (\<forall>p i. in_trie (ss_src st) p i \<longleftrightarrow> i < m \<and> p = os_path (src_path (fs ! i))) \<and>
      (\<forall>p i. in_trie (ss_dst st) p i \<longleftrightarrow> i < m \<and> p = os_path (dst_path (fs ! i))) \<and>
      (\<forall>j<length fs. distinct (ss_outgoing st ! j) \<and>
        set (ss_outgoing st ! j) = {i. j < i \<and> i < m \<and> overlaps (fs ! j) (fs ! i)}))"
proof (induction m)
  case 0
  have "\<not> in_trie (Trie [] []) p i" for p i by (cases p) auto
  then show ?case by (simp add: Let_def)
next
  case (Suc m)
  let ?init = "\<lparr> ss_outgoing = replicate (length fs) [], ss_src = Trie [] [], ss_dst = Trie [] [] \<rparr>"
  let ?st = "foldl (sort_edges_step fs) ?init [0..<m]"
  let ?src = "os_path (src_path (fs ! m))" and ?dst = "os_path (dst_path (fs ! m))"
  from Suc have IH: "length (ss_outgoing ?st) = length fs" "wf_trie (ss_src ?st)" "wf_trie (ss_dst ?st)"
    "\<forall>p i. in_trie (ss_src ?st) p i \<longleftrightarrow> i < m \<and> p = os_path (src_path (fs ! i))"
    "\<forall>p i. in_trie (ss_dst ?st) p i \<longleftrightarrow> i < m \<and> p = os_path (dst_path (fs ! i))"
    "\<forall>j<length fs. distinct (ss_outgoing ?st ! j) \<and>
      set (ss_outgoing ?st ! j) = {i. j < i \<and> i < m \<and> overlaps (fs ! j) (fs ! i)}"
    by (simp_all add: Let_def)
  let ?js1 = "find_overlapping (ss_src ?st) ?src" and ?js2 = "find_overlapping (ss_dst ?st) ?dst"
  have js1: "set ?js1 = {j. j < m \<and> comparable (os_path (src_path (fs ! j))) ?src}"
  proof -
    have "j \<in> set ?js1 \<longleftrightarrow> j < m \<and> comparable (os_path (src_path (fs ! j))) ?src" for j
      using IH(4) comparable_sym [of ?src "os_path (src_path (fs ! j))"]
      by (simp add: find_overlapping_iff [OF IH(2)])
    then show ?thesis by blast
  qed
  have js2: "set ?js2 = {j. j < m \<and> comparable (os_path (dst_path (fs ! j))) ?dst}"
  proof -
    have "j \<in> set ?js2 \<longleftrightarrow> j < m \<and> comparable (os_path (dst_path (fs ! j))) ?dst" for j
      using IH(5) comparable_sym [of ?dst "os_path (dst_path (fs ! j))"]
      by (simp add: find_overlapping_iff [OF IH(3)])
    then show ?thesis by blast
  qed
  let ?out1 = "foldl (\<lambda>out j. maybe_push_outgoing out j m) (ss_outgoing ?st) ?js1"
  let ?out2 = "foldl (\<lambda>out j. maybe_push_outgoing out j m) ?out1 ?js2"
  have notm: "\<forall>j<length (ss_outgoing ?st). m \<notin> set (butlast (ss_outgoing ?st ! j))"
    using IH(1,6) by (auto dest: in_set_butlastD)
  have out1: "length ?out1 = length fs \<and> (\<forall>j<length fs.
      set (?out1 ! j) = set (ss_outgoing ?st ! j) \<union> (if j \<in> set ?js1 then {m} else {}) \<and>
      distinct (?out1 ! j) \<and> m \<notin> set (butlast (?out1 ! j)))"
    using push_outgoing_fold [of ?js1 "ss_outgoing ?st" m] notm IH(1,6) js1 Suc.prems by auto
  have out2: "length ?out2 = length fs \<and> (\<forall>j<length fs.
      set (?out2 ! j) = set (?out1 ! j) \<union> (if j \<in> set ?js2 then {m} else {}) \<and> distinct (?out2 ! j))"
    using push_outgoing_fold [of ?js2 ?out1 m] out1 js2 Suc.prems by auto
  have edges: "set (?out2 ! j) = {i. j < i \<and> i < Suc m \<and> overlaps (fs ! j) (fs ! i)}"
    if "j < length fs" for j
    using out1 out2 IH(6) that js1 js2 by (auto simp: overlaps_def less_Suc_eq)
  have "foldl (sort_edges_step fs) ?init [0..<Suc m] =
    \<lparr> ss_outgoing = ?out2, ss_src = trie_insert (ss_src ?st) ?src m,
      ss_dst = trie_insert (ss_dst ?st) ?dst m \<rparr>"
    by (simp add: sort_edges_step_def Let_def)
  with out2 edges IH show ?case
    by (auto simp: Let_def in_trie_insert wf_trie_insert less_Suc_eq)
qed

lemma sort_edges_iff:
  assumes "j < length fs"
  shows "length (sort_edges fs) = length fs" and "distinct (sort_edges fs ! j)"
    and "set (sort_edges fs ! j) = {i. j < i \<and> i < length fs \<and> overlaps (fs ! j) (fs ! i)}"
  using sort_edges_spec [of "length fs" fs] assms by (simp_all add: sort_edges_def Let_def)

subsection \<open>The topological sort\<close>

definition dag :: "nat \<Rightarrow> nat list list \<Rightarrow> bool" where
  "dag n out \<longleftrightarrow> length out = n \<and>
    (\<forall>j<n. distinct (out ! j) \<and> (\<forall>i\<in>set (out ! j). j < i \<and> i < n))"

lemma dagD:
  assumes "dag n out"
  shows "length out = n" "j < n \<Longrightarrow> distinct (out ! j)" "j < n \<Longrightarrow> i \<in> set (out ! j) \<Longrightarrow> j < i"
    "j < n \<Longrightarrow> i \<in> set (out ! j) \<Longrightarrow> i < n"
  using assms unfolding dag_def by blast+

definition pending :: "nat \<Rightarrow> nat list list \<Rightarrow> nat set \<Rightarrow> nat \<Rightarrow> nat set" where
  "pending n out P k = {j. j < n \<and> j \<notin> P \<and> k \<in> set (out ! j)}"

lemma finite_pending [simp]: "finite (pending n out P k)"
  by (rule finite_subset [of _ "{..<n}"]) (auto simp: pending_def)

lemma count_fold:
  "\<forall>j\<in>set js. j < length deg \<Longrightarrow>
   length (foldl (\<lambda>deg j. deg[j := deg ! j + 1]) deg js) = length deg \<and>
   (\<forall>k<length deg. foldl (\<lambda>deg j. deg[j := deg ! j + 1]) deg js ! k = deg ! k + count_list js k)"
  by (induction js arbitrary: deg) (auto simp: nth_list_update)

lemma indegrees_fold:
  "\<forall>js\<in>set out. \<forall>j\<in>set js. j < length deg \<Longrightarrow>
   length (foldl (\<lambda>deg js. foldl (\<lambda>deg j. deg[j := deg ! j + 1]) deg js) deg out) = length deg \<and>
   (\<forall>k<length deg. foldl (\<lambda>deg js. foldl (\<lambda>deg j. deg[j := deg ! j + 1]) deg js) deg out ! k =
     deg ! k + sum_list (map (\<lambda>js. count_list js k) out))"
proof (induction out arbitrary: deg)
  case (Cons js out)
  then show ?case using count_fold [of js deg] by auto
qed simp

lemma count_list_distinct: "distinct js \<Longrightarrow> count_list js k = (if k \<in> set js then 1 else 0)"
  by (induction js) auto

lemma indegrees_pending:
  assumes "dag n out"
  shows "length (indegrees n out) = n" and "k < n \<Longrightarrow> indegrees n out ! k = card (pending n out {} k)"
proof -
  have bound: "\<forall>js\<in>set out. \<forall>j\<in>set js. j < length (replicate n (0::nat))"
  proof (intro ballI)
    fix js j assume "js \<in> set out" "j \<in> set js"
    then obtain x where "x < length out" "js = out ! x" by (auto simp: in_set_conv_nth)
    with dagD(1) [OF assms] dagD(4) [OF assms, of x j] \<open>j \<in> set js\<close> show "j < length (replicate n (0::nat))" by simp
  qed
  from indegrees_fold [OF this] show "length (indegrees n out) = n" by (simp add: indegrees_def)
  assume "k < n"
  with indegrees_fold [OF bound] have "indegrees n out ! k = sum_list (map (\<lambda>js. count_list js k) out)"
    by (simp add: indegrees_def)
  also have "\<dots> = (\<Sum>j<n. count_list (out ! j) k)"
    using dagD(1) [OF assms] by (simp add: sum_list_sum_nth atLeast0LessThan)
  also have "\<dots> = (\<Sum>j<n. if k \<in> set (out ! j) then 1 else 0)"
    using dagD(2) [OF assms] by (intro sum.cong) (simp_all add: count_list_distinct)
  also have "\<dots> = card ({..<n} \<inter> {j. k \<in> set (out ! j)})"
    by (simp add: sum.If_cases)
  also have "{..<n} \<inter> {j. k \<in> set (out ! j)} = pending n out {} k"
    by (auto simp: pending_def)
  finally show "indegrees n out ! k = card (pending n out {} k)" .
qed

lemma release_fold:
  assumes "distinct js" and "\<forall>j\<in>set js. j < length deg"
  shows "length (fst (foldl release (deg, hp) js)) = length deg \<and>
    (\<forall>k<length deg. fst (foldl release (deg, hp) js) ! k = deg ! k - (if k \<in> set js then 1 else 0)) \<and>
    snd (foldl release (deg, hp) js) = hp @ List.filter (\<lambda>j. deg ! j - 1 = 0) js"
  using assms
proof (induction js arbitrary: deg hp)
  case (Cons a js)
  let ?deg = "deg[a := deg ! a - 1]"
  have same: "List.filter (\<lambda>j. ?deg ! j - 1 = 0) js = List.filter (\<lambda>j. deg ! j - 1 = 0) js"
    using Cons.prems by (intro filter_cong) (auto simp: nth_list_update)
  from Cons.IH [of ?deg "if deg ! a - 1 = 0 then hp @ [a] else hp"] Cons.prems same
  show ?case by (auto simp: release_def Let_def nth_list_update)
qed simp

lemma heap_min_in: "heap_min fs m is \<in> insert m (set is)"
  by (induction fs m "is" rule: heap_min.induct) auto

definition topo_inv :: "nat \<Rightarrow> nat list list \<Rightarrow> nat set \<Rightarrow> nat list \<Rightarrow> nat list \<Rightarrow> bool" where
  "topo_inv n out P deg heap \<longleftrightarrow>
    P \<subseteq> {..<n} \<and> length deg = n \<and> (\<forall>k\<in>P. pending n out P k = {}) \<and>
    (\<forall>k<n. k \<notin> P \<longrightarrow> deg ! k = card (pending n out P k)) \<and>
    distinct heap \<and> set heap = {k. k < n \<and> k \<notin> P \<and> pending n out P k = {}}"

lemma topo_invD:
  assumes "topo_inv n out P deg heap"
  shows "P \<subseteq> {..<n}" "length deg = n" "\<And>k. k \<in> P \<Longrightarrow> pending n out P k = {}"
    "\<And>k. k < n \<Longrightarrow> k \<notin> P \<Longrightarrow> deg ! k = card (pending n out P k)" "distinct heap"
    "\<And>k. k \<in> set heap \<longleftrightarrow> k < n \<and> k \<notin> P \<and> pending n out P k = {}"
  using assms unfolding topo_inv_def by blast+

lemma pending_insert: "pending n out (insert i P) k = pending n out P k - {i}"
  by (auto simp: pending_def)

lemma topo_inv_step:
  assumes dag: "dag n out" and inv: "topo_inv n out P deg heap" and i: "i \<in> set heap"
  shows "topo_inv n out (insert i P) (fst (foldl release (deg, remove1 i heap) (out ! i)))
    (snd (foldl release (deg, remove1 i heap) (out ! i)))"
proof -
  let ?js = "out ! i"
  note invD = topo_invD [OF inv]
  have i': "i < n" "i \<notin> P" "pending n out P i = {}" using invD(6) i by blast+
  have js: "distinct ?js" "\<forall>j\<in>set ?js. j < length deg" "\<forall>j\<in>set ?js. i < j \<and> j < n"
    using dagD(2-4) [OF dag i'(1)] invD(2) by blast+
  have inP: "i \<in> pending n out P k \<longleftrightarrow> k \<in> set ?js" for k using i' by (simp add: pending_def)
  have jP: "j \<notin> P" if "j \<in> set ?js" for j
    using invD(3) [of j] inP [of j] that by blast
  have card: "deg ! k - (if k \<in> set ?js then 1 else 0) = card (pending n out (insert i P) k)"
    if "k < n" "k \<notin> P" for k
    using invD(4) [OF that] inP [of k] by (simp add: pending_insert)
  note fold = release_fold [OF js(1,2), of "remove1 i heap"]
  have zero: "deg ! j - 1 = 0 \<longleftrightarrow> pending n out (insert i P) j = {}" if "j \<in> set ?js" for j
    using card [of j] jP [OF that] js(3) that by simp
  have "set (remove1 i heap) \<union> {j \<in> set ?js. deg ! j - 1 = 0} =
      {k. k < n \<and> k \<notin> insert i P \<and> pending n out (insert i P) k = {}}" (is "?L = ?R")
  proof (intro equalityI subsetI)
    fix k assume "k \<in> ?L"
    then show "k \<in> ?R"
    proof
      assume "k \<in> set (remove1 i heap)"
      with invD(5,6) show ?thesis by (simp add: set_remove1_eq pending_insert)
    next
      assume "k \<in> {j \<in> set ?js. deg ! j - 1 = 0}"
      with zero jP js(3) show ?thesis by blast
    qed
  next
    fix k assume k: "k \<in> ?R"
    show "k \<in> ?L"
    proof (cases "k \<in> set ?js")
      case True
      with k zero show ?thesis by simp
    next
      case False
      with k inP [of k] have "pending n out P k = {}" by (auto simp: pending_insert)
      with k invD(5,6) show ?thesis by (simp add: set_remove1_eq)
    qed
  qed
  moreover have "set (remove1 i heap) \<inter> set ?js = {}"
    using invD(5,6) inP by (auto simp: set_remove1_eq)
  moreover have "\<forall>k\<in>insert i P. pending n out (insert i P) k = {}"
    using invD(3) i' by (simp add: pending_insert)
  moreover have "distinct (remove1 i heap)" using invD(5) by simp
  ultimately show ?thesis
    using invD(1,2) i' fold card js(1) unfolding topo_inv_def by (simp add: Int_def) blast
qed

lemma topo_inv_done:
  assumes dag: "dag n out" and inv: "topo_inv n out P deg []"
  shows "P = {..<n}"
proof (rule ccontr)
  note invD = topo_invD [OF inv]
  assume "P \<noteq> {..<n}"
  with invD(1) have ne: "\<exists>k. k < n \<and> k \<notin> P" by blast
  let ?k = "LEAST k. k < n \<and> k \<notin> P"
  have k: "?k < n" "?k \<notin> P" using LeastI_ex [OF ne] by auto
  have "pending n out P ?k = {}"
  proof (rule ccontr)
    assume "pending n out P ?k \<noteq> {}"
    then obtain j where "j < n" "j \<notin> P" "?k \<in> set (out ! j)" by (auto simp: pending_def)
    with dagD(3) [OF dag] have "j < ?k" by blast
    with \<open>j < n\<close> \<open>j \<notin> P\<close> show False using not_less_Least [of j "\<lambda>k. k < n \<and> k \<notin> P"] by simp
  qed
  with invD(6) [of ?k] k show False by simp
qed

lemma topo_loop_spec:
  "dag n out \<Longrightarrow> topo_inv n out P deg heap \<Longrightarrow> n \<le> fuel + card P \<Longrightarrow>
    distinct (topo_loop fuel fs out deg heap) \<and>
    set (topo_loop fuel fs out deg heap) = {..<n} - P \<and>
    sorted_wrt (\<lambda>i j. i \<notin> set (out ! j)) (topo_loop fuel fs out deg heap)"
proof (induction fuel fs out deg heap arbitrary: P rule: topo_loop.induct)
  case (1 fs out deg heap)
  then have "P \<subseteq> {..<n}" "n \<le> card P" by (auto dest: topo_invD)
  then have "P = {..<n}" by (metis card_lessThan card_seteq finite_lessThan)
  then show ?case by simp
next
  case (2 fuel fs out deg heap)
  show ?case
  proof (cases heap)
    case Nil
    with 2(3) have "P = {..<n}" using topo_inv_done [OF 2(2), of P deg] by simp
    with Nil show ?thesis by simp
  next
    case (Cons m "is")
    let ?i = "heap_min fs m is"
    let ?st = "foldl release (deg, remove1 ?i heap) (out ! ?i)"
    have i: "?i \<in> set heap" using Cons heap_min_in [of fs m "is"] by simp
    have iP: "?i < n" "?i \<notin> P" "pending n out P ?i = {}" using topo_invD(6) [OF 2(3)] i by blast+
    note inv = topo_inv_step [OF 2(2) 2(3) i]
    have "finite P" using topo_invD(1) [OF 2(3)] by (rule finite_subset) simp
    with 2(4) iP have "n \<le> fuel + card (insert ?i P)" by simp
    from 2(1) [OF Cons refl refl 2(2) inv this] have
      IH: "distinct (topo_loop fuel fs out (fst ?st) (snd ?st))"
        "set (topo_loop fuel fs out (fst ?st) (snd ?st)) = {..<n} - insert ?i P"
        "sorted_wrt (\<lambda>i j. i \<notin> set (out ! j)) (topo_loop fuel fs out (fst ?st) (snd ?st))"
      by auto
    have "\<forall>j\<in>{..<n} - insert ?i P. ?i \<notin> set (out ! j)" using iP by (auto simp: pending_def)
    with IH Cons iP show ?thesis by (auto simp: Let_def)
  qed
qed


subsection \<open>The order of a composition\<close>

lemma dag_sort_edges: "dag (length fs) (sort_edges fs)"
  unfolding dag_def using sort_edges_iff [of _ fs] sort_edges_spec [of "length fs" fs]
  by (auto simp: sort_edges_def Let_def)

text \<open>
  C26. \<open>prefix_sort\<close> only reorders what may be reordered: its result is a permutation of the filters
  in which two filters whose source paths or destination paths overlap keep their order.
\<close>

theorem prefix_sort_stable:
  "\<exists>ord. distinct ord \<and> set ord = {..<length fs} \<and> prefix_sort fs = map ((!) fs) ord \<and>
     sorted_wrt (\<lambda>i j. \<not> (j < i \<and> overlaps (fs ! j) (fs ! i))) ord"
proof (cases "length fs \<le> 1")
  case True
  have "sorted_wrt (\<lambda>i j. \<not> (j < i \<and> overlaps (fs ! j) (fs ! i))) [0..<length fs]"
    by (rule sorted_wrt_mono_rel [OF _ sorted_wrt_upt]) auto
  with True show ?thesis
    by (intro exI [of _ "[0..<length fs]"]) (auto simp: prefix_sort_def map_nth)
next
  case False
  let ?n = "length fs" and ?out = "sort_edges fs"
  let ?deg = "indegrees ?n ?out"
  let ?heap = "List.filter (\<lambda>i. ?deg ! i = 0) [0..<?n]"
  let ?ord = "topo_loop ?n fs ?out ?deg ?heap"
  note dag = dag_sort_edges [of fs]
  have "topo_inv ?n ?out {} ?deg ?heap"
    unfolding topo_inv_def using indegrees_pending [OF dag] by auto
  then have ord: "distinct ?ord" "set ?ord = {..<?n}" "sorted_wrt (\<lambda>i j. i \<notin> set (?out ! j)) ?ord"
    using topo_loop_spec [OF dag, of "{}" ?deg ?heap ?n fs] by auto
  have "sorted_wrt (\<lambda>i j. \<not> (j < i \<and> overlaps (fs ! j) (fs ! i))) ?ord"
    by (rule sorted_wrt_mono_rel [OF _ ord(3)]) (use ord(2) sort_edges_iff(3) [of _ fs] in auto)
  with ord(1,2) False show ?thesis
    by (intro exI [of _ ?ord]) (simp add: prefix_sort_def topo_sort_with_tiebreak_def Let_def)
qed

end
