(* ===== verification/Optimizer.thy ===== *)
theory Optimizer
  imports Opt_Prefix_Sort
begin

text \<open>
  The optimizer of filters: \<^verbatim>\<open>flatten.rs\<close>, \<^verbatim>\<open>simplify.rs\<close>, \<^verbatim>\<open>step.rs\<close> and \<^verbatim>\<open>mod.rs\<close> of
  \<^verbatim>\<open>josh-filter/src/opt\<close>, and the builder methods of \<^verbatim>\<open>filter.rs\<close> that optimize.

  These functions call themselves on their own results, so they take fuel, and \<open>None\<close> stands for
  fuel that ran out. The memo tables are left out: the functions are modelled as what they compute.
  (The code shares one table between \<^verbatim>\<open>step\<close> and \<^verbatim>\<open>optimize\<close>, so a call may return the result of
  the other for the same filter.)
\<close>

subsection \<open>Shapes\<close>

fun prefix_arg :: "filt \<Rightarrow> path option" where
  "prefix_arg (Prefix p) = Some p"
| "prefix_arg _ = None"

fun subdir_arg :: "filt \<Rightarrow> path option" where
  "subdir_arg (Subdir p) = Some p"
| "subdir_arg _ = None"

definition splice :: "(filt \<Rightarrow> filt list option) \<Rightarrow> filt list \<Rightarrow> filt list" where
  "splice part fs = concat (map (\<lambda>f. case part f of Some gs \<Rightarrow> gs | None \<Rightarrow> [f]) fs)"

definition mapO :: "('a \<Rightarrow> 'b option) \<Rightarrow> 'a list \<Rightarrow> 'b list option" where
  "mapO f xs = those (map f xs)"

subsection \<open>Flattening\<close>

definition others_invertible :: "filt list \<Rightarrow> nat \<Rightarrow> bool" where
  "others_invertible fl i = list_all (\<lambda>j. j = i \<or> ok (invert (fl ! j))) [0..<length fl]"

fun distribute_loop :: "bool \<Rightarrow> filt list \<Rightarrow> nat \<Rightarrow> filt list \<Rightarrow> filt option" where
  "distribute_loop full fl i [] = None"
| "distribute_loop full fl i (f # fs) =
    (case compose_of f of
       None \<Rightarrow> distribute_loop full fl (Suc i) fs
     | Some cfs \<Rightarrow>
        if \<not> others_invertible fl i \<or> \<not> list_all distributes_over_compose (drop (i + 1) fl)
        then None
        else if \<not> full \<and> length fl > 1 \<and> i = length fl - 1
        then distribute_loop full fl (Suc i) fs
        else Some (Compose (map (\<lambda>cf. Chain (fl[i := cf])) cfs)))"

primrec flatten_impl :: "nat \<Rightarrow> bool \<Rightarrow> filt \<Rightarrow> filt option" where
  "flatten_impl 0 full f = None"
| "flatten_impl (Suc n) full f =
    (let again = (\<lambda>r. if r = f then Some r else flatten_impl n full r) in
     case f of
       Compose fs \<Rightarrow>
         Option.bind (mapO (flatten_impl n full) (splice compose_of fs)) (\<lambda>gs. again (Compose gs))
     | Chain fs \<Rightarrow>
         let fl = splice chain_of fs in
         (case distribute_loop full fl 0 fl of
            Some distributed \<Rightarrow> Some distributed
          | None \<Rightarrow> Option.bind (mapO (flatten_impl n full) fl) (\<lambda>gs. again (Chain gs)))
     | Subtract a b \<Rightarrow>
         Option.bind (flatten_impl n full a) (\<lambda>a'.
         Option.bind (flatten_impl n full b) (\<lambda>b'. again (Subtract a' b')))
     | Exclude b \<Rightarrow> Option.bind (flatten_impl n full b) (\<lambda>b'. again (Exclude b'))
     | Select b \<Rightarrow> Option.bind (flatten_impl n full b) (\<lambda>b'. again (Select b'))
     | Pin b \<Rightarrow> Option.bind (flatten_impl n full b) (\<lambda>b'. again (Pin b'))
     | Starlark p s \<Rightarrow> Option.bind (flatten_impl n full s) (\<lambda>s'. again (Starlark p s'))
     | TreeId p s \<Rightarrow> Option.bind (flatten_impl n full s) (\<lambda>s'. again (TreeId p s'))
     | _ \<Rightarrow> Some f)"

subsection \<open>Simplification\<close>

fun combine_adjacent :: "filt list \<Rightarrow> filt list" where
  "combine_adjacent (f # g # fs) =
    (case (prefix_arg f, prefix_arg g) of
       (Some x, Some y) \<Rightarrow> Prefix (path_join y x) # combine_adjacent fs
     | _ \<Rightarrow>
        (case (subdir_arg f, subdir_arg g) of
           (Some x, Some y) \<Rightarrow> Subdir (path_join x y) # combine_adjacent fs
         | _ \<Rightarrow> f # combine_adjacent (g # fs)))"
| "combine_adjacent fs = fs"

fun chain_or_single :: "filt list \<Rightarrow> filt" where
  "chain_or_single [f] = f"
| "chain_or_single fs = Chain fs"

primrec simplify :: "nat \<Rightarrow> filt \<Rightarrow> filt option" where
  "simplify 0 f = None"
| "simplify (Suc n) f =
    (let again = (\<lambda>r. if r = f then Some r else simplify n r) in
     case f of
       Compose fs \<Rightarrow>
         Option.bind (mapO (simplify n) (splice compose_of fs)) (\<lambda>gs. again (Compose gs))
     | Chain fs \<Rightarrow>
         Option.bind (mapO (simplify n) (splice chain_of fs)) (\<lambda>gs.
           again (chain_or_single (combine_adjacent gs)))
     | Subtract a b \<Rightarrow>
         Option.bind (simplify n a) (\<lambda>a'.
         Option.bind (simplify n b) (\<lambda>b'. again (Subtract a' b')))
     | Exclude b \<Rightarrow> Option.bind (simplify n b) (\<lambda>b'. again (Exclude b'))
     | Select b \<Rightarrow> Option.bind (simplify n b) (\<lambda>b'. again (Select b'))
     | Pin b \<Rightarrow> Option.bind (simplify n b) (\<lambda>b'. again (Pin b'))
     | Starlark p s \<Rightarrow> Option.bind (simplify n s) (\<lambda>s'. again (Starlark p s'))
     | TreeId p s \<Rightarrow> Option.bind (simplify n s) (\<lambda>s'. again (TreeId p s'))
     | _ \<Rightarrow> Some f)"

subsection \<open>One step\<close>

definition is_prefix :: "filt \<Rightarrow> bool" where
  "is_prefix f \<longleftrightarrow> prefix_arg f \<noteq> None"

definition prefix_of :: "filt \<Rightarrow> filt" where
  "prefix_of f = (let l = snd (last_chain Nop f) in if is_prefix l then l else Nop)"

fun is_message :: "filt \<Rightarrow> bool" where
  "is_message (Message m r) = True"
| "is_message _ = False"

fun select_arg :: "filt \<Rightarrow> filt option" where
  "select_arg (Select f) = Some f"
| "select_arg _ = None"

fun exclude_arg :: "filt \<Rightarrow> filt option" where
  "exclude_arg (Exclude f) = Some f"
| "exclude_arg _ = None"

definition step_path :: "(path \<Rightarrow> filt) \<Rightarrow> (component list \<Rightarrow> component list) \<Rightarrow> path \<Rightarrow> filt" where
  "step_path op ord p =
    (if p = [] then Nop
     else if length p > 1 then Chain (map (\<lambda>c. op [c]) (ord p))
     else op p)"

definition step_insert :: "path \<Rightarrow> insert_content \<Rightarrow> filt" where
  "step_insert p content =
    (if length p > 1
     then (case (path_parent p, path_file_name p) of
             (Some parent, Some name) \<Rightarrow> Chain [Insert [Normal name] content, Prefix parent]
           | _ \<Rightarrow> Insert p content)
     else Insert p content)"

definition step_file :: "path \<Rightarrow> path \<Rightarrow> filt" where
  "step_file dst src =
    (if length src > 1 \<or> length dst > 1
     then (case (path_parent src, path_file_name src, path_parent dst, path_file_name dst) of
             (Some src_parent, Some src_name, Some dst_parent, Some dst_name) \<Rightarrow>
               Chain [Subdir src_parent, File [Normal dst_name] [Normal src_name], Prefix dst_parent]
           | _ \<Rightarrow> File dst src)
     else File dst src)"

text \<open>
  The cancellation of adjacent \<^verbatim>\<open>:prefix\<close> and \<^verbatim>\<open>:/\<close>; \<open>None\<close> is the early return of \<open>Empty\<close>.
\<close>

fun cancel_pairs :: "filt list \<Rightarrow> filt list option" where
  "cancel_pairs (f # g # fs) =
    (case (prefix_arg f, subdir_arg g) of
       (Some a, Some b) \<Rightarrow>
         if a = b then cancel_pairs fs
         else if length a = length b \<and> \<not> list_ex resurrects_from_empty fs then None
         else map_option (Cons f) (cancel_pairs (g # fs))
     | _ \<Rightarrow> map_option (Cons f) (cancel_pairs (g # fs)))"
| "cancel_pairs fs = Some fs"

definition empty_inside :: "filt list \<Rightarrow> bool" where
  "empty_inside fl =
    (case position (\<lambda>f. f = Empty) fl of
       None \<Rightarrow> False
     | Some pos \<Rightarrow> \<not> list_ex resurrects_from_empty (drop (pos + 1) fl))"

fun chain_result :: "filt list \<Rightarrow> filt" where
  "chain_result [] = Nop"
| "chain_result [f] = f"
| "chain_result fs = Chain fs"

definition step_chain :: "(filt \<Rightarrow> filt option) \<Rightarrow> filt list \<Rightarrow> filt option" where
  "step_chain st fs =
    Option.bind (mapO st fs) (\<lambda>gs.
      let fl = List.filter (\<lambda>f. f \<noteq> Nop) (splice chain_of gs) in
      if fl = [] then Some Nop
      else if empty_inside fl then Some Empty
      else case cancel_pairs fl of
        None \<Rightarrow> Some Empty
      | Some kept \<Rightarrow> map_option chain_result (mapO st kept))"

definition step_compose :: "(filt \<Rightarrow> filt option) \<Rightarrow> filt list \<Rightarrow> filt option" where
  "step_compose st fs =
    (if fs = [] then Some Empty
     else if length fs = 1 then Some (hd fs)
     else
       let fs = List.filter (\<lambda>x. x \<noteq> Empty) (remdups_adj fs);
           grouped = group fs
       in case common_pre fs of
         Some (common, rest) \<Rightarrow> Some (Chain [common, Compose rest])
       | None \<Rightarrow>
          (case common_post fs of
             Some (common, rest) \<Rightarrow> Some (Chain [Compose rest, common])
           | None \<Rightarrow>
              if length grouped \<noteq> 1 \<and> length grouped \<noteq> length fs
              then Some (Compose (map Compose grouped))
              else map_option Compose (mapO st (prefix_sort fs))))"

definition heads_equal :: "filt \<Rightarrow> filt \<Rightarrow> bool" where
  "heads_equal a b =
    (case (chain_of a, chain_of b) of
       (Some (x # _), Some (y # _)) \<Rightarrow> x = y
     | _ \<Rightarrow> False)"

definition contains_filter :: "filt list option \<Rightarrow> filt \<Rightarrow> bool" where
  "contains_filter fso f = (case fso of Some fs \<Rightarrow> f \<in> set fs | None \<Rightarrow> False)"

definition step_subtract_rest :: "(filt \<Rightarrow> filt option) \<Rightarrow> filt \<Rightarrow> filt \<Rightarrow> filt option" where
  "step_subtract_rest st af bf =
    (if contains_filter (compose_of af) bf
     then st (Compose (List.filter (\<lambda>x. x \<noteq> bf) (the (compose_of af))))
     else if contains_filter (compose_of bf) af then st Empty
     else case (compose_of af, compose_of bf) of
       (Some av, Some bv) \<Rightarrow>
         Option.bind (st (Compose (List.filter (\<lambda>x. x \<notin> set bv) av))) (\<lambda>a'.
         Option.bind (st (Compose (List.filter (\<lambda>x. x \<notin> set av) bv))) (\<lambda>b'.
           Some (Subtract a' b')))
     | _ \<Rightarrow> Option.bind (st af) (\<lambda>a'. Option.bind (st bf) (\<lambda>b'. Some (Subtract a' b'))))"

definition step_subtract :: "(filt \<Rightarrow> filt option) \<Rightarrow> filt \<Rightarrow> filt \<Rightarrow> filt option" where
  "step_subtract st af bf =
    (if af = bf then Some Empty
     else if af = Empty then Some Empty
     else if is_message af \<and> is_message bf then Some Empty
     else if bf = Nop then Some Empty
     else if bf = Empty then Some af
     else if select_arg af \<noteq> None \<and> select_arg af = exclude_arg bf then Some af
     else if heads_equal af bf
     then Some (Chain [hd (the (chain_of af)),
            Subtract (Chain (tl (the (chain_of af)))) (Chain (tl (the (chain_of bf))))])
     else if prefix_of bf \<noteq> Nop then Some (Subtract af (fst (last_chain Nop bf)))
     else if prefix_of af \<noteq> Nop
     then Some (Chain [Subtract (fst (last_chain Nop af)) bf, prefix_of af])
     else if is_prefix bf then Some (Subtract af Nop)
     else case common_post [af, bf] of
       Some (cp, rest) \<Rightarrow>
         if cp \<noteq> Nop then Some (Chain [Subtract (rest ! 0) (rest ! 1), cp])
         else step_subtract_rest st af bf
     | None \<Rightarrow> step_subtract_rest st af bf)"


primrec step :: "nat \<Rightarrow> filt \<Rightarrow> filt option" where
  "step 0 f = None"
| "step (Suc n) f =
    (case f of
       Subdir p \<Rightarrow> Some (step_path Subdir (\<lambda>cs. cs) p)
     | Prefix p \<Rightarrow> Some (step_path Prefix rev p)
     | Insert p content \<Rightarrow> Some (step_insert p content)
     | File dst src \<Rightarrow> Some (step_file dst src)
     | Rev arms \<Rightarrow>
         map_option Rev (mapO (\<lambda>arm.
           map_option (\<lambda>g. (fst arm, fst (snd arm), g)) (step n (snd (snd arm)))) arms)
     | Compose fs \<Rightarrow> step_compose (step n) fs
     | Chain fs \<Rightarrow> step_chain (step n) fs
     | Exclude b \<Rightarrow>
         if b = Nop then Some Empty else if b = Empty then Some Nop
         else map_option Exclude (step n b)
     | Select b \<Rightarrow>
         if b = Empty then Some Empty else if b = Nop then Some Nop
         else map_option Select (step n b)
     | Pin b \<Rightarrow> if b = Empty then Some Nop else map_option Pin (step n b)
     | Starlark p s \<Rightarrow> map_option (Starlark p) (step n s)
     | TreeId p s \<Rightarrow> map_option (TreeId p) (step n s)
     | Subtract a b \<Rightarrow> step_subtract (step n) a b
     | _ \<Rightarrow> Some f)"

subsection \<open>The loop\<close>

primrec iterate_loop :: "nat \<Rightarrow> nat \<Rightarrow> filt \<Rightarrow> filt option" where
  "iterate_loop 0 n f = Some f"
| "iterate_loop (Suc k) n f =
    Option.bind (step n f) (\<lambda>g. if f = g then Some f else iterate_loop k n g)"

definition iterate :: "nat \<Rightarrow> filt \<Rightarrow> filt option" where
  "iterate n f = iterate_loop 1000 n f"

primrec optimize_loop :: "nat \<Rightarrow> nat \<Rightarrow> filt \<Rightarrow> filt option" where
  "optimize_loop 0 n f = None"
| "optimize_loop (Suc k) n f =
    Option.bind (simplify n f) (\<lambda>pretty.
    Option.bind (iterate n f) (\<lambda>optimized.
    Option.bind (simplify n optimized) (\<lambda>f'.
      if f' = pretty then iterate n f' else optimize_loop k n f')))"

definition optimize_impl :: "nat \<Rightarrow> filt \<Rightarrow> bool \<Rightarrow> filt option" where
  "optimize_impl n f minimize = Option.bind (flatten_impl n minimize f) (optimize_loop n n)"

definition optimize :: "nat \<Rightarrow> filt \<Rightarrow> filt option" where
  "optimize n f = optimize_impl n f False"

definition minimize :: "nat \<Rightarrow> filt \<Rightarrow> filt option" where
  "minimize n f = optimize_impl n f True"

subsection \<open>Builders that optimize\<close>

definition chain_with :: "nat \<Rightarrow> filt \<Rightarrow> filt \<Rightarrow> filt option" where
  "chain_with n f g = optimize n (Chain [f, g])"

definition compose_filters :: "nat \<Rightarrow> filt list \<Rightarrow> filt option" where
  "compose_filters n fs = optimize n (Compose fs)"

definition file_filter :: "nat \<Rightarrow> filt \<Rightarrow> path \<Rightarrow> filt option" where
  "file_filter n f p = chain_with n f (File p p)"

end
