(* ===== verification/Glob.thy ===== *)
theory Glob
  imports Prelude
begin

text \<open>
  The glob matcher \<^verbatim>\<open>vendor/rust-lang/glob/src/lib.rs\<close>: compiling a pattern into tokens
  (\<open>pattern_new\<close>) and the backtracking matcher (\<open>matches_from\<close>), for a target where only the
  slash is a separator. A Rust \<^verbatim>\<open>char\<close> is its code point, an \<open>int\<close>; \<open>str_chars\<close>
  is \<^verbatim>\<open>str::chars\<close>.

  \<open>glob_spec\<close> is the meaning of a token list without backtracking or early exits; the matcher is
  shown to compute it, for every combination of options, on all patterns the compiler produces.
\<close>

subsection \<open>Characters of a string\<close>

definition int_byte :: "char \<Rightarrow> int" where
  "int_byte c = of_char c"

fun str_chars :: "string \<Rightarrow> int list" where
  "str_chars (a # s) =
    (let x = int_byte a in
     if x < 128 then x # str_chars s
     else case s of
       b # s2 \<Rightarrow>
         if x < 224 then ((x - 192) * 64 + (int_byte b - 128)) # str_chars s2
         else (case s2 of
           c # s3 \<Rightarrow>
             if x < 240
             then ((x - 224) * 4096 + (int_byte b - 128) * 64 + (int_byte c - 128)) # str_chars s3
             else (case s3 of
               d # s4 \<Rightarrow>
                 ((x - 240) * 262144 + (int_byte b - 128) * 4096 + (int_byte c - 128) * 64 +
                   (int_byte d - 128)) # str_chars s4
             | [] \<Rightarrow> [])
         | [] \<Rightarrow> [])
     | [] \<Rightarrow> [])"
| "str_chars [] = []"

definition is_separator :: "int \<Rightarrow> bool" where
  "is_separator c \<longleftrightarrow> c = 47"

definition is_ascii :: "int \<Rightarrow> bool" where
  "is_ascii c \<longleftrightarrow> c < 128"

definition to_ascii_lowercase :: "int \<Rightarrow> int" where
  "to_ascii_lowercase c = (if 65 \<le> c \<and> c \<le> 90 then c + 32 else c)"

definition to_ascii_uppercase :: "int \<Rightarrow> int" where
  "to_ascii_uppercase c = (if 97 \<le> c \<and> c \<le> 122 then c - 32 else c)"

subsection \<open>Patterns\<close>

datatype char_specifier = SingleChar int | CharRange int int

datatype pattern_token =
    TChar int
  | AnyChar
  | AnySequence
  | AnyRecursiveSequence
  | AnyWithin "char_specifier list"
  | AnyExcept "char_specifier list"

record glob_pattern =
  original :: string
  tokens :: "pattern_token list"
  is_recursive :: bool
  has_metachars :: bool

record match_options =
  case_sensitive :: bool
  require_literal_separator :: bool
  require_literal_leading_dot :: bool

text \<open>The options under which the filters match patterns.\<close>

definition pattern_match_options :: match_options where
  "pattern_match_options = \<lparr> case_sensitive = True, require_literal_separator = True,
     require_literal_leading_dot = True \<rparr>"

datatype match_result = Match | SubPatternDoesntMatch | EntirePatternDoesntMatch

fun parse_char_specifiers :: "int list \<Rightarrow> char_specifier list" where
  "parse_char_specifiers (a # b # c # s) =
    (if b = 45 then CharRange a c # parse_char_specifiers s
     else SingleChar a # parse_char_specifiers (b # c # s))"
| "parse_char_specifiers (a # s) = SingleChar a # parse_char_specifiers s"
| "parse_char_specifiers [] = []"

lemma star_step:
  assumes "i < length chars" and "chars ! i = (42 :: int)"
  shows "length chars - (i + length (takeWhile (\<lambda>c. c = 42) (drop i chars))) < length chars - i"
proof -
  have "0 < length (takeWhile (\<lambda>c. c = 42) (drop i chars))"
    using assms by (simp add: Cons_nth_drop_Suc [symmetric])
  with assms(1) show ?thesis by linarith
qed

text \<open>
  The loop of \<^verbatim>\<open>Pattern::new\<close> at index \<open>i\<close> of the characters; 63, 42, 91, 93 and 33 are the
  code points of the question mark, the star, the brackets and the exclamation mark.
\<close>

function pattern_loop :: "int list \<Rightarrow> nat \<Rightarrow> pattern_token list \<Rightarrow> bool \<Rightarrow> bool \<Rightarrow>
  (pattern_token list \<times> bool \<times> bool) result" where
  "pattern_loop chars i toks rec meta =
    (if i < length chars then
       (if chars ! i = 63 then pattern_loop chars (i + 1) (toks @ [AnyChar]) rec True
        else if chars ! i = 42 then
          (let count = length (takeWhile (\<lambda>c. c = 42) (drop i chars)); j = i + count in
           if 2 < count then Inl InvalidGlob
           else if count = 2 then
             (if j = 2 \<or> is_separator (chars ! (j - count - 1)) then
                (if j < length chars \<and> is_separator (chars ! j) then
                   (if \<not> (1 < length toks \<and> last toks = AnyRecursiveSequence)
                    then pattern_loop chars (j + 1) (toks @ [AnyRecursiveSequence]) True True
                    else pattern_loop chars (j + 1) toks rec True)
                 else if j = length chars then
                   (if \<not> (1 < length toks \<and> last toks = AnyRecursiveSequence)
                    then pattern_loop chars j (toks @ [AnyRecursiveSequence]) True True
                    else pattern_loop chars j toks rec True)
                 else Inl InvalidGlob)
              else Inl InvalidGlob)
           else pattern_loop chars j (toks @ [AnySequence]) rec True)
        else if chars ! i = 91 then
          (if i + 4 \<le> length chars \<and> chars ! (i + 1) = 33 then
             (case position (\<lambda>x. x = 93) (drop (i + 3) chars) of
                None \<Rightarrow> Inl InvalidGlob
              | Some j \<Rightarrow>
                  pattern_loop chars (i + j + 4)
                    (toks @ [AnyExcept (parse_char_specifiers (take (j + 1) (drop (i + 2) chars)))])
                    rec True)
           else if i + 3 \<le> length chars \<and> chars ! (i + 1) \<noteq> 33 then
             (case position (\<lambda>x. x = 93) (drop (i + 2) chars) of
                None \<Rightarrow> Inl InvalidGlob
              | Some j \<Rightarrow>
                  pattern_loop chars (i + j + 3)
                    (toks @ [AnyWithin (parse_char_specifiers (take (j + 1) (drop (i + 1) chars)))])
                    rec True)
           else Inl InvalidGlob)
        else pattern_loop chars (i + 1) (toks @ [TChar (chars ! i)]) rec meta)
     else Inr (toks, rec, meta))"
  by pat_completeness auto

termination
  by (relation "measure (\<lambda>(chars, i, toks, rec, meta). length chars - i)")
    (auto intro: star_step)

declare pattern_loop.simps [simp del]

definition pattern_new :: "string \<Rightarrow> glob_pattern result" where
  "pattern_new pattern =
    bindR (pattern_loop (str_chars pattern) 0 [] False False) (\<lambda>(toks, rec, meta).
      Inr \<lparr> original = pattern, tokens = toks, is_recursive = rec, has_metachars = meta \<rparr>)"

fun is_TChar :: "pattern_token \<Rightarrow> bool" where
  "is_TChar (TChar _) = True"
| "is_TChar _ = False"

definition from_tokens :: "pattern_token list \<Rightarrow> glob_pattern" where
  "from_tokens toks = \<lparr> original = [], tokens = toks,
     is_recursive = (AnyRecursiveSequence \<in> set toks),
     has_metachars = list_ex (\<lambda>t. \<not> is_TChar t) toks \<rparr>"

subsection \<open>The matcher\<close>

definition chars_eq :: "int \<Rightarrow> int \<Rightarrow> bool \<Rightarrow> bool" where
  "chars_eq a b cs =
    (if \<not> cs \<and> is_ascii a \<and> is_ascii b then to_ascii_lowercase a = to_ascii_lowercase b else a = b)"

fun in_char_specifiers :: "char_specifier list \<Rightarrow> int \<Rightarrow> match_options \<Rightarrow> bool" where
  "in_char_specifiers [] c opts = False"
| "in_char_specifiers (SingleChar sc # specs) c opts =
    (chars_eq c sc (case_sensitive opts) \<or> in_char_specifiers specs c opts)"
| "in_char_specifiers (CharRange a b # specs) c opts =
    ((\<not> case_sensitive opts \<and> is_ascii c \<and> is_ascii a \<and> is_ascii b \<and>
      (let a' = to_ascii_lowercase a; b' = to_ascii_lowercase b in
       a' \<noteq> to_ascii_uppercase a' \<and> b' \<noteq> to_ascii_uppercase b' \<and>
       a' \<le> to_ascii_lowercase c \<and> to_ascii_lowercase c \<le> b')) \<or>
     (a \<le> c \<and> c \<le> b) \<or> in_char_specifiers specs c opts)"

definition hidden_dot :: "match_options \<Rightarrow> bool \<Rightarrow> int \<Rightarrow> bool" where
  "hidden_dot opts fs c \<longleftrightarrow> fs \<and> require_literal_leading_dot opts \<and> c = 46"

fun token_matches :: "match_options \<Rightarrow> bool \<Rightarrow> pattern_token \<Rightarrow> int \<Rightarrow> bool" where
  "token_matches opts fs (TChar c2) c = chars_eq c c2 (case_sensitive opts)"
| "token_matches opts fs tok c =
    (if (require_literal_separator opts \<and> is_separator c) \<or> hidden_dot opts fs c then False
     else case tok of
       AnyWithin specs \<Rightarrow> in_char_specifiers specs c opts
     | AnyExcept specs \<Rightarrow> \<not> in_char_specifiers specs c opts
     | _ \<Rightarrow> True)"

function matches_from :: "match_options \<Rightarrow> bool \<Rightarrow> pattern_token list \<Rightarrow> int list \<Rightarrow> match_result"
  and matches_seq :: "match_options \<Rightarrow> bool \<Rightarrow> bool \<Rightarrow> pattern_token list \<Rightarrow> int list \<Rightarrow> match_result"
where
  "matches_from opts fs [] file = (if file = [] then Match else SubPatternDoesntMatch)"
| "matches_from opts fs (tok # toks) file =
    (if tok = AnySequence \<or> tok = AnyRecursiveSequence then
       (if matches_from opts fs toks file \<noteq> SubPatternDoesntMatch
        then matches_from opts fs toks file
        else matches_seq opts (tok = AnyRecursiveSequence) fs toks file)
     else case file of
       [] \<Rightarrow> EntirePatternDoesntMatch
     | c # file \<Rightarrow>
        if \<not> token_matches opts fs tok c then SubPatternDoesntMatch
        else matches_from opts (is_separator c) toks file)"
| "matches_seq opts rec fs toks [] = matches_from opts fs toks []"
| "matches_seq opts rec fs toks (c # file) =
    (if hidden_dot opts fs c then SubPatternDoesntMatch
     else if rec \<and> \<not> is_separator c then matches_seq opts rec (is_separator c) toks file
     else if \<not> rec \<and> require_literal_separator opts \<and> is_separator c then SubPatternDoesntMatch
     else if matches_from opts (is_separator c) toks file \<noteq> SubPatternDoesntMatch
     then matches_from opts (is_separator c) toks file
     else matches_seq opts rec (is_separator c) toks file)"
  by pat_completeness auto
termination
  by (relation "measures [\<lambda>x. case x of Inl (_, _, toks, _) \<Rightarrow> length toks
                          | Inr (_, _, _, toks, _) \<Rightarrow> length toks,
                        \<lambda>x. case x of Inl (_, _, _, file) \<Rightarrow> length file
                          | Inr (_, _, _, _, file) \<Rightarrow> length file,
                        \<lambda>x. case x of Inl _ \<Rightarrow> 0 | Inr _ \<Rightarrow> 1]") auto

definition matches_with :: "glob_pattern \<Rightarrow> string \<Rightarrow> match_options \<Rightarrow> bool" where
  "matches_with g s opts \<longleftrightarrow> matches_from opts True (tokens g) (str_chars s) = Match"

subsection \<open>Meaning of a token list\<close>

text \<open>
  \<open>dots_ok\<close>: no component of the consumed text starts with a dot that has to be matched
  literally. \<open>after\<close> is whether the rest follows a separator.
\<close>

fun dots_ok :: "match_options \<Rightarrow> bool \<Rightarrow> int list \<Rightarrow> bool" where
  "dots_ok opts fs [] = True"
| "dots_ok opts fs (c # u) = (\<not> hidden_dot opts fs c \<and> dots_ok opts (is_separator c) u)"

definition after :: "bool \<Rightarrow> int list \<Rightarrow> bool" where
  "after fs u = (if u = [] then fs else is_separator (last u))"

definition seq_ok :: "match_options \<Rightarrow> bool \<Rightarrow> int list \<Rightarrow> bool" where
  "seq_ok opts fs u \<longleftrightarrow>
     dots_ok opts fs u \<and> (require_literal_separator opts \<longrightarrow> list_all (\<lambda>c. \<not> is_separator c) u)"

fun glob_spec :: "match_options \<Rightarrow> bool \<Rightarrow> pattern_token list \<Rightarrow> int list \<Rightarrow> bool" where
  "glob_spec opts fs [] s = (s = [])"
| "glob_spec opts fs (AnySequence # toks) s =
    (\<exists>n\<in>{..length s}. seq_ok opts fs (take n s) \<and>
       glob_spec opts (after fs (take n s)) toks (drop n s))"
| "glob_spec opts fs (AnyRecursiveSequence # toks) s =
    (\<exists>n\<in>{..length s}. dots_ok opts fs (take n s) \<and>
       (n = 0 \<or> n = length s \<or> is_separator (s ! (n - 1))) \<and>
       glob_spec opts (after fs (take n s)) toks (drop n s))"
| "glob_spec opts fs (tok # toks) s =
    (case s of [] \<Rightarrow> False
     | c # s \<Rightarrow> token_matches opts fs tok c \<and> glob_spec opts (is_separator c) toks s)"

subsection \<open>Well-formed token lists\<close>

text \<open>
  A recursive wildcard stands at the start of a pattern, after a separator or after another
  recursive wildcard: the flag says whether one may come next.
\<close>

fun wf_tokens :: "bool \<Rightarrow> pattern_token list \<Rightarrow> bool" where
  "wf_tokens b [] = True"
| "wf_tokens b (tok # toks) =
    ((tok = AnyRecursiveSequence \<longrightarrow> b) \<and>
     wf_tokens (tok = AnyRecursiveSequence \<or> tok = TChar 47) toks)"

lemma wf_tokens_mono: "wf_tokens b toks \<Longrightarrow> (b \<Longrightarrow> b') \<Longrightarrow> wf_tokens b' toks"
  by (cases toks) auto

lemma wf_tokens_append:
  "wf_tokens b (toks @ [tok]) \<longleftrightarrow> wf_tokens b toks \<and>
    (tok = AnyRecursiveSequence \<longrightarrow>
      (if toks = [] then b else last toks = AnyRecursiveSequence \<or> last toks = TChar 47))"
  by (induction toks arbitrary: b) auto

subsection \<open>The meaning, unfolded along the text\<close>

abbreviation single :: "pattern_token \<Rightarrow> bool" where
  "single tok \<equiv> tok \<noteq> AnySequence \<and> tok \<noteq> AnyRecursiveSequence"

lemma glob_spec_single:
  "single tok \<Longrightarrow> glob_spec opts fs (tok # toks) s =
    (case s of [] \<Rightarrow> False
     | c # s \<Rightarrow> token_matches opts fs tok c \<and> glob_spec opts (is_separator c) toks s)"
  by (cases tok) auto

text \<open>The wildcards, one character at a time; \<open>rec\<close> is the recursive one.\<close>

fun wild_spec :: "match_options \<Rightarrow> bool \<Rightarrow> bool \<Rightarrow> pattern_token list \<Rightarrow> int list \<Rightarrow> bool" where
  "wild_spec opts rec fs toks [] = False"
| "wild_spec opts rec fs toks (c # s) =
    (\<not> hidden_dot opts fs c \<and>
     (\<not> rec \<longrightarrow> require_literal_separator opts \<longrightarrow> \<not> is_separator c) \<and>
     ((rec \<longrightarrow> is_separator c \<or> s = []) \<and> glob_spec opts (is_separator c) toks s \<or>
      wild_spec opts rec (is_separator c) toks s))"

definition wild :: "bool \<Rightarrow> pattern_token" where
  "wild rec = (if rec then AnyRecursiveSequence else AnySequence)"

lemma ex_nat_0: "(\<exists>n. P n) \<longleftrightarrow> P 0 \<or> (\<exists>n. P (Suc n))"
  by (metis not0_implies_Suc)

lemma ex_pos: "(\<exists>n. 0 < n \<and> P n) \<longleftrightarrow> (\<exists>n. P (Suc n))"
  by (metis gr0_conv_Suc)

definition wild_ok :: "match_options \<Rightarrow> bool \<Rightarrow> bool \<Rightarrow> int list \<Rightarrow> nat \<Rightarrow> bool" where
  "wild_ok opts rec fs s n \<longleftrightarrow>
     (if rec then dots_ok opts fs (take n s) \<and> (n = 0 \<or> n = length s \<or> is_separator (s ! (n - 1)))
      else seq_ok opts fs (take n s))"

lemma glob_spec_wild_ok:
  "glob_spec opts fs (wild rec # toks) s =
    (\<exists>n\<in>{..length s}. wild_ok opts rec fs s n \<and>
       glob_spec opts (after fs (take n s)) toks (drop n s))"
  by (auto simp: wild_def wild_ok_def)

lemma wild_ok_0: "wild_ok opts rec fs s 0"
  by (simp add: wild_ok_def seq_ok_def)

lemma wild_ok_Suc:
  "n \<le> length s \<Longrightarrow> wild_ok opts rec fs (c # s) (Suc n) \<longleftrightarrow>
    \<not> hidden_dot opts fs c \<and> (\<not> rec \<longrightarrow> require_literal_separator opts \<longrightarrow> \<not> is_separator c) \<and>
    (if n = 0 then rec \<longrightarrow> is_separator c \<or> s = [] else wild_ok opts rec (is_separator c) s n)"
  by (cases n) (auto simp: wild_ok_def seq_ok_def)

lemma after_Suc: "after fs (take (Suc n) (c # s)) = after (is_separator c) (take n s)"
  by (auto simp: after_def)

lemma wild_spec_iff:
  "wild_spec opts rec fs toks s \<longleftrightarrow>
    (\<exists>n. 0 < n \<and> n \<le> length s \<and> wild_ok opts rec fs s n \<and>
       glob_spec opts (after fs (take n s)) toks (drop n s))"
proof (induction s arbitrary: fs)
  case (Cons c s)
  let ?ok = "\<not> hidden_dot opts fs c \<and> (\<not> rec \<longrightarrow> require_literal_separator opts \<longrightarrow> \<not> is_separator c)"
  let ?Q = "\<lambda>n. glob_spec opts (after (is_separator c) (take n s)) toks (drop n s)"
  have "(\<exists>n. 0 < n \<and> n \<le> length (c # s) \<and> wild_ok opts rec fs (c # s) n \<and>
        glob_spec opts (after fs (take n (c # s))) toks (drop n (c # s))) \<longleftrightarrow>
      (\<exists>n. n \<le> length s \<and> wild_ok opts rec fs (c # s) (Suc n) \<and> ?Q n)"
    by (simp only: ex_pos after_Suc drop_Suc_Cons list.size add_Suc_right add_0_right Suc_le_mono)
  also have "\<dots> \<longleftrightarrow> ?ok \<and> ((rec \<longrightarrow> is_separator c \<or> s = []) \<and> ?Q 0 \<or>
      (\<exists>n. 0 < n \<and> n \<le> length s \<and> wild_ok opts rec (is_separator c) s n \<and> ?Q n))"
    by (subst ex_nat_0) (auto simp: wild_ok_Suc gr0_conv_Suc)
  also have "\<dots> \<longleftrightarrow> wild_spec opts rec fs toks (c # s)"
    by (simp add: Cons.IH after_def)
  finally show ?case by simp
qed simp

lemma glob_spec_wild:
  "glob_spec opts fs (wild rec # toks) s \<longleftrightarrow>
    glob_spec opts fs toks s \<or> wild_spec opts rec fs toks s"
  unfolding glob_spec_wild_ok wild_spec_iff Bex_def atMost_iff
  by (subst ex_nat_0) (auto simp: wild_ok_0 after_def gr0_conv_Suc)

subsection \<open>The backtracking matcher computes the meaning\<close>

definition has_single :: "pattern_token list \<Rightarrow> bool" where
  "has_single toks = list_ex single toks"

definition rec_head :: "pattern_token list \<Rightarrow> bool" where
  "rec_head toks \<longleftrightarrow> toks \<noteq> [] \<and> hd toks = AnyRecursiveSequence"

text \<open>
  What a match that ran out of text has shown: no later position of the text matches either
  (\<open>no_suffix\<close>); \<open>tried\<close> is the same about the positions a wildcard can continue at.
\<close>

definition no_suffix :: "match_options \<Rightarrow> pattern_token list \<Rightarrow> int list \<Rightarrow> bool" where
  "no_suffix opts toks s \<longleftrightarrow> (\<forall>u v. s = u @ v \<longrightarrow> u \<noteq> [] \<longrightarrow>
     (rec_head toks \<longrightarrow> is_separator (last u)) \<longrightarrow> \<not> glob_spec opts (is_separator (last u)) toks v)"

definition tried :: "match_options \<Rightarrow> bool \<Rightarrow> pattern_token list \<Rightarrow> int list \<Rightarrow> bool" where
  "tried opts rec toks s \<longleftrightarrow> (\<forall>u v. s = u @ v \<longrightarrow> u \<noteq> [] \<longrightarrow>
     (rec \<longrightarrow> is_separator (last u) \<or> v = []) \<longrightarrow> \<not> glob_spec opts (is_separator (last u)) toks v)"

lemma glob_spec_wild_cases:
  "glob_spec opts fs (AnySequence # toks) s \<longleftrightarrow>
    glob_spec opts fs toks s \<or> wild_spec opts False fs toks s"
  "glob_spec opts fs (AnyRecursiveSequence # toks) s \<longleftrightarrow>
    glob_spec opts fs toks s \<or> wild_spec opts True fs toks s"
  using glob_spec_wild [of opts fs False toks s] glob_spec_wild [of opts fs True toks s]
  by (simp_all add: wild_def)

lemma has_single_empty: "has_single toks \<Longrightarrow> \<not> glob_spec opts fs toks []"
proof (induction toks arbitrary: fs)
  case (Cons tok toks)
  show ?case
  proof (cases "single tok")
    case True
    then show ?thesis by (simp add: glob_spec_single)
  next
    case False
    with Cons show ?thesis
      by (auto simp: has_single_def glob_spec_wild_cases simp del: glob_spec.simps)
  qed
qed (simp add: has_single_def)

lemma no_suffix_tried:
  assumes "has_single toks" and "no_suffix opts toks s" and "rec \<or> \<not> rec_head toks"
  shows "tried opts rec toks s"
  using assms has_single_empty [OF assms(1)] unfolding no_suffix_def tried_def by blast

lemma tried_wild_ok:
  assumes "tried opts rec toks (w @ s)" and "0 < n" and "n \<le> length s" and "wild_ok opts rec fs s n"
  shows "\<not> glob_spec opts (after fs (take n s)) toks (drop n s)"
proof -
  from assms(2,3) have ne: "take n s \<noteq> []" by auto
  then have "last (take n s) = s ! (n - 1)" using assms(3) by (simp add: last_conv_nth min_def)
  then have "is_separator (last (take n s)) \<or> drop n s = []" if rec
    using assms(2-4) that by (auto simp: wild_ok_def)
  moreover note ne
  moreover have "w @ s = (w @ take n s) @ drop n s" by simp
  ultimately show ?thesis
    using assms(1) [unfolded tried_def, rule_format, of "w @ take n s" "drop n s"]
    by (simp add: after_def)
qed

lemma tried_wild: "tried opts rec toks (w @ s) \<Longrightarrow> \<not> wild_spec opts rec fs toks s"
  unfolding wild_spec_iff using tried_wild_ok by blast

lemma tried_no_suffix:
  assumes "tried opts rec toks s"
  shows "no_suffix opts (wild rec # toks) s"
  unfolding no_suffix_def glob_spec_wild
proof (intro allI impI)
  fix u v assume uv: "s = u @ v" "u \<noteq> []" "rec_head (wild rec # toks) \<longrightarrow> is_separator (last u)"
  then have "\<not> glob_spec opts (is_separator (last u)) toks v"
    using assms unfolding tried_def by (auto simp: rec_head_def wild_def)
  with tried_wild assms uv(1)
  show "\<not> (glob_spec opts (is_separator (last u)) toks v \<or>
      wild_spec opts rec (is_separator (last u)) toks v)" by blast
qed

lemma tried_Cons:
  "tried opts rec toks (c # s) \<longleftrightarrow>
    ((rec \<longrightarrow> is_separator c \<or> s = []) \<longrightarrow> \<not> glob_spec opts (is_separator c) toks s) \<and>
    tried opts rec toks s"
proof
  assume L: "tried opts rec toks (c # s)"
  have "\<not> glob_spec opts (is_separator c) toks s" if "rec \<longrightarrow> is_separator c \<or> s = []"
    using L [unfolded tried_def, rule_format, of "[c]" s] that by simp
  moreover have "tried opts rec toks s"
    unfolding tried_def
  proof (intro allI impI)
    fix u v assume "s = u @ v" "u \<noteq> []" "rec \<longrightarrow> is_separator (last u) \<or> v = []"
    with L [unfolded tried_def, rule_format, of "c # u" v]
    show "\<not> glob_spec opts (is_separator (last u)) toks v" by simp
  qed
  ultimately show "((rec \<longrightarrow> is_separator c \<or> s = []) \<longrightarrow> \<not> glob_spec opts (is_separator c) toks s) \<and>
    tried opts rec toks s" by blast
next
  assume R: "((rec \<longrightarrow> is_separator c \<or> s = []) \<longrightarrow> \<not> glob_spec opts (is_separator c) toks s) \<and>
    tried opts rec toks s"
  show "tried opts rec toks (c # s)"
    unfolding tried_def
  proof (intro allI impI)
    fix u v assume uv: "c # s = u @ v" "u \<noteq> []" "rec \<longrightarrow> is_separator (last u) \<or> v = []"
    then obtain u' where u: "u = c # u'" "s = u' @ v" by (cases u) auto
    show "\<not> glob_spec opts (is_separator (last u)) toks v"
    proof (cases "u' = []")
      case True
      with R uv u show ?thesis by auto
    next
      case False
      with R [THEN conjunct2, unfolded tried_def, rule_format, of u' v] uv u show ?thesis by simp
    qed
  qed
qed

lemma tried_Nil [simp]: "tried opts rec toks []"
  by (simp add: tried_def)

definition matcher_ok :: "match_options \<Rightarrow> pattern_token list \<Rightarrow> bool" where
  "matcher_ok opts toks \<longleftrightarrow> (\<forall>fs s.
     (matches_from opts fs toks s = Match \<longleftrightarrow> glob_spec opts fs toks s) \<and>
     (matches_from opts fs toks s = EntirePatternDoesntMatch \<longrightarrow>
       has_single toks \<and> no_suffix opts toks s))"

lemma matcher_okD:
  assumes "matcher_ok opts toks"
  shows "matches_from opts fs toks s = Match \<longleftrightarrow> glob_spec opts fs toks s"
    and "matches_from opts fs toks s = EntirePatternDoesntMatch \<Longrightarrow> has_single toks"
    and "matches_from opts fs toks s = EntirePatternDoesntMatch \<Longrightarrow> no_suffix opts toks s"
  using assms by (auto simp: matcher_ok_def)

lemma matches_seq_ok:
  assumes ok: "matcher_ok opts toks" and wf: "rec \<or> \<not> rec_head toks"
  shows "(matches_seq opts rec fs toks s = Match \<longleftrightarrow>
           (if s = [] then glob_spec opts fs toks [] else wild_spec opts rec fs toks s)) \<and>
    (matches_seq opts rec fs toks s = EntirePatternDoesntMatch \<longrightarrow>
       has_single toks \<and> tried opts rec toks s)"
proof (induction s arbitrary: fs)
  case Nil
  with matcher_okD [OF ok, of fs "[]"] show ?case by simp
next
  case (Cons c s)
  note m = matcher_okD [OF ok, of "is_separator c" s]
  note IH = Cons [of "is_separator c"]
  have entire: "tried opts rec toks s \<and> \<not> wild_spec opts rec (is_separator c) toks s"
    if "matches_from opts (is_separator c) toks s = EntirePatternDoesntMatch"
    using no_suffix_tried [OF m(2) [OF that] m(3) [OF that] wf]
      tried_wild [of opts rec toks "[]" s "is_separator c"] by auto
  show ?case
    using IH m entire
    by (cases "matches_from opts (is_separator c) toks s")
      (auto simp: tried_Cons split: if_splits)
qed

lemma chars_eq_separator: "chars_eq c 47 b \<Longrightarrow> c = 47"
  by (auto simp: chars_eq_def to_ascii_lowercase_def split: if_splits)

lemma no_suffix_single:
  assumes "single tok" and "no_suffix opts toks s" and "rec_head toks \<Longrightarrow> tok = TChar 47"
  shows "no_suffix opts (tok # toks) (c # s)"
  unfolding no_suffix_def
proof (intro allI impI notI)
  fix u v assume uv: "c # s = u @ v" "u \<noteq> []"
    and g: "glob_spec opts (is_separator (last u)) (tok # toks) v"
  from uv obtain u' where u: "u = c # u'" "s = u' @ v" by (cases u) auto
  from g assms(1) obtain d w where v: "v = d # w"
    and d: "token_matches opts (is_separator (last u)) tok d" "glob_spec opts (is_separator d) toks w"
    by (auto simp: glob_spec_single split: list.splits)
  have "rec_head toks \<longrightarrow> is_separator d"
    using assms(3) d(1) by (auto simp: is_separator_def dest: chars_eq_separator)
  with assms(2) [unfolded no_suffix_def, rule_format, of "u' @ [d]" w] u v d(2) show False by simp
qed

lemma matcher_ok: "wf_tokens b toks \<Longrightarrow> matcher_ok opts toks"
proof (induction toks arbitrary: b)
  case Nil
  then show ?case by (simp add: matcher_ok_def)
next
  case (Cons tok toks)
  from Cons.prems have wf: "wf_tokens (tok = AnyRecursiveSequence \<or> tok = TChar 47) toks" by simp
  note ok = Cons.IH [OF wf]
  have head: "rec_head toks \<Longrightarrow> tok = AnyRecursiveSequence \<or> tok = TChar 47"
    using wf by (cases toks) (auto simp: rec_head_def)
  show ?case
  proof (cases "single tok")
    case True
    show ?thesis
      unfolding matcher_ok_def
    proof (intro allI)
      fix fs s
      show "(matches_from opts fs (tok # toks) s = Match \<longleftrightarrow> glob_spec opts fs (tok # toks) s) \<and>
          (matches_from opts fs (tok # toks) s = EntirePatternDoesntMatch \<longrightarrow>
            has_single (tok # toks) \<and> no_suffix opts (tok # toks) s)"
      proof (cases s)
        case Nil
        with True show ?thesis
          by (simp add: glob_spec_single has_single_def no_suffix_def)
      next
        case (Cons c s')
        with True head matcher_okD [OF ok, of "is_separator c" s']
          no_suffix_single [OF True, of opts toks s' c] show ?thesis
          by (auto simp: glob_spec_single has_single_def)
      qed
    qed
  next
    case False
    define rec where "rec = (tok = AnyRecursiveSequence)"
    have tok: "tok = wild rec" using False by (auto simp: wild_def rec_def)
    have nrec: "rec \<or> \<not> rec_head toks" using head False by (auto simp: rec_def)
    show ?thesis
      unfolding matcher_ok_def tok
    proof (intro allI)
      fix fs s
      note m = matcher_okD [OF ok, of fs s]
      have unfold: "matches_from opts fs (wild rec # toks) s =
          (if matches_from opts fs toks s \<noteq> SubPatternDoesntMatch
           then matches_from opts fs toks s else matches_seq opts rec fs toks s)"
        by (simp add: wild_def)
      have sing: "has_single toks \<Longrightarrow> has_single (wild rec # toks)" by (simp add: has_single_def)
      have entire: "tried opts rec toks s \<and> \<not> wild_spec opts rec fs toks s"
        if "matches_from opts fs toks s = EntirePatternDoesntMatch"
        using no_suffix_tried [OF m(2) [OF that] m(3) [OF that] nrec]
          tried_wild [of opts rec toks "[]" s fs] by auto
      show "(matches_from opts fs (wild rec # toks) s = Match \<longleftrightarrow> glob_spec opts fs (wild rec # toks) s) \<and>
          (matches_from opts fs (wild rec # toks) s = EntirePatternDoesntMatch \<longrightarrow>
            has_single (wild rec # toks) \<and> no_suffix opts (wild rec # toks) s)"
        unfolding unfold glob_spec_wild
        using m entire matches_seq_ok [OF ok nrec, of fs s] tried_no_suffix [of opts rec toks s] sing
        by (cases "matches_from opts fs toks s") (auto split: if_splits)
    qed
  qed
qed

subsection \<open>Patterns the compiler produces\<close>

definition loop_inv :: "int list \<Rightarrow> nat \<Rightarrow> pattern_token list \<Rightarrow> bool" where
  "loop_inv chars i toks \<longleftrightarrow> wf_tokens True toks \<and> (i = 0 \<longrightarrow> toks = []) \<and>
     (0 < i \<and> i \<le> length chars \<and> is_separator (chars ! (i - 1)) \<longrightarrow>
       toks \<noteq> [] \<and> (last toks = AnyRecursiveSequence \<or> last toks = TChar 47))"

lemma loop_inv_append:
  assumes "wf_tokens True toks" and "0 < j" and "tok \<noteq> AnyRecursiveSequence"
    and "j \<le> length chars \<Longrightarrow> is_separator (chars ! (j - 1)) \<Longrightarrow> tok = TChar 47"
  shows "loop_inv chars j (toks @ [tok])"
  using assms by (auto simp: loop_inv_def wf_tokens_append)

lemma loop_inv_rec:
  assumes "loop_inv chars i toks" and "i = 0 \<or> is_separator (chars ! (i - 1))"
    and "i \<le> length chars" and "0 < j"
  shows "loop_inv chars j (toks @ [AnyRecursiveSequence])"
  using assms by (auto simp: loop_inv_def wf_tokens_append)

lemma loop_inv_skip:
  assumes "loop_inv chars i toks" and "1 < length toks" and "last toks = AnyRecursiveSequence" and "0 < j"
  shows "loop_inv chars j toks"
  using assms by (auto simp: loop_inv_def)

lemma position_nth: "position P xs = Some j \<Longrightarrow> j < length xs \<and> P (xs ! j)"
  by (induction xs arbitrary: j) (auto split: if_splits)

lemma nth_star_run:
  assumes "i < length chars" and "chars ! i = 42"
    and "n = length (takeWhile (\<lambda>c. c = (42 :: int)) (drop i chars))"
  shows "0 < n" and "chars ! (i + n - 1) = 42" and "i + n \<le> length chars"
proof -
  let ?w = "takeWhile (\<lambda>c. c = (42 :: int)) (drop i chars)"
  show n: "0 < n" using assms by (simp add: Cons_nth_drop_Suc [symmetric])
  have le: "n \<le> length (drop i chars)" unfolding assms(3) by (rule length_takeWhile_le)
  with assms(1) show "i + n \<le> length chars" by simp
  have "?w ! (n - 1) = drop i chars ! (n - 1)" using n assms(3) by (intro takeWhile_nth) simp
  moreover have "?w ! (n - 1) \<in> set ?w" using n assms(3) by (intro nth_mem) simp
  ultimately have "drop i chars ! (n - 1) = 42" by (auto dest: set_takeWhileD)
  with n le assms(1) show "chars ! (i + n - 1) = 42" by (simp add: nth_append)
qed

lemma pattern_loop_wf:
  "pattern_loop chars i toks rec meta = Inr (toks', rec', meta') \<Longrightarrow> loop_inv chars i toks \<Longrightarrow>
   wf_tokens True toks'"
proof (induction "length chars - i" arbitrary: i toks rec meta rule: less_induct)
  case less
  note IH = less.hyps and inv = less.prems(2)
  from inv have wf: "wf_tokens True toks" by (simp add: loop_inv_def)
  show ?case
  proof (cases "i < length chars")
    case False
    with less.prems(1) wf show ?thesis by (subst (asm) pattern_loop.simps) simp
  next
    case True
    note run = less.prems(1) [unfolded pattern_loop.simps [of chars i]]
    consider (any) "chars ! i = 63" | (star) "chars ! i = 42" | (bracket) "chars ! i = 91"
      | (char) "chars ! i \<noteq> 63" "chars ! i \<noteq> 42" "chars ! i \<noteq> 91" by blast
    then show ?thesis
    proof cases
      case any
      with True run have "pattern_loop chars (i + 1) (toks @ [AnyChar]) rec True = Inr (toks', rec', meta')"
        by simp
      moreover have "loop_inv chars (i + 1) (toks @ [AnyChar])"
        using any wf by (intro loop_inv_append) (auto simp: is_separator_def)
      ultimately show ?thesis using IH [of "i + 1"] True by simp
    next
      case char
      with True run have "pattern_loop chars (i + 1) (toks @ [TChar (chars ! i)]) rec meta = Inr (toks', rec', meta')"
        by simp
      moreover have "loop_inv chars (i + 1) (toks @ [TChar (chars ! i)])"
        using wf by (intro loop_inv_append) (auto simp: is_separator_def)
      ultimately show ?thesis using IH [of "i + 1"] True by simp
    next
      case bracket
      from True bracket run obtain j tok rec1 where
        "pattern_loop chars j (toks @ [tok]) rec1 True = Inr (toks', rec', meta')"
        "i < j" "j \<le> length chars" "chars ! (j - 1) = 93" "tok \<noteq> AnyRecursiveSequence" "tok \<noteq> TChar 47"
        by (auto simp: Let_def numeral_eq_Suc ac_simps split: if_splits option.splits dest!: position_nth)
      moreover from this have "loop_inv chars j (toks @ [tok])"
        using wf by (intro loop_inv_append) (auto simp: is_separator_def)
      ultimately show ?thesis using IH [of j] True by (meson diff_less_mono2)
    next
      case star
      define n where "n = length (takeWhile (\<lambda>c. c = (42 :: int)) (drop i chars))"
      note n = nth_star_run [OF True star n_def]
      have less: "length chars - j < length chars - i" if "i + n \<le> j" for j
        using that n True by linarith
      show ?thesis
      proof (cases "n = 2")
        case False
        with True star run n_def have "pattern_loop chars (i + n) (toks @ [AnySequence]) rec True = Inr (toks', rec', meta')"
          by (auto simp: Let_def split: if_splits)
        moreover have "loop_inv chars (i + n) (toks @ [AnySequence])"
          using wf n by (intro loop_inv_append) (auto simp: is_separator_def)
        ultimately show ?thesis using IH [OF less] by blast
      next
        case two: True
        with True star run n_def have at: "i = 0 \<or> is_separator (chars ! (i - 1))"
          by (auto simp: Let_def split: if_splits)
        from two True star run n_def obtain j toks1 rec1 where
          "pattern_loop chars j toks1 rec1 True = Inr (toks', rec', meta')" "i + n \<le> j"
          "toks1 = toks @ [AnyRecursiveSequence] \<or>
            toks1 = toks \<and> 1 < length toks \<and> last toks = AnyRecursiveSequence"
          by (auto simp: Let_def split: if_splits)
        moreover from this have "loop_inv chars j toks1"
          using loop_inv_rec [OF inv at] loop_inv_skip [OF inv] True n by auto
        ultimately show ?thesis using IH [OF less] by blast
      qed
    qed
  qed
qed

lemma pattern_new_wf: "pattern_new s = Inr g \<Longrightarrow> wf_tokens True (tokens g)"
  unfolding pattern_new_def bindR_Inr_iff
  by (auto split: prod.splits intro!: pattern_loop_wf simp: loop_inv_def)

text \<open>
  C20. The glob matcher is right: a pattern the compiler accepts matches a text, under any options,
  exactly when the tokens of the pattern describe the text. Its early exit, which gives up all
  alternatives once the text is used up, loses no match.
\<close>

theorem glob_matches_iff:
  assumes "pattern_new pattern = Inr g"
  shows "matches_with g s opts \<longleftrightarrow> glob_spec opts True (tokens g) (str_chars s)"
  using matcher_ok [OF pattern_new_wf [OF assms], of opts]
  by (simp add: matches_with_def matcher_okD)

theorem glob_matches_iff_witness:
  "\<exists>g. pattern_new ''a/**/*.[ch]'' = Inr g \<and>
     glob_spec pattern_match_options True (tokens g) (str_chars ''a/b/x.c'')"
proof -
  have "case pattern_new ''a/**/*.[ch]'' of Inr g \<Rightarrow> matches_with g ''a/b/x.c'' pattern_match_options
      | Inl _ \<Rightarrow> False" by code_simp
  then obtain g where "pattern_new ''a/**/*.[ch]'' = Inr g"
    "matches_with g ''a/b/x.c'' pattern_match_options" by (auto split: sum.splits)
  with glob_matches_iff [OF this(1)] show ?thesis by blast
qed

end
