(* ===== verification/Tree_Walk.thy ===== *)
theory Tree_Walk
  imports Tree_Ops
begin

text \<open>
  The operations of \<^verbatim>\<open>josh-core/src/filter/tree.rs\<close> that walk a whole tree: filtering by a path
  predicate (\<open>remove_pred\<close>), the paths tree and its inverse (\<open>pathstree\<close>, \<open>invert_paths\<close>),
  \<open>populate\<close>, text replacement, the path diff, and the preorder walk of \<^verbatim>\<open>josh-gix-ext\<close>.

  \<open>path_walk\<close> is the contract shared by the walks that keep a subset of the files: what they do at
  one directory. The specification on views is proved once, in the locale.
\<close>

subsection \<open>Rebuilding a tree entry by entry\<close>

record tree_rebuild =
  rb_out :: "entry list"
  rb_changed :: bool

definition rebuild_new :: tree_rebuild where
  "rebuild_new = \<lparr> rb_out = [], rb_changed = False \<rparr>"

definition mark_changed :: "tree_rebuild \<Rightarrow> tree_rebuild" where
  "mark_changed rb = rb\<lparr> rb_changed := True \<rparr>"

definition rb_keep :: "tree_rebuild \<Rightarrow> entry \<Rightarrow> tree_rebuild" where
  "rb_keep rb e = rb\<lparr> rb_out := rb_out rb @ [e] \<rparr>"

definition rb_finish :: "tree_rebuild \<Rightarrow> obj \<Rightarrow> obj" where
  "rb_finish rb input = (if rb_changed rb then Tree (rb_out rb) else input)"

definition push_name :: "string \<Rightarrow> string \<Rightarrow> string" where
  "push_name root name = (if root = [] then name else root @ ''/'' @ name)"

definition name_utf8 :: "entry \<Rightarrow> string result" where
  "name_utf8 e = (if valid_utf8 (e_name e) then Inr (e_name e) else Inl NoName)"

lemma size_read_tree: "read_tree_bytes t = Some es \<Longrightarrow> e \<in> set es \<Longrightarrow> size (e_oid e) < size t"
  by (cases t) (auto dest: size_e_oid)

function remove_pred_inner :: "(string \<Rightarrow> bool \<Rightarrow> bool) \<Rightarrow> string \<Rightarrow> obj \<Rightarrow> obj result" where
  "remove_pred_inner pred path input =
    (case read_tree_bytes input of
       None \<Rightarrow> Inl NotATree
     | Some es \<Rightarrow>
        bindR (foldR (\<lambda>rb e.
          bindR (name_utf8 e) (\<lambda>name.
            if is_tree (e_mode e)
            then bindR (remove_pred_inner pred (push_name path name) (e_oid e)) (\<lambda>s.
              let rb = (if s \<noteq> e_oid e \<or> s = empty_id then mark_changed rb else rb)
              in Inr (if s \<noteq> empty_id then rb_keep rb (Entry (e_mode e) (e_name e) s) else rb))
            else if is_commit (e_mode e) then Inr (mark_changed rb)
            else if pred (push_name path name) True then Inr (rb_keep rb e)
            else Inr (mark_changed rb))) rebuild_new es)
        (\<lambda>rb. Inr (rb_finish rb input)))"
  by pat_completeness auto
termination
  by (relation "measure (\<lambda>(pred, path, input). size input)") (auto dest: size_read_tree)

declare remove_pred_inner.simps [simp del]

subsection \<open>Paths trees\<close>

definition workspace_josh :: string where "workspace_josh = ''workspace.josh''"

definition file_path :: "string \<Rightarrow> string \<Rightarrow> path" where
  "file_path root name = normalize_path (path_join (path_of_string root) (path_of_string name))"

definition newline :: char where "newline = CHR 0x0A"

function pathstree :: "string \<Rightarrow> obj \<Rightarrow> obj result" where
  "pathstree root input =
    (case read_tree_bytes input of
       None \<Rightarrow> Inl NotATree
     | Some es \<Rightarrow>
        bindR (foldR (\<lambda>rb e.
          bindR (name_utf8 e) (\<lambda>name.
            if is_tree (e_mode e)
            then bindR (pathstree (push_name root name) (e_oid e)) (\<lambda>s.
              Inr (if s \<noteq> empty_id then rb_keep rb (Entry mode_tree (e_name e) s) else rb))
            else if \<not> is_commit (e_mode e)
            then let path_string = path_str (file_path root name);
                     file_contents =
                       (if name = workspace_josh
                        then ''#'' @ path_string @ [newline] @ blob_text (e_oid e)
                        else path_string)
                 in Inr (rb_keep rb (Entry mode_blob (e_name e) (Blob file_contents)))
            else Inr rb)) rebuild_new es)
        (\<lambda>rb. Inr (Tree (rb_out rb))))"
  by pat_completeness auto
termination
  by (relation "measure (\<lambda>(root, input). size input)") (auto dest: size_read_tree)

declare pathstree.simps [simp del]

definition pathline :: "string \<Rightarrow> string result" where
  "pathline b =
    (let line = dropWhile (\<lambda>c. c = CHR ''#'') (takeWhile (\<lambda>c. c \<noteq> newline) b)
     in if line \<noteq> [] then Inr line else Inl EmptyPathline)"

function invert_paths :: "bisect \<Rightarrow> string \<Rightarrow> obj \<Rightarrow> obj result" where
  "invert_paths bz root tree =
    (case read_tree_bytes tree of
       None \<Rightarrow> Inl NotATree
     | Some es \<Rightarrow>
        foldR (\<lambda>res e.
          bindR (name_utf8 e) (\<lambda>name.
            bindR
              (if \<not> is_tree (e_mode e) \<and> \<not> is_commit (e_mode e)
               then
                 let mpath = path_str (file_path root name);
                     b = (case parsed_entry bz es (e_name e) of
                            Some e' \<Rightarrow> blob_text (e_oid e')
                          | None \<Rightarrow> [])
                 in bindR (pathline b) (\<lambda>opath.
                      insert_oid bz res (path_of_string opath) (Blob mpath) mode_blob)
               else Inr res)
              (\<lambda>res.
                if is_tree (e_mode e)
                then bindR (invert_paths bz (push_name root name) (e_oid e)) (\<lambda>s.
                       Inr (overlay bz res s))
                else Inr res))) empty_id es)"
  by pat_completeness auto
termination
  by (relation "measure (\<lambda>(bz, root, tree). size tree)") (auto dest: size_read_tree)

declare invert_paths.simps [simp del]

function populate :: "bisect \<Rightarrow> obj \<Rightarrow> obj \<Rightarrow> obj result" where
  "populate bz paths content =
    (case paths of
       Blob paths_bytes \<Rightarrow>
         (case content of
            Blob _ \<Rightarrow>
              bindR (from_utf8 paths_bytes) (\<lambda>text.
              bindR (pathline text) (\<lambda>ipath.
                insert_oid bz empty_id (path_of_string ipath) content mode_blob))
          | _ \<Rightarrow> Inr empty_id)
     | Tree paths_tree \<Rightarrow>
         (case content of
            Tree content_tree \<Rightarrow>
              foldR (\<lambda>res e.
                bindR (name_utf8 e) (\<lambda>_.
                  case parsed_entry bz paths_tree (e_name e) of
                    Some e' \<Rightarrow>
                      bindR (populate bz (e_oid e') (e_oid e)) (\<lambda>s. Inr (overlay bz res s))
                  | None \<Rightarrow> Inr res)) empty_id content_tree
          | _ \<Rightarrow> Inr empty_id)
     | _ \<Rightarrow> Inr empty_id)"
  by pat_completeness auto
termination
  by (relation "measure (\<lambda>(bz, paths, content). size content)") (auto dest: size_e_oid)

declare populate.simps [simp del]

subsection \<open>Replacing text\<close>

text \<open>\<open>replace\<close> is \<^verbatim>\<open>Regex::replacen(text, 0, replacement)\<close> for the regex and replacement at hand.\<close>

function regex_replace_inner :: "(string \<Rightarrow> string) \<Rightarrow> obj \<Rightarrow> obj result" where
  "regex_replace_inner replace input =
    (case read_tree_bytes input of
       None \<Rightarrow> Inl NotATree
     | Some es \<Rightarrow>
        bindR (foldR (\<lambda>rb e.
          bindR (name_utf8 e) (\<lambda>_.
            if is_tree (e_mode e)
            then bindR (regex_replace_inner replace (e_oid e)) (\<lambda>s.
              Inr (if s \<noteq> empty_id then rb_keep rb (Entry (e_mode e) (e_name e) s) else rb))
            else if \<not> is_commit (e_mode e)
            then Inr (rb_keep rb (Entry (e_mode e) (e_name e) (Blob (replace (blob_text (e_oid e))))))
            else Inr rb)) rebuild_new es)
        (\<lambda>rb. Inr (Tree (rb_out rb))))"
  by pat_completeness auto
termination
  by (relation "measure (\<lambda>(replace, input). size input)") (auto dest: size_read_tree)

declare regex_replace_inner.simps [simp del]

subsection \<open>Differences of two trees\<close>

fun is_Blob :: "obj \<Rightarrow> bool" where
  "is_Blob (Blob _) = True"
| "is_Blob _ = False"

function diff_paths :: "bisect \<Rightarrow> obj \<Rightarrow> obj \<Rightarrow> string \<Rightarrow> (string \<times> int) list result" where
  "diff_paths bz input1 input2 root =
    (if input1 = input2 then Inr []
     else if is_Blob input1 \<and> is_Blob input2 then Inr [(root, 0)]
     else if is_Blob input1 then Inr [(root, -1)]
     else if is_Blob input2 then Inr [(root, 1)]
     else case read_tree_bytes input2 of
       Some tree2 \<Rightarrow>
         (case read_tree_bytes input1 of
            Some tree1 \<Rightarrow>
              bindR (mapR (\<lambda>e. bindR (name_utf8 e) (\<lambda>name.
                  case parsed_entry bz tree1 (e_name e) of
                    Some e1 \<Rightarrow> diff_paths bz (e_oid e1) (e_oid e) (push_name root name)
                  | None \<Rightarrow> diff_paths bz zero_oid (e_oid e) (push_name root name))) tree2) (\<lambda>rs2.
              bindR (mapR (\<lambda>e. bindR (name_utf8 e) (\<lambda>name.
                  if parsed_entry bz tree2 (e_name e) = None
                  then diff_paths bz (e_oid e) zero_oid (push_name root name)
                  else Inr [])) tree1) (\<lambda>rs1.
                Inr (concat rs2 @ concat rs1)))
          | None \<Rightarrow>
              bindR (mapR (\<lambda>e. bindR (name_utf8 e) (\<lambda>name.
                  diff_paths bz zero_oid (e_oid e) (push_name root name))) tree2)
                (\<lambda>rs. Inr (concat rs)))
     | None \<Rightarrow>
         (case read_tree_bytes input1 of
            Some tree1 \<Rightarrow>
              bindR (mapR (\<lambda>e. bindR (name_utf8 e) (\<lambda>name.
                  diff_paths bz (e_oid e) zero_oid (push_name root name))) tree1)
                (\<lambda>rs. Inr (concat rs))
          | None \<Rightarrow> Inr []))"
  by pat_completeness auto
termination
  by (relation "measures [\<lambda>(bz, a, b, root). size b, \<lambda>(bz, a, b, root). size a]")
    (auto simp: zero_oid_def dest: size_read_tree)

declare diff_paths.simps [simp del]

subsection \<open>Preorder walk\<close>

text \<open>The entries the walk visits, each with the path of its directory.\<close>

function walk_tree_preorder :: "string \<Rightarrow> obj \<Rightarrow> (string \<times> entry) list result" where
  "walk_tree_preorder path tree =
    (case read_tree_bytes tree of
       None \<Rightarrow> Inl NotATree
     | Some es \<Rightarrow>
        bindR (mapR (\<lambda>e.
          if is_tree (e_mode e)
          then bindR (name_utf8 e) (\<lambda>name.
            bindR (walk_tree_preorder (push_name path name) (e_oid e)) (\<lambda>below.
              Inr ((path, e) # below)))
          else Inr [(path, e)]) es)
        (\<lambda>vs. Inr (concat vs)))"
  by pat_completeness auto
termination
  by (relation "measure (\<lambda>(path, tree). size tree)") (auto dest: size_read_tree)

declare walk_tree_preorder.simps [simp del]

subsection \<open>The contract of the walks\<close>

text \<open>
  A walk visits every entry with a state that it updates on the way down; a leaf is dropped or
  replaced according to \<open>leaf\<close>, and a directory that becomes empty is dropped.
\<close>

fun leaf_at :: "('s \<Rightarrow> string \<Rightarrow> 's) \<Rightarrow> ('s \<Rightarrow> string \<Rightarrow> mode \<times> obj \<Rightarrow> (mode \<times> obj) option) \<Rightarrow>
  's \<Rightarrow> string list \<Rightarrow> mode \<times> obj \<Rightarrow> (mode \<times> obj) option" where
  "leaf_at down leaf s [] x = None"
| "leaf_at down leaf s (n # p) x =
    (if p = [] then leaf s n x else leaf_at down leaf (down s n) p x)"

lemma leaf_at_Cons:
  "q \<noteq> [] \<Longrightarrow> leaf_at down leaf s (n # q) = leaf_at down leaf (down s n) q"
  by (rule ext) simp

definition wf_leaf :: "mode \<times> obj \<Rightarrow> bool" where
  "wf_leaf x \<longleftrightarrow> \<not> is_tree (fst x) \<and> \<not> is_Tree (snd x) \<and> snd x \<noteq> zero_oid"

fun utf8_obj :: "obj \<Rightarrow> bool" and utf8_entry :: "entry \<Rightarrow> bool" where
  "utf8_obj (Tree es) = list_all utf8_entry es"
| "utf8_obj _ = True"
| "utf8_entry (Entry m n oid) = (valid_utf8 n \<and> utf8_obj oid)"

lemma utf8_entry_iff: "utf8_entry e \<longleftrightarrow> valid_utf8 (e_name e) \<and> utf8_obj (e_oid e)"
  by (cases e) simp

lemma utf8_reader: "utf8_obj (Tree es) \<Longrightarrow> reader_entry es n = Some e \<Longrightarrow> utf8_obj (e_oid e)"
  by (auto simp: list_all_iff utf8_entry_iff dest: reader_entry_SomeD)

definition walk_entry :: "('s \<Rightarrow> string \<Rightarrow> mode \<times> obj \<Rightarrow> (mode \<times> obj) option) \<Rightarrow> 's \<Rightarrow>
  (entry \<Rightarrow> obj) \<Rightarrow> entry \<Rightarrow> entry option" where
  "walk_entry leaf s r e =
    (if is_tree (e_mode e)
     then (if r e = empty_id then None else Some (Entry (e_mode e) (e_name e) (r e)))
     else map_option (\<lambda>x. Entry (fst x) (e_name e) (snd x)) (leaf s (e_name e) (e_mode e, e_oid e)))"

lemma wf_leaf_entry: "wf_leaf (e_mode e, e_oid e) \<Longrightarrow> valid_name (e_name e) \<Longrightarrow> wf_entry e"
  by (cases "e_oid e") (auto simp: wf_entry_iff wf_leaf_def empty_id_def zero_oid_def)

lemma wf_entry_leaf: "wf_entry e \<Longrightarrow> \<not> is_tree (e_mode e) \<Longrightarrow> wf_leaf (e_mode e, e_oid e)"
  by (auto simp: wf_entry_iff wf_leaf_def)

locale path_walk =
  fixes walk :: "'s \<Rightarrow> obj \<Rightarrow> obj result"
    and down :: "'s \<Rightarrow> string \<Rightarrow> 's"
    and leaf :: "'s \<Rightarrow> string \<Rightarrow> mode \<times> obj \<Rightarrow> (mode \<times> obj) option"
  assumes walk_dir:
    "utf8_obj (Tree es) \<Longrightarrow> wf_obj (Tree es) \<Longrightarrow>
     (\<And>e. e \<in> set es \<Longrightarrow> is_tree (e_mode e) \<Longrightarrow> walk (down s (e_name e)) (e_oid e) = Inr (r e)) \<Longrightarrow>
     walk s (Tree es) = Inr (Tree (List.map_filter (walk_entry leaf s r) es))"
    and wf_leaf: "leaf s n x = Some y \<Longrightarrow> wf_leaf x \<Longrightarrow> wf_leaf y"
begin

lemma walk_entry_name: "walk_entry leaf s r e = Some y \<Longrightarrow> e_name y = e_name e"
  by (auto simp: walk_entry_def split: if_splits)

lemma wf_walk_entry:
  assumes "wf_entry e" and "is_tree (e_mode e) \<Longrightarrow> wf_tree (r e)" and "walk_entry leaf s r e = Some y"
  shows "wf_entry y \<and> e_name y = e_name e \<and> is_tree (e_mode y) = is_tree (e_mode e)"
proof (cases "is_tree (e_mode e)")
  case True
  with assms show ?thesis
    by (auto simp: walk_entry_def wf_entry_iff wf_tree_def zero_oid_def split: if_splits)
next
  case False
  with assms(3) obtain x where x: "leaf s (e_name e) (e_mode e, e_oid e) = Some x"
    "y = Entry (fst x) (e_name e) (snd x)" by (auto simp: walk_entry_def)
  with wf_leaf [OF x(1)] wf_entry_leaf [OF assms(1) False] have "wf_leaf x" by blast
  with x(2) assms(1) False show ?thesis
    using wf_leaf_entry [of y] by (auto simp: wf_entry_iff wf_leaf_def)
qed

lemma flat_walk_entry:
  assumes "wf_entry e" and "is_tree (e_mode e) \<Longrightarrow> wf_tree (r e) \<and>
    (\<forall>p. flat (r e) p = Option.bind (flat (e_oid e) p) (leaf_at down leaf (down s (e_name e)) p))"
  shows "(case walk_entry leaf s r e of None \<Rightarrow> None | Some y \<Rightarrow> entry_view y q) =
    Option.bind (entry_view e q) (leaf_at down leaf s (e_name e # q))"
proof (cases "is_tree (e_mode e)")
  case True
  with assms(2) show ?thesis
    by (cases "q = []") (auto simp: walk_entry_def entry_view_def leaf_at_Cons)
next
  case False
  have "\<not> is_tree (fst x)" if "leaf s (e_name e) (e_mode e, e_oid e) = Some x" for x
    using wf_leaf [OF that wf_entry_leaf [OF assms(1) False]] by (simp add: wf_leaf_def)
  with False show ?thesis
    by (auto simp: walk_entry_def entry_view_def split: option.split)
qed

lemma walk_spec:
  "wf_tree t \<Longrightarrow> utf8_obj t \<Longrightarrow>
   \<exists>u. walk s t = Inr u \<and> wf_tree u \<and>
     (\<forall>p. flat u p = Option.bind (flat t p) (leaf_at down leaf s p))"
proof (induction t arbitrary: s rule: wf_tree_induct)
  case (Tree es)
  let ?r = "\<lambda>e. projr (walk (down s (e_name e)) (e_oid e))"
  have sub: "walk (down s (e_name e)) (e_oid e) = Inr (?r e) \<and> wf_tree (?r e) \<and>
      (\<forall>p. flat (?r e) p = Option.bind (flat (e_oid e) p) (leaf_at down leaf (down s (e_name e)) p))"
    if e: "e \<in> set es" "is_tree (e_mode e)" for e
    using Tree.IH [OF reader_entry_self [OF Tree.hyps e(1)] e(2), of "down s (e_name e)"]
      utf8_reader [OF Tree.prems reader_entry_self [OF Tree.hyps e(1)]] by auto
  let ?g = "walk_entry leaf s ?r"
  have walk: "walk s (Tree es) = Inr (Tree (List.map_filter ?g es))"
    using Tree.prems Tree.hyps sub by (intro walk_dir) auto
  have wf: "wf_obj (Tree (List.map_filter ?g es))"
    using wf_obj_TreeD(4) [OF Tree.hyps] sub
    by (intro wf_map_filter [OF Tree.hyps]) (rule wf_walk_entry, auto)
  have "flat (Tree (List.map_filter ?g es)) p = Option.bind (flat (Tree es) p) (leaf_at down leaf s p)" for p
  proof (cases p)
    case (Cons n q)
    have rd: "reader_entry (List.map_filter ?g es) n = Option.bind (reader_entry es n) ?g"
      using walk_entry_name wf_obj_TreeD(2) [OF Tree.hyps] by (rule reader_map_filter)
    show ?thesis
    proof (cases "reader_entry es n")
      case None
      with rd Cons show ?thesis by (simp add: flat_Cons_view)
    next
      case (Some e)
      note we = reader_entry_wf [OF Tree.hyps Some]
      from flat_walk_entry [of e ?r s q] we sub [OF we(2)] rd Some Cons show ?thesis
        by (auto simp: flat_Cons_view)
    qed
  qed simp
  with walk wf show ?case by auto
qed

end

subsection \<open>Filtering by a predicate on paths\<close>

lemma rebuild_loop:
  assumes "\<And>e rb. e \<in> set es \<Longrightarrow>
      f rb e = Inr (let rb = (if c e then mark_changed rb else rb)
                    in case g e of Some y \<Rightarrow> rb_keep rb y | None \<Rightarrow> rb)"
  shows "foldR f rb es = Inr \<lparr> rb_out = rb_out rb @ List.map_filter g es,
    rb_changed = (rb_changed rb \<or> (\<exists>e\<in>set es. c e)) \<rparr>"
  using assms
proof (induction es arbitrary: rb)
  case (Cons e es)
  then show ?case
    by (auto simp: Let_def mark_changed_def rb_keep_def map_filter_simps split: option.split)
qed (simp add: map_filter_simps)

text \<open>
  A rebuild that reports no change reproduces its input, the debug assertion of
  \<^verbatim>\<open>TreeRebuild::finish\<close>; so \<open>finish\<close> always yields the tree of the kept entries.
\<close>

lemma rebuild_finish:
  assumes "\<And>e. e \<in> set es \<Longrightarrow> \<not> c e \<Longrightarrow> g e = Some e"
  shows "rb_finish \<lparr> rb_out = List.map_filter g es, rb_changed = (\<exists>e\<in>set es. c e) \<rparr> (Tree es) =
    Tree (List.map_filter g es)"
  using assms by (auto simp: rb_finish_def intro!: map_filter_id [symmetric])

lemma name_utf8_obj: "utf8_obj (Tree es) \<Longrightarrow> e \<in> set es \<Longrightarrow> name_utf8 e = Inr (e_name e)"
  by (simp add: name_utf8_def list_all_iff utf8_entry_iff)

definition pred_leaf :: "(string \<Rightarrow> bool \<Rightarrow> bool) \<Rightarrow> string \<Rightarrow> string \<Rightarrow> mode \<times> obj \<Rightarrow> (mode \<times> obj) option" where
  "pred_leaf pred path n x =
    (if \<not> is_commit (fst x) \<and> pred (push_name path n) True then Some x else None)"

lemma remove_pred_dir:
  assumes utf8: "utf8_obj (Tree es)"
    and sub: "\<And>e. e \<in> set es \<Longrightarrow> is_tree (e_mode e) \<Longrightarrow>
      remove_pred_inner pred (push_name path (e_name e)) (e_oid e) = Inr (r e)"
  shows "remove_pred_inner pred path (Tree es) =
    Inr (Tree (List.map_filter (walk_entry (pred_leaf pred) path r) es))"
proof -
  let ?g = "walk_entry (pred_leaf pred) path r"
  let ?c = "\<lambda>e. if is_tree (e_mode e) then r e \<noteq> e_oid e \<or> r e = empty_id
    else is_commit (e_mode e) \<or> \<not> pred (push_name path (e_name e)) True"
  note name = name_utf8_obj [OF utf8]
  have unchanged: "?g e = Some e" if "e \<in> set es" "\<not> ?c e" for e
    using that by (cases e) (auto simp: walk_entry_def pred_leaf_def split: if_splits)
  have step: "bindR (name_utf8 e) (\<lambda>name.
            if is_tree (e_mode e)
            then bindR (remove_pred_inner pred (push_name path name) (e_oid e)) (\<lambda>s.
              let rb = (if s \<noteq> e_oid e \<or> s = empty_id then mark_changed rb else rb)
              in Inr (if s \<noteq> empty_id then rb_keep rb (Entry (e_mode e) (e_name e) s) else rb))
            else if is_commit (e_mode e) then Inr (mark_changed rb)
            else if pred (push_name path name) True then Inr (rb_keep rb e)
            else Inr (mark_changed rb)) =
      Inr (let rb = (if ?c e then mark_changed rb else rb)
           in case ?g e of Some y \<Rightarrow> rb_keep rb y | None \<Rightarrow> rb)" if "e \<in> set es" for e rb
    using that name [OF that] sub [OF that]
    by (cases e) (auto simp: walk_entry_def pred_leaf_def Let_def)
  show ?thesis
    using rebuild_finish [of es ?c ?g] unchanged
    by (subst remove_pred_inner.simps) (simp add: rebuild_new_def rebuild_loop [OF step])
qed

interpretation rp: path_walk "remove_pred_inner pred" push_name "pred_leaf pred"
  for pred
  by unfold_locales (auto intro: remove_pred_dir simp: pred_leaf_def split: if_splits)

lemma flat_names: "wf_tree t \<Longrightarrow> flat t p \<noteq> None \<Longrightarrow> p \<noteq> [] \<and> (\<forall>n\<in>set p. valid_name n)"
proof (induction p arbitrary: t)
  case (Cons n p)
  from Cons.prems(1) obtain es where t: "t = Tree es" and wf: "wf_obj (Tree es)"
    by (rule wf_tree_cases)
  from Cons.prems t obtain e where e: "reader_entry es n = Some e" "entry_view e p \<noteq> None"
    by (auto simp: flat_Cons_view split: option.splits)
  note we = reader_entry_wf [OF wf e(1)]
  have "valid_name n" using we by (auto simp: wf_entry_iff)
  moreover have "\<forall>x\<in>set p. valid_name x"
  proof (cases "is_tree (e_mode e)")
    case True
    with e(2) Cons.IH [of "e_oid e"] we(4) show ?thesis by (auto simp: entry_view_def)
  next
    case False
    with e(2) show ?thesis by (auto simp: entry_view_def split: if_splits)
  qed
  ultimately show ?case by simp
qed simp

definition push_path :: "string \<Rightarrow> string list \<Rightarrow> string" where
  "push_path root p = (if root = [] then join_str ''/'' p else root @ ''/'' @ join_str ''/'' p)"

lemma push_path_Cons:
  "valid_name n \<Longrightarrow> p \<noteq> [] \<Longrightarrow> push_path (push_name root n) p = push_path root (n # p)"
  by (simp add: push_path_def push_name_def join_str_Cons valid_name_def)

lemma leaf_at_pred:
  "\<forall>n\<in>set p. valid_name n \<Longrightarrow> p \<noteq> [] \<Longrightarrow>
   leaf_at push_name (pred_leaf pred) root p x =
     (if \<not> is_commit (fst x) \<and> pred (push_path root p) True then Some x else None)"
proof (induction p arbitrary: root)
  case (Cons n p)
  show ?case
  proof (cases "p = []")
    case True
    then show ?thesis by (simp add: pred_leaf_def push_path_def push_name_def)
  next
    case False
    with Cons show ?thesis by (simp add: push_path_Cons)
  qed
qed simp

text \<open>
  C15. \<open>remove_pred\<close> keeps exactly the blobs whose full path satisfies the predicate, and no gitlink;
  the result is a well-formed tree. It fails on no tree whose entry names are UTF-8.
\<close>

theorem remove_pred_spec:
  assumes "wf_tree t" and "utf8_obj t"
  shows "\<exists>u. remove_pred_inner pred [] t = Inr u \<and> wf_tree u \<and>
    (\<forall>p. flat u p = Option.bind (flat t p) (\<lambda>x.
       if \<not> is_commit (fst x) \<and> pred (join_str ''/'' p) True then Some x else None))"
proof -
  obtain u where u: "remove_pred_inner pred [] t = Inr u" "wf_tree u"
    "\<And>p. flat u p = Option.bind (flat t p) (leaf_at push_name (pred_leaf pred) [] p)"
    using rp.walk_spec [OF assms, of pred "[]"] by blast
  have "leaf_at push_name (pred_leaf pred) [] p x =
      (if \<not> is_commit (fst x) \<and> pred (join_str ''/'' p) True then Some x else None)"
    if "flat t p = Some x" for p x
    using leaf_at_pred [of p pred "[]" x] flat_names [OF assms(1), of p] that
    by (simp add: push_path_def)
  with u show ?thesis by (intro exI [of _ u]) (auto split: bind_split)
qed

theorem remove_pred_spec_witness:
  "\<exists>u. remove_pred_inner (\<lambda>path _. path = ''d/x'') [] sample1 = Inr u \<and>
     flat u [''d'', ''x''] = Some (mode_blob, Blob ''2'') \<and> flat u [''a''] = None"
proof -
  have "utf8_obj sample1" "flat sample1 [''d'', ''x''] = Some (mode_blob, Blob ''2'')"
    "flat sample1 [''a''] = Some (mode_blob, Blob ''1'')" by code_simp+
  then show ?thesis
    using remove_pred_spec [OF wf_samples(1), of "\<lambda>path _. path = ''d/x''"] by auto
qed

subsection \<open>Paths trees and text replacement\<close>

definition paths_leaf :: "string \<Rightarrow> string \<Rightarrow> mode \<times> obj \<Rightarrow> (mode \<times> obj) option" where
  "paths_leaf root n x =
    (if is_commit (fst x) then None
     else let path_string = path_str (file_path root n)
          in Some (mode_blob, Blob (if n = workspace_josh
               then ''#'' @ path_string @ [newline] @ blob_text (snd x) else path_string)))"

definition replace_leaf :: "(string \<Rightarrow> string) \<Rightarrow> unit \<Rightarrow> string \<Rightarrow> mode \<times> obj \<Rightarrow> (mode \<times> obj) option" where
  "replace_leaf replace s n x =
    (if is_commit (fst x) then None else Some (fst x, Blob (replace (blob_text (snd x)))))"

lemma keep_loop:
  assumes "\<And>e rb. e \<in> set es \<Longrightarrow> f rb e = Inr (case g e of Some y \<Rightarrow> rb_keep rb y | None \<Rightarrow> rb)"
  shows "bindR (foldR f rebuild_new es) (\<lambda>rb. Inr (Tree (rb_out rb))) = Inr (Tree (List.map_filter g es))"
  using rebuild_loop [of es f "\<lambda>_. False" g rebuild_new] assms by (simp add: rebuild_new_def)

lemma pathstree_dir:
  assumes utf8: "utf8_obj (Tree es)" and wf: "wf_obj (Tree es)"
    and sub: "\<And>e. e \<in> set es \<Longrightarrow> is_tree (e_mode e) \<Longrightarrow>
      pathstree (push_name root (e_name e)) (e_oid e) = Inr (r e)"
  shows "pathstree root (Tree es) = Inr (Tree (List.map_filter (walk_entry paths_leaf root r) es))"
proof -
  have "e_mode e = mode_tree" if "e \<in> set es" "is_tree (e_mode e)" for e
    using wf_obj_TreeD(4) [OF wf that(1)] that(2) by (auto simp: wf_entry_iff)
  note mode = this
  show ?thesis
    using name_utf8_obj [OF utf8] sub
    by (subst pathstree.simps)
      (simp, intro keep_loop, auto simp: walk_entry_def paths_leaf_def Let_def mode)
qed

lemma regex_replace_dir:
  assumes utf8: "utf8_obj (Tree es)"
    and sub: "\<And>e. e \<in> set es \<Longrightarrow> is_tree (e_mode e) \<Longrightarrow> regex_replace_inner replace (e_oid e) = Inr (r e)"
  shows "regex_replace_inner replace (Tree es) =
    Inr (Tree (List.map_filter (walk_entry (replace_leaf replace) () r) es))"
  using name_utf8_obj [OF utf8] sub
  by (subst regex_replace_inner.simps)
    (simp, intro keep_loop, auto simp: walk_entry_def replace_leaf_def Let_def)

interpretation pt: path_walk pathstree push_name paths_leaf
  by unfold_locales
    (auto intro: pathstree_dir simp: paths_leaf_def wf_leaf_def Let_def zero_oid_def mode_blob_def split: if_splits)

interpretation rr: path_walk "\<lambda>_. regex_replace_inner replace" "\<lambda>_ _. ()" "replace_leaf replace"
  for replace
  by unfold_locales
    (auto intro: regex_replace_dir simp: replace_leaf_def wf_leaf_def zero_oid_def split: if_splits)

lemma leaf_at_push:
  "\<forall>n\<in>set p. valid_name n \<Longrightarrow> n0 \<noteq> [] \<Longrightarrow> leaf_at push_name leaf root (p @ [n0]) x =
     leaf (if p = [] then root else push_path root p) n0 x"
proof (induction p arbitrary: root)
  case (Cons n p)
  show ?case
  proof (cases "p = []")
    case True
    then show ?thesis by (simp add: push_path_def push_name_def)
  next
    case False
    with Cons show ?thesis by (simp add: push_path_Cons)
  qed
qed simp

lemma leaf_at_const: "p \<noteq> [] \<Longrightarrow> leaf_at (\<lambda>_ _. ()) leaf () p x = leaf () (last p) x"
  by (induction p) auto

lemma file_path_names:
  assumes "list_all normal_name (ns @ [n])"
  shows "path_str (file_path (join_str ''/'' ns) n) = join_str ''/'' (ns @ [n])"
proof -
  have str: "path_str (path_of_names ms) = join_str ''/'' ms" for ms
    by (simp add: path_str_def path_of_names_def comp_def) (auto simp: path_str_def)
  have "path_of_string (join_str ''/'' ms) = path_of_names ms" if "list_all normal_name ms" for ms
    using path_of_string_str [OF wf_path_names [OF that]] by (simp add: str)
  from this [of ns] this [of "[n]"] assms
  have "file_path (join_str ''/'' ns) n = path_of_names (ns @ [n])"
    using path_join_names [of ns "[n]"] normalize_path_names [of "ns @ [n]"]
    by (simp add: file_path_def del: path_of_names_simps)
  with str [of "ns @ [n]"] show ?thesis by (simp del: path_of_names_simps)
qed

text \<open>
  C16. The paths tree has the files of its input; each holds its own path as text, and a
  \<^verbatim>\<open>workspace.josh\<close> holds its path as a comment line before its content. Gitlinks are dropped.
\<close>

theorem pathstree_spec:
  assumes "wf_tree t" and "utf8_obj t"
  shows "\<exists>u. pathstree [] t = Inr u \<and> wf_tree u \<and>
    (\<forall>p x. list_all normal_name p \<longrightarrow> flat t p = Some x \<longrightarrow>
      flat u p = (if is_commit (fst x) then None
        else Some (mode_blob, Blob (if last p = workspace_josh
          then ''#'' @ join_str ''/'' p @ [newline] @ blob_text (snd x) else join_str ''/'' p)))) \<and>
    (\<forall>p. flat t p = None \<longrightarrow> flat u p = None)"
proof -
  obtain u where u: "pathstree [] t = Inr u" "wf_tree u"
    "\<And>p. flat u p = Option.bind (flat t p) (leaf_at push_name paths_leaf [] p)"
    using pt.walk_spec [OF assms, of "[]"] by blast
  have "leaf_at push_name paths_leaf [] p x = paths_leaf (join_str ''/'' (butlast p)) (last p) x"
    if "flat t p = Some x" for p x
  proof -
    from flat_names [OF assms(1), of p] that have ne: "p \<noteq> []" and v: "\<forall>n\<in>set p. valid_name n" by auto
    then have "last p \<noteq> []" by (simp add: valid_name_def)
    moreover have "\<forall>n\<in>set (butlast p). valid_name n" using v by (blast dest: in_set_butlastD)
    moreover note leaf_at_push [of "butlast p" "last p" paths_leaf "[]" x] ne
    ultimately have "leaf_at push_name paths_leaf [] p x =
        paths_leaf (if butlast p = [] then [] else push_path [] (butlast p)) (last p) x"
      by simp
    then show ?thesis by (cases "butlast p = []") (simp_all add: push_path_def)
  qed
  moreover have "path_str (file_path (join_str ''/'' (butlast p)) (last p)) = join_str ''/'' p"
    if "list_all normal_name p" "flat t p = Some x" for p x
    using file_path_names [of "butlast p" "last p"] that flat_names [OF assms(1), of p] by auto
  ultimately show ?thesis using u by (intro exI [of _ u]) (auto simp: paths_leaf_def Let_def)
qed

theorem pathstree_spec_witness:
  "\<exists>u. pathstree [] sample1 = Inr u \<and> flat u [''d'', ''x''] = Some (mode_blob, Blob ''d/x'')"
proof -
  have "utf8_obj sample1" "flat sample1 [''d'', ''x''] = Some (mode_blob, Blob ''2'')"
    "list_all normal_name [''d'', ''x'']" "last [''d'', ''x''] \<noteq> workspace_josh"
    "\<not> is_commit mode_blob" "join_str ''/'' [''d'', ''x''] = ''d/x''" by code_simp+
  then show ?thesis
    using pathstree_spec [OF wf_samples(1)] by fastforce
qed

text \<open>
  C17. Text replacement rewrites every file in place and keeps its mode. The text of a binary
  file (one with a NUL byte, or not UTF-8) is the empty text, so a binary file becomes
  the replacement of the empty text: its content is lost. Gitlinks are dropped.
\<close>

theorem regex_replace_spec:
  assumes "wf_tree t" and "utf8_obj t"
  shows "\<exists>u. regex_replace_inner replace t = Inr u \<and> wf_tree u \<and>
    (\<forall>p. flat u p = Option.bind (flat t p) (\<lambda>x.
       if is_commit (fst x) then None else Some (fst x, Blob (replace (blob_text (snd x)))))) \<and>
    (\<forall>p m b. flat t p = Some (m, Blob b) \<longrightarrow> \<not> is_commit m \<longrightarrow> nul \<in> set b \<or> \<not> valid_utf8 b \<longrightarrow>
       flat u p = Some (m, Blob (replace [])))"
proof -
  obtain u where u: "regex_replace_inner replace t = Inr u" "wf_tree u"
    "\<And>p. flat u p = Option.bind (flat t p) (leaf_at (\<lambda>_ _. ()) (replace_leaf replace) () p)"
    using rr.walk_spec [OF assms, of replace "()"] by blast
  have "flat u p = Option.bind (flat t p) (\<lambda>x.
      if is_commit (fst x) then None else Some (fst x, Blob (replace (blob_text (snd x)))))" for p
    using flat_names [OF assms(1), of p] u(3)
    by (cases "flat t p") (auto simp: leaf_at_const replace_leaf_def)
  with u(1,2) show ?thesis
    by (intro exI [of _ u]) (auto simp: blob_text_def)
qed

theorem regex_replace_spec_witness:
  "\<exists>u. regex_replace_inner (\<lambda>s. s @ ''!'') sample1 = Inr u \<and>
     flat u [''d'', ''x''] = Some (mode_blob, Blob ''2!'')"
proof -
  have "utf8_obj sample1" "flat sample1 [''d'', ''x''] = Some (mode_blob, Blob ''2'')"
    "\<not> is_commit mode_blob" "blob_text (Blob ''2'') = ''2''" by code_simp+
  then show ?thesis
    using regex_replace_spec [OF wf_samples(1), of "\<lambda>s. s @ ''!''"] by auto
qed

text \<open>
  C18. The path line of a stored path is that path, also behind the comment sign of a workspace
  file; but a path that itself starts with a hash sign has the path line of another path.
\<close>

theorem pathline_of_path:
  assumes "newline \<notin> set s" and "s \<noteq> []" and "hd s \<noteq> CHR ''#''"
  shows "pathline s = Inr s \<and> pathline (''#'' @ s @ [newline] @ rest) = Inr s \<and>
    pathline (''#'' @ s) = Inr s"
proof -
  have t: "takeWhile (\<lambda>c. c \<noteq> newline) (s @ newline # rest) = s"
    "takeWhile (\<lambda>c. c \<noteq> newline) s = s"
    using assms(1) by (auto simp: takeWhile_eq_all_conv takeWhile_append)
  have "dropWhile (\<lambda>c. c = CHR ''#'') s = s" using assms(2,3) by (cases s) auto
  moreover have "CHR ''#'' \<noteq> newline" by (simp add: newline_def)
  ultimately show ?thesis using assms(2) by (simp add: pathline_def Let_def t)
qed

theorem pathline_of_path_witness:
  "pathline ''a/b'' = Inr ''a/b'' \<and> pathline ''#a/b'' = Inr ''a/b''"
  using pathline_of_path [of "''a/b''" "[]"] by (simp add: newline_def)

end
