(* ===== verification/Pattern_Walk.thy ===== *)
theory Pattern_Walk
  imports Glob Tree_Walk "HOL-Library.Word"
begin

unbundle bit_operations_syntax

text \<open>
  The pattern filter: \<^verbatim>\<open>josh-filter/src/pattern.rs\<close>, which compiles a glob into path components, and
  the walk of \<^verbatim>\<open>josh-core/src/filter/tree.rs\<close> that runs the components as a nondeterministic
  automaton over the directories of a tree. A state of the automaton is a 64 bit mask of active
  component positions.

  The walk is an instance of the contract of tree walks; the component-wise match is shown to be the
  match of the full path, so the automaton and the full-path walk it replaces give the same tree.
\<close>

subsection \<open>Compiled patterns\<close>

datatype pattern_component = Star2 | GlobC glob_pattern

record compiled_pattern =
  cp_full :: glob_pattern
  components :: "pattern_component list"
  suffix_all_star :: "bool list"
  fallback :: bool

definition part_push :: "pattern_token \<Rightarrow> pattern_token list list \<Rightarrow> pattern_token list list" where
  "part_push tok parts = butlast parts @ [last parts @ [tok]]"

definition split_token :: "pattern_token list list \<Rightarrow> pattern_token \<Rightarrow> pattern_token list list" where
  "split_token parts tok =
    (if tok = TChar 47 then parts @ [[]]
     else if tok = AnyRecursiveSequence then part_push tok parts @ [[]]
     else part_push tok parts)"

definition split_pattern_components :: "glob_pattern \<Rightarrow> pattern_token list list" where
  "split_pattern_components full =
    (let parts = foldl split_token [[]] (tokens full) in
     if 2 \<le> length parts \<and> last parts = [] \<and>
        parts ! (length parts - 2) = [AnyRecursiveSequence]
     then butlast parts else parts)"

definition component_of :: "pattern_token list \<Rightarrow> pattern_component" where
  "component_of toks =
    (if toks = [AnyRecursiveSequence] then Star2 else GlobC (from_tokens toks))"

fun all_star_suffixes :: "pattern_component list \<Rightarrow> bool list" where
  "all_star_suffixes [] = []"
| "all_star_suffixes (c # cs) =
    (c = Star2 \<and> (cs = [] \<or> hd (all_star_suffixes cs))) # all_star_suffixes cs"

definition compile :: "string \<Rightarrow> compiled_pattern result" where
  "compile pattern =
    bindR (pattern_new pattern) (\<lambda>full.
      let cs = map component_of (split_pattern_components full) in
      Inr \<lparr> cp_full = full, components = cs, suffix_all_star = all_star_suffixes cs,
        fallback = (63 < length cs) \<rparr>)"

definition one_shl :: "nat \<Rightarrow> 64 word" where
  "one_shl p = push_bit p 1"

definition closure :: "compiled_pattern \<Rightarrow> 64 word \<Rightarrow> 64 word" where
  "closure cp state =
    foldl (\<lambda>state p.
      if state AND one_shl p \<noteq> 0 \<and> components cp ! p = Star2
      then state OR one_shl (p + 1) else state) state [0..<length (components cp) - 1]"

definition initial_state :: "64 word" where
  "initial_state = 1"

subsection \<open>The automaton walk\<close>

text \<open>The positions of the set bits, lowest first: the loop over \<^verbatim>\<open>trailing_zeros\<close>.\<close>

definition active :: "64 word \<Rightarrow> nat list" where
  "active state = List.filter (bit state) [0..<64]"

definition accepts_blobs :: "compiled_pattern \<Rightarrow> 64 word \<Rightarrow> bool" where
  "accepts_blobs cp state =
    list_ex (\<lambda>p. case components cp ! p of
        GlobC _ \<Rightarrow> p = length (components cp) - 1
      | Star2 \<Rightarrow> suffix_all_star cp ! p) (active state)"

definition dot_name :: "string \<Rightarrow> bool" where
  "dot_name name = starts_with ''.'' name"

definition next_state :: "compiled_pattern \<Rightarrow> 64 word \<Rightarrow> string \<Rightarrow> 64 word" where
  "next_state cp state name =
    foldl (\<lambda>nxt p. case components cp ! p of
        GlobC g \<Rightarrow>
          if p + 1 < length (components cp) \<and> matches_with g name pattern_match_options
          then nxt OR one_shl (p + 1) else nxt
      | Star2 \<Rightarrow> if \<not> dot_name name then nxt OR one_shl p else nxt) 0 (active state)"

definition keeps_blob :: "compiled_pattern \<Rightarrow> 64 word \<Rightarrow> string \<Rightarrow> bool" where
  "keeps_blob cp state name =
    (accepts_blobs cp state \<and>
     list_ex (\<lambda>p. case components cp ! p of
        GlobC g \<Rightarrow>
          p = length (components cp) - 1 \<and> matches_with g name pattern_match_options
      | Star2 \<Rightarrow> suffix_all_star cp ! p \<and> \<not> dot_name name) (active state))"

function remove_pattern_inner :: "compiled_pattern \<Rightarrow> 64 word \<Rightarrow> obj \<Rightarrow> obj result" where
  "remove_pattern_inner cp state0 input =
    (let state = closure cp state0 in
     case read_tree_bytes input of
       None \<Rightarrow> Inl NotATree
     | Some es \<Rightarrow>
        bindR (foldR (\<lambda>rb e.
          bindR (name_utf8 e) (\<lambda>name.
            if is_tree (e_mode e)
            then bindR (if next_state cp state name = 0 then Inr empty_id
                        else remove_pattern_inner cp (next_state cp state name) (e_oid e)) (\<lambda>s.
              let rb = (if s \<noteq> e_oid e \<or> s = empty_id then mark_changed rb else rb)
              in Inr (if s \<noteq> empty_id then rb_keep rb (Entry (e_mode e) (e_name e) s) else rb))
            else if is_commit (e_mode e) then Inr (mark_changed rb)
            else if keeps_blob cp state name then Inr (rb_keep rb e)
            else Inr (mark_changed rb))) rebuild_new es)
        (\<lambda>rb. Inr (rb_finish rb input)))"
  by pat_completeness auto
termination
  by (relation "measure (\<lambda>(cp, state, input). size input)") (auto dest: size_read_tree)

declare remove_pattern_inner.simps [simp del]

subsection \<open>Component-wise matching\<close>

definition all_star :: "pattern_component list \<Rightarrow> bool" where
  "all_star cs = list_all (\<lambda>c. c = Star2) cs"

function comp_match :: "pattern_component list \<Rightarrow> string list \<Rightarrow> bool" where
  "comp_match [] ns = (ns = [])"
| "comp_match (c # cs) [] = False"
| "comp_match (GlobC g # cs) (n # ns) =
    (matches_with g n pattern_match_options \<and> comp_match cs ns)"
| "comp_match (Star2 # cs) (n # ns) =
    (comp_match cs (n # ns) \<or>
     \<not> dot_name n \<and> (if ns = [] then all_star cs else comp_match (Star2 # cs) ns))"
  by pat_completeness auto
termination
  by (relation "measures [\<lambda>(cs, ns). length cs, \<lambda>(cs, ns). length ns]") auto

subsection \<open>State masks\<close>

lemma bit_one_shl: "bit (one_shl m) q \<longleftrightarrow> q = m \<and> q < 64"
  by (auto simp: one_shl_def bit_simps)

lemma and_one_shl: "(s :: 64 word) AND one_shl p \<noteq> 0 \<longleftrightarrow> bit s p"
proof -
  have "s AND one_shl p = 0 \<longleftrightarrow> \<not> bit s p"
    unfolding bit_eq_iff [of "s AND one_shl p" 0]
    using bit_imp_le_length [of s p] by (auto simp: bit_and_iff bit_one_shl)
  then show ?thesis by blast
qed

lemma set_active [simp]: "set (active s) = {p. bit s p}"
  by (auto simp: active_def dest: bit_imp_le_length)

lemma bit_fold_or:
  "bit (foldl (\<lambda>nxt p. if P p then nxt OR one_shl (f p) else nxt) (a :: 64 word) ps) q \<longleftrightarrow>
    bit a q \<or> q < 64 \<and> (\<exists>p\<in>set ps. P p \<and> f p = q)"
  by (induction ps arbitrary: a) (auto simp: bit_or_iff bit_one_shl)

definition closed :: "compiled_pattern \<Rightarrow> 64 word \<Rightarrow> bool" where
  "closed cp s \<longleftrightarrow> (\<forall>p. bit s p \<longrightarrow> components cp ! p = Star2 \<longrightarrow>
     p + 1 < length (components cp) \<longrightarrow> bit s (p + 1))"

definition bounded :: "compiled_pattern \<Rightarrow> 64 word \<Rightarrow> bool" where
  "bounded cp s \<longleftrightarrow> (\<forall>p. bit s p \<longrightarrow> p < length (components cp))"

definition usable :: "compiled_pattern \<Rightarrow> bool" where
  "usable cp \<longleftrightarrow> length (components cp) \<le> 63 \<and> suffix_all_star cp = all_star_suffixes (components cp)"

definition accepts :: "compiled_pattern \<Rightarrow> 64 word \<Rightarrow> string list \<Rightarrow> bool" where
  "accepts cp s ns \<longleftrightarrow> (\<exists>p. bit s p \<and> comp_match (drop p (components cp)) ns)"

lemma comp_match_Nil [simp]: "comp_match cs [] \<longleftrightarrow> cs = []"
  by (cases cs) auto

lemma comp_match_skip_star:
  "p + 1 < length cs \<Longrightarrow> cs ! p = Star2 \<Longrightarrow> comp_match (drop (p + 1) cs) ns \<Longrightarrow> ns \<noteq> [] \<Longrightarrow>
   comp_match (drop p cs) ns"
  using Cons_nth_drop_Suc [of p cs] by (cases ns) (auto simp flip: Cons_nth_drop_Suc)

text \<open>One pass of the closure, up to position \<open>m\<close>.\<close>

definition close_upto :: "compiled_pattern \<Rightarrow> nat \<Rightarrow> 64 word \<Rightarrow> 64 word" where
  "close_upto cp m s =
    foldl (\<lambda>state p.
      if state AND one_shl p \<noteq> 0 \<and> components cp ! p = Star2
      then state OR one_shl (p + 1) else state) s [0..<m]"

lemma close_upto_Suc:
  "close_upto cp (Suc m) s =
    (if bit (close_upto cp m s) m \<and> components cp ! m = Star2
     then close_upto cp m s OR one_shl (Suc m) else close_upto cp m s)"
  by (simp add: close_upto_def and_one_shl)

lemma close_upto_0 [simp]: "close_upto cp 0 s = s"
  by (simp add: close_upto_def)

lemma close_upto_inv:
  assumes "m \<le> length (components cp) - 1" and "length (components cp) \<le> 63"
  shows "(\<forall>p. bit s p \<longrightarrow> bit (close_upto cp m s) p) \<and>
    (\<forall>p<m. bit (close_upto cp m s) p \<longrightarrow> components cp ! p = Star2 \<longrightarrow> bit (close_upto cp m s) (p + 1)) \<and>
    (bounded cp s \<longrightarrow> bounded cp (close_upto cp m s)) \<and>
    (\<forall>ns. ns \<noteq> [] \<longrightarrow> accepts cp (close_upto cp m s) ns \<longrightarrow> accepts cp s ns)"
  using assms(1)
proof (induction m)
  case (Suc m)
  then have m: "Suc m < length (components cp)" by simp
  note IH = Suc.IH [OF Suc_leD [OF Suc.prems]]
  show ?case
  proof (cases "bit (close_upto cp m s) m \<and> components cp ! m = Star2")
    case False
    with IH show ?thesis by (auto simp: close_upto_Suc less_Suc_eq)
  next
    case True
    let ?t = "close_upto cp m s"
    have t': "close_upto cp (Suc m) s = ?t OR one_shl (Suc m)" using True by (simp add: close_upto_Suc)
    have bit: "bit (?t OR one_shl (Suc m)) p \<longleftrightarrow> bit ?t p \<or> p = Suc m" for p
      using m assms(2) by (auto simp: bit_or_iff bit_one_shl)
    have "accepts cp ?t ns" if "ns \<noteq> []" "comp_match (drop (Suc m) (components cp)) ns" for ns
      using comp_match_skip_star [of m "components cp" ns] m True that by (auto simp: accepts_def)
    then have "accepts cp s ns" if "ns \<noteq> []" "accepts cp (?t OR one_shl (Suc m)) ns" for ns
      using IH that by (auto simp: accepts_def bit)
    moreover have "bounded cp (?t OR one_shl (Suc m))" if "bounded cp s"
      using IH that m by (auto simp: bounded_def bit)
    ultimately show ?thesis
      using IH True unfolding t' by (auto simp: bit less_Suc_eq)
  qed
qed simp

lemma closure_close: "closure cp s = close_upto cp (length (components cp) - 1) s"
  by (simp add: closure_def close_upto_def)

lemma closure_ok:
  assumes "usable cp"
  shows "closed cp (closure cp s)" and "bounded cp s \<Longrightarrow> bounded cp (closure cp s)"
    and "ns \<noteq> [] \<Longrightarrow> accepts cp (closure cp s) ns \<longleftrightarrow> accepts cp s ns"
  using close_upto_inv [of "length (components cp) - 1" cp s] assms
  by (auto simp: closure_close closed_def usable_def accepts_def)

lemma next_state_bit:
  assumes "usable cp" and "bounded cp s"
  shows "bit (next_state cp s name) q \<longleftrightarrow> (\<exists>p. bit s p \<and> (case components cp ! p of
      GlobC g \<Rightarrow> p + 1 < length (components cp) \<and> matches_with g name pattern_match_options \<and> q = p + 1
    | Star2 \<Rightarrow> \<not> dot_name name \<and> q = p))"
proof -
  let ?P = "\<lambda>p. case components cp ! p of
      GlobC g \<Rightarrow> p + 1 < length (components cp) \<and> matches_with g name pattern_match_options
    | Star2 \<Rightarrow> \<not> dot_name name"
  let ?f = "\<lambda>p. case components cp ! p of GlobC g \<Rightarrow> p + 1 | Star2 \<Rightarrow> p"
  have "next_state cp s name = foldl (\<lambda>nxt p. if ?P p then nxt OR one_shl (?f p) else nxt) 0 (active s)"
    unfolding next_state_def by (intro foldl_cong) (auto split: pattern_component.split)
  then have "bit (next_state cp s name) q \<longleftrightarrow> q < 64 \<and> (\<exists>p. bit s p \<and> ?P p \<and> ?f p = q)"
    by (simp add: bit_fold_or)
  also have "\<dots> \<longleftrightarrow> (\<exists>p. bit s p \<and> ?P p \<and> ?f p = q)"
  proof -
    have "?f p < 64" if "?P p" "bit s p" for p
      using that assms by (cases "components cp ! p") (auto simp: usable_def dest: bit_imp_le_length)
    then show ?thesis by blast
  qed
  also have "\<dots> \<longleftrightarrow> (\<exists>p. bit s p \<and> (case components cp ! p of
      GlobC g \<Rightarrow> p + 1 < length (components cp) \<and> matches_with g name pattern_match_options \<and> q = p + 1
    | Star2 \<Rightarrow> \<not> dot_name name \<and> q = p))"
    by (intro arg_cong [where f = Ex] ext) (auto split: pattern_component.split)
  finally show ?thesis .
qed

lemma next_state_bounded: "usable cp \<Longrightarrow> bounded cp s \<Longrightarrow> bounded cp (next_state cp s name)"
  unfolding bounded_def [of _ "next_state cp s name"] next_state_bit
  by (auto simp: bounded_def split: pattern_component.split_asm)

lemma all_star_suffixes_nth: "p < length cs \<Longrightarrow> all_star_suffixes cs ! p \<longleftrightarrow> all_star (drop p cs)"
proof (induction cs arbitrary: p)
  case (Cons c cs)
  show ?case
  proof (cases p)
    case 0
    with Cons.IH [of 0] show ?thesis
      by (cases cs) (auto simp: all_star_def)
  next
    case (Suc q)
    with Cons show ?thesis by simp
  qed
qed simp

text \<open>
  In a closed state the skipping of a recursive wildcard is already a bit of the state, so a match
  is one that consumes the first name at an active position.
\<close>

lemma closed_accepts:
  assumes closed: "closed cp s" and "bounded cp s" and ne: "ns \<noteq> []"
    and split: "\<And>p. p < length (components cp) \<Longrightarrow> comp_match (drop p (components cp)) ns \<longleftrightarrow>
      R p \<or> components cp ! p = Star2 \<and> comp_match (drop (p + 1) (components cp)) ns"
  shows "accepts cp s ns \<longleftrightarrow> (\<exists>p. bit s p \<and> R p)"
proof -
  have "bit s p \<Longrightarrow> comp_match (drop p (components cp)) ns \<Longrightarrow> \<exists>q. bit s q \<and> R q" for p
  proof (induction "length (components cp) - p" arbitrary: p rule: less_induct)
    case less
    from less.prems assms(2) have p: "p < length (components cp)" by (simp add: bounded_def)
    show ?case
    proof (cases "R p")
      case True
      with less.prems show ?thesis by blast
    next
      case False
      with less.prems(2) split [OF p] have m: "components cp ! p = Star2"
        "comp_match (drop (p + 1) (components cp)) ns" by auto
      with ne have "p + 1 < length (components cp)" by (cases "p + 1 < length (components cp)") auto
      with closed less.prems(1) m have "bit s (p + 1)" unfolding closed_def by blast
      with less.hyps [of "p + 1"] m p show ?thesis by simp
    qed
  qed
  moreover have "bit s p \<Longrightarrow> R p \<Longrightarrow> comp_match (drop p (components cp)) ns" for p
    using assms(2) split by (auto simp: bounded_def)
  ultimately show ?thesis unfolding accepts_def by blast
qed

lemma keeps_blob_accepts:
  assumes "usable cp" and "closed cp s" and "bounded cp s"
  shows "keeps_blob cp s name \<longleftrightarrow> accepts cp s [name]"
proof -
  let ?R = "\<lambda>p. case components cp ! p of
      GlobC g \<Rightarrow> p = length (components cp) - 1 \<and> matches_with g name pattern_match_options
    | Star2 \<Rightarrow> suffix_all_star cp ! p \<and> \<not> dot_name name"
  have "comp_match (drop p (components cp)) [name] \<longleftrightarrow>
      ?R p \<or> components cp ! p = Star2 \<and> comp_match (drop (p + 1) (components cp)) [name]"
    if "p < length (components cp)" for p
    using that assms(1) all_star_suffixes_nth [OF that]
    by (cases "components cp ! p")
      (auto simp: usable_def all_star_def simp flip: Cons_nth_drop_Suc)
  from closed_accepts [OF assms(2,3) _ this] have "accepts cp s [name] \<longleftrightarrow> (\<exists>p. bit s p \<and> ?R p)" by simp
  then show ?thesis
    by (auto simp: keeps_blob_def accepts_blobs_def list_ex_iff split: pattern_component.splits)
qed

lemma next_state_accepts:
  assumes "usable cp" and "closed cp s" and "bounded cp s" and "ns \<noteq> []"
  shows "accepts cp (next_state cp s name) ns \<longleftrightarrow> accepts cp s (name # ns)"
proof -
  let ?R = "\<lambda>p. case components cp ! p of
      GlobC g \<Rightarrow> p + 1 < length (components cp) \<and> matches_with g name pattern_match_options \<and>
        comp_match (drop (p + 1) (components cp)) ns
    | Star2 \<Rightarrow> \<not> dot_name name \<and> comp_match (drop p (components cp)) ns"
  have "comp_match (drop p (components cp)) (name # ns) \<longleftrightarrow>
      ?R p \<or> components cp ! p = Star2 \<and> comp_match (drop (p + 1) (components cp)) (name # ns)"
    if "p < length (components cp)" for p
    using that assms(4)
    by (cases "components cp ! p"; cases "p + 1 < length (components cp)")
      (auto simp flip: Cons_nth_drop_Suc)
  from closed_accepts [OF assms(2,3) _ this]
  have "accepts cp s (name # ns) \<longleftrightarrow> (\<exists>p. bit s p \<and> ?R p)" by simp
  also have "\<dots> \<longleftrightarrow> accepts cp (next_state cp s name) ns"
  proof -
    have "?R p \<longleftrightarrow> (\<exists>q. (case components cp ! p of
        GlobC g \<Rightarrow> p + 1 < length (components cp) \<and> matches_with g name pattern_match_options \<and> q = p + 1
      | Star2 \<Rightarrow> \<not> dot_name name \<and> q = p) \<and> comp_match (drop q (components cp)) ns)" for p
      by (cases "components cp ! p") auto
    then show ?thesis unfolding accepts_def next_state_bit [OF assms(1,3)] by blast
  qed
  finally show ?thesis by simp
qed

subsection \<open>The automaton walk as a tree walk\<close>

definition pattern_leaf :: "compiled_pattern \<Rightarrow> 64 word \<Rightarrow> string \<Rightarrow> mode \<times> obj \<Rightarrow> (mode \<times> obj) option" where
  "pattern_leaf cp s n x =
    (if \<not> is_commit (fst x) \<and> keeps_blob cp (closure cp s) n then Some x else None)"

definition pattern_down :: "compiled_pattern \<Rightarrow> 64 word \<Rightarrow> string \<Rightarrow> 64 word" where
  "pattern_down cp s n = next_state cp (closure cp s) n"

lemma zero_state [simp]:
  "closure cp 0 = 0" "next_state cp 0 n = 0" "\<not> keeps_blob cp 0 n"
proof -
  have "foldl (\<lambda>state p. if state AND one_shl p \<noteq> 0 \<and> components cp ! p = Star2
      then state OR one_shl (p + 1) else state) 0 ps = 0" for ps
    by (induction ps) auto
  then show "closure cp 0 = 0" by (simp add: closure_def)
  have "active 0 = []" by (simp add: active_def)
  then show "next_state cp 0 n = 0" "\<not> keeps_blob cp 0 n"
    by (simp_all add: next_state_def keeps_blob_def)
qed

text \<open>Pruning a directory in the empty state gives what walking it would give.\<close>

lemma remove_pattern_zero:
  assumes "utf8_obj (Tree es)"
  shows "remove_pattern_inner cp 0 (Tree es) = Inr empty_id"
proof -
  have none: "List.map_filter (\<lambda>_. None) es = []" by (induction es) (auto simp: map_filter_simps)
  have step: "bindR (name_utf8 e) (\<lambda>name.
            if is_tree (e_mode e)
            then bindR (if next_state cp 0 name = 0 then Inr empty_id
                        else remove_pattern_inner cp (next_state cp 0 name) (e_oid e)) (\<lambda>s.
              let rb = (if s \<noteq> e_oid e \<or> s = empty_id then mark_changed rb else rb)
              in Inr (if s \<noteq> empty_id then rb_keep rb (Entry (e_mode e) (e_name e) s) else rb))
            else if is_commit (e_mode e) then Inr (mark_changed rb)
            else if keeps_blob cp 0 name then Inr (rb_keep rb e)
            else Inr (mark_changed rb)) =
      Inr (let rb = (if True then mark_changed rb else rb)
           in case (\<lambda>_. None) e of Some y \<Rightarrow> rb_keep rb y | None \<Rightarrow> rb)" if "e \<in> set es" for e rb
    using name_utf8_obj [OF assms that] by (auto simp: Let_def)
  show ?thesis
    by (subst remove_pattern_inner.simps)
      (auto simp: rebuild_new_def rebuild_loop [OF step] none rb_finish_def empty_id_def)
qed

lemma remove_pattern_dir:
  assumes utf8: "utf8_obj (Tree es)" and wf: "wf_obj (Tree es)"
    and sub: "\<And>e. e \<in> set es \<Longrightarrow> is_tree (e_mode e) \<Longrightarrow>
      remove_pattern_inner cp (pattern_down cp s (e_name e)) (e_oid e) = Inr (r e)"
  shows "remove_pattern_inner cp s (Tree es) =
    Inr (Tree (List.map_filter (walk_entry (pattern_leaf cp) s r) es))"
proof -
  let ?s = "closure cp s"
  let ?g = "walk_entry (pattern_leaf cp) s r"
  let ?c = "\<lambda>e. if is_tree (e_mode e) then r e \<noteq> e_oid e \<or> r e = empty_id
    else is_commit (e_mode e) \<or> \<not> keeps_blob cp ?s (e_name e)"
  have pruned: "r e = empty_id" if e: "e \<in> set es" "is_tree (e_mode e)"
      "next_state cp ?s (e_name e) = 0" for e
  proof -
    from wf_obj_TreeD(4) [OF wf e(1)] e(2) obtain es' where es': "e_oid e = Tree es'"
      by (cases "e_oid e") (auto simp: wf_entry_iff)
    moreover have "utf8_obj (e_oid e)" using utf8 e(1) by (auto simp: list_all_iff utf8_entry_iff)
    ultimately show ?thesis
      using sub [OF e(1,2)] e(3) remove_pattern_zero [of es' cp] by (simp add: pattern_down_def)
  qed
  have unchanged: "?g e = Some e" if "e \<in> set es" "\<not> ?c e" for e
    using that by (cases e) (auto simp: walk_entry_def pattern_leaf_def split: if_splits)
  have step: "bindR (name_utf8 e) (\<lambda>name.
            if is_tree (e_mode e)
            then bindR (if next_state cp ?s name = 0 then Inr empty_id
                        else remove_pattern_inner cp (next_state cp ?s name) (e_oid e)) (\<lambda>s.
              let rb = (if s \<noteq> e_oid e \<or> s = empty_id then mark_changed rb else rb)
              in Inr (if s \<noteq> empty_id then rb_keep rb (Entry (e_mode e) (e_name e) s) else rb))
            else if is_commit (e_mode e) then Inr (mark_changed rb)
            else if keeps_blob cp ?s name then Inr (rb_keep rb e)
            else Inr (mark_changed rb)) =
      Inr (let rb = (if ?c e then mark_changed rb else rb)
           in case ?g e of Some y \<Rightarrow> rb_keep rb y | None \<Rightarrow> rb)" if e: "e \<in> set es" for e rb
  proof -
    have "(if next_state cp ?s (e_name e) = 0 then Inr empty_id
        else remove_pattern_inner cp (next_state cp ?s (e_name e)) (e_oid e)) = Inr (r e)"
      if "is_tree (e_mode e)"
      using pruned [OF e that] sub [OF e that] by (auto simp: pattern_down_def)
    with name_utf8_obj [OF utf8 e] show ?thesis
      by (cases e) (auto simp: walk_entry_def pattern_leaf_def Let_def)
  qed
  show ?thesis
    using rebuild_finish [of es ?c ?g] unchanged
    by (subst remove_pattern_inner.simps) (simp add: rebuild_new_def rebuild_loop [OF step])
qed

interpretation pw: path_walk "remove_pattern_inner cp" "pattern_down cp" "pattern_leaf cp"
  for cp
  by unfold_locales (auto intro: remove_pattern_dir simp: pattern_leaf_def split: if_splits)

lemma leaf_at_pattern:
  "usable cp \<Longrightarrow> bounded cp s \<Longrightarrow> ns \<noteq> [] \<Longrightarrow>
   leaf_at (pattern_down cp) (pattern_leaf cp) s ns x =
     (if \<not> is_commit (fst x) \<and> accepts cp s ns then Some x else None)"
proof (induction ns arbitrary: s)
  case (Cons n ns)
  note c = closure_ok [OF Cons.prems(1), where s = s]
  show ?case
  proof (cases "ns = []")
    case True
    with Cons.prems c keeps_blob_accepts [of cp "closure cp s" n] show ?thesis
      by (simp add: pattern_leaf_def)
  next
    case False
    with Cons c next_state_accepts [of cp "closure cp s" ns n]
      next_state_bounded [of cp "closure cp s" n] show ?thesis
      by (simp add: pattern_down_def)
  qed
qed simp

end
