(* ===== verification/Persist_Write.thy ===== *)
theory Persist_Write
  imports Optimizer Pattern_Walk
begin

text \<open>
  Filters stored as git trees: the writer of \<^verbatim>\<open>josh-filter/src/persist.rs\<close>. The staging store of
  \<^verbatim>\<open>josh-gix-ext\<close> is the list of objects written so far. As objects are modelled by their content, an object
  id is the object itself; whether a store has an object is a predicate. Failures of the disk are left out.
\<close>

subsection \<open>Library functions\<close>

text \<open>
  \<open>regex_new\<close> is whether \<^verbatim>\<open>regex::Regex::new\<close> accepts a text, \<open>json_str\<close> and \<open>oid_of_hex\<close> are the two
  parsers that \<^verbatim>\<open>LazyRef::parse\<close> calls, \<open>hex_of_oid\<close> prints an object id, and \<open>tree_ok\<close> is whether
  \<^verbatim>\<open>gix_object::Tree::write_to\<close> succeeds.
\<close>

record codec =
  regex_new :: "string \<Rightarrow> bool"
  json_str :: "string \<Rightarrow> string option"
  oid_of_hex :: "string \<Rightarrow> string option"
  hex_of_oid :: "obj \<Rightarrow> string"
  tree_ok :: "entry list \<Rightarrow> bool"

definition digit :: "nat \<Rightarrow> char" where
  "digit d = char_of (48 + d)"

fun dec :: "nat \<Rightarrow> string" where
  "dec n = (if n < 10 then [digit n] else dec (n div 10) @ [digit (n mod 10)])"

declare dec.simps [simp del]

subsection \<open>The builder\<close>

record builder =
  pending :: "obj list"
  persist_ids :: "(filt \<times> obj) list"

type_synonym 'a build = "builder \<Rightarrow> 'a result \<times> builder"

definition new_builder :: builder where
  "new_builder = \<lparr> pending = [Blob []], persist_ids = [] \<rparr>"

definition liftB :: "'a result \<Rightarrow> 'a build" where
  "liftB r s = (r, s)"

definition bindB :: "'a build \<Rightarrow> ('a \<Rightarrow> 'b build) \<Rightarrow> 'b build" where
  "bindB m f s = (case m s of (Inl e, s') \<Rightarrow> (Inl e, s') | (Inr x, s') \<Rightarrow> f x s')"

fun mapB :: "('a \<Rightarrow> 'b build) \<Rightarrow> 'a list \<Rightarrow> 'b list build" where
  "mapB f [] = liftB (Inr [])"
| "mapB f (x # xs) = bindB (f x) (\<lambda>y. bindB (mapB f xs) (\<lambda>ys. liftB (Inr (y # ys))))"

definition stage :: "obj \<Rightarrow> obj build" where
  "stage o' s = (Inr o', s\<lparr> pending := o' # pending s \<rparr>)"

definition write_blob :: "string \<Rightarrow> obj build" where
  "write_blob data = (if data = [] then liftB (Inr (Blob [])) else stage (Blob data))"

definition write_tree :: "codec \<Rightarrow> entry list \<Rightarrow> obj build" where
  "write_tree C es =
    (let es = sort_key e_name es in
     if tree_ok C es then stage (Tree es) else liftB (Inl Panic))"

definition node_oid :: "(filt \<Rightarrow> obj result) \<Rightarrow> filt \<Rightarrow> obj build" where
  "node_oid ident f s =
    (case map_of (persist_ids s) f of
       Some o' \<Rightarrow> (Inr o', s)
     | None \<Rightarrow> (ident f, s))"

definition push_blob_entries :: "(string \<times> obj) list \<Rightarrow> entry list" where
  "push_blob_entries items = map (\<lambda>(name, o'). Entry mode_blob name o') items"

definition push_tree_entries :: "(string \<times> obj) list \<Rightarrow> entry list" where
  "push_tree_entries items = map (\<lambda>(name, o'). Entry mode_tree name o') items"

definition numbered :: "'a list \<Rightarrow> (nat \<times> 'a) list" where
  "numbered xs = zip [0..<length xs] xs"

definition build_str_params :: "codec \<Rightarrow> string list \<Rightarrow> obj build" where
  "build_str_params C params =
    bindB (mapB (\<lambda>(i, param). bindB (write_blob param) (\<lambda>o'. liftB (Inr (dec i, o')))) (numbered params))
      (\<lambda>indexed_blobs. write_tree C (push_blob_entries indexed_blobs))"

definition build_filter_params :: "codec \<Rightarrow> (filt \<Rightarrow> obj result) \<Rightarrow> filt list \<Rightarrow> obj build" where
  "build_filter_params C ident params =
    bindB (mapB (\<lambda>(i, f). bindB (node_oid ident f) (\<lambda>child. liftB (Inr (dec i, child)))) (numbered params))
      (\<lambda>items. write_tree C (push_tree_entries items))"

definition build_starlark_params :: "codec \<Rightarrow> (filt \<Rightarrow> obj result) \<Rightarrow> path \<Rightarrow> filt \<Rightarrow> obj build" where
  "build_starlark_params C ident p subfilter =
    bindB (build_str_params C [path_str p]) (\<lambda>path_tree.
    bindB (build_filter_params C ident [subfilter]) (\<lambda>filter_tree.
      write_tree C (push_tree_entries [(''0'', path_tree), (''1'', filter_tree)])))"

text \<open>A text \<^verbatim>\<open>o\<close> and a filter \<^verbatim>\<open>f\<close> under one name.\<close>

definition build_keyed :: "codec \<Rightarrow> (filt \<Rightarrow> obj result) \<Rightarrow> nat \<times> string \<times> filt \<Rightarrow> (string \<times> obj) build" where
  "build_keyed C ident kf =
    (case kf of (i, key, f) \<Rightarrow>
       bindB (write_blob key) (\<lambda>key_blob.
       bindB (node_oid ident f) (\<lambda>filter_tree.
       bindB (write_tree C [Entry mode_blob ''o'' key_blob, Entry mode_tree ''f'' filter_tree]) (\<lambda>inner.
         liftB (Inr (dec i, inner))))))"

fun rev_key :: "rev_match \<Rightarrow> lazy_ref \<Rightarrow> string" where
  "rev_key AncestorStrict r = ''<'' @ lazy_ref_str r"
| "rev_key AncestorInclusive r = ''<='' @ lazy_ref_str r"
| "rev_key EqualRev r = ''=='' @ lazy_ref_str r"
| "rev_key DefaultRev r = ''_''"

definition build_rev_params ::
  "codec \<Rightarrow> (filt \<Rightarrow> obj result) \<Rightarrow> (rev_match \<times> lazy_ref \<times> filt) list \<Rightarrow> obj build" where
  "build_rev_params C ident params =
    bindB (mapB (\<lambda>(i, m, r, f). build_keyed C ident (i, rev_key m r, f)) (numbered params))
      (\<lambda>items. write_tree C (push_tree_entries items))"

definition build_lazyref_filter_params :: "codec \<Rightarrow> (filt \<Rightarrow> obj result) \<Rightarrow> lazy_ref \<Rightarrow> filt \<Rightarrow> obj build" where
  "build_lazyref_filter_params C ident r f =
    bindB (build_keyed C ident (0, lazy_ref_str r, f)) (\<lambda>item. write_tree C (push_tree_entries [item]))"

definition build_squash_params :: "codec \<Rightarrow> (filt \<Rightarrow> obj result) \<Rightarrow> (lazy_ref \<times> filt) list \<Rightarrow> obj build" where
  "build_squash_params C ident params =
    bindB (mapB (\<lambda>(i, r, f). build_keyed C ident (i, lazy_ref_str r, f)) (numbered params))
      (\<lambda>items. write_tree C (push_tree_entries items))"

definition build_regex_replace_params :: "codec \<Rightarrow> (string \<times> string) list \<Rightarrow> obj build" where
  "build_regex_replace_params C replacements =
    bindB (mapB (\<lambda>(i, regex, replacement).
        bindB (write_blob regex) (\<lambda>regex_blob.
        bindB (write_blob replacement) (\<lambda>replacement_blob.
        bindB (write_tree C (push_blob_entries [(''p'', regex_blob), (''r'', replacement_blob)])) (\<lambda>inner.
          liftB (Inr (dec i, inner)))))) (numbered replacements))
      (\<lambda>items. write_tree C (push_tree_entries items))"

text \<open>\<open>src\<close> is the object source of the persist mode.\<close>

definition build_insert_oid :: "codec \<Rightarrow> (obj \<Rightarrow> bool) option \<Rightarrow> path \<Rightarrow> obj \<Rightarrow> obj build" where
  "build_insert_oid C src p o' =
    (case src of
       Some present \<Rightarrow>
         bindB (liftB (if \<not> present o' then Inl NotBlobOrTree
                else case o' of Blob _ \<Rightarrow> Inr mode_blob | Tree _ \<Rightarrow> Inr mode_tree | Other _ \<Rightarrow> Inl NotBlobOrTree)) (\<lambda>mode.
         bindB (write_blob (path_str p)) (\<lambda>path_blob.
           write_tree C [Entry mode_blob ''0'' path_blob, Entry mode ''o'' o']))
     | None \<Rightarrow> build_str_params C [path_str p, ''oid'', hex_of_oid C o'])"

definition build_meta :: "codec \<Rightarrow> (filt \<Rightarrow> obj result) \<Rightarrow> (string \<times> string) list \<Rightarrow> filt \<Rightarrow> obj build" where
  "build_meta C ident meta f =
    bindB (mapB (\<lambda>(key, v). bindB (write_blob v) (\<lambda>value_blob. liftB (Inr (key, value_blob)))) meta) (\<lambda>items.
    bindB (node_oid ident f) (\<lambda>filter_tree.
      write_tree C (push_blob_entries items @ push_tree_entries [(''0'', filter_tree)])))"

definition tree_param :: "codec \<Rightarrow> string \<Rightarrow> obj build \<Rightarrow> obj build" where
  "tree_param C name params = bindB params (\<lambda>t. write_tree C (push_tree_entries [(name, t)]))"

definition blob_param :: "codec \<Rightarrow> string \<Rightarrow> string \<Rightarrow> obj build" where
  "blob_param C name content = bindB (write_blob content) (\<lambda>b. write_tree C (push_blob_entries [(name, b)]))"

definition build_op :: "codec \<Rightarrow> (obj \<Rightarrow> bool) option \<Rightarrow> (filt \<Rightarrow> obj result) \<Rightarrow> filt \<Rightarrow> obj build" where
  "build_op C src ident op =
    (let strs = (\<lambda>name ps. tree_param C name (build_str_params C ps));
         filters = (\<lambda>name fs. tree_param C name (build_filter_params C ident fs)) in
     case op of
       Message fmt regex \<Rightarrow> strs ''message'' [fmt, regex]
     | Author name email \<Rightarrow> strs ''author'' [name, email]
     | Committer name email \<Rightarrow> strs ''committer'' [name, email]
     | Compose fs \<Rightarrow> filters ''compose'' fs
     | Subtract a b \<Rightarrow> filters ''subtract'' [a, b]
     | Chain fs \<Rightarrow> filters ''chain'' fs
     | Exclude b \<Rightarrow> filters ''exclude'' [b]
     | Select b \<Rightarrow> filters ''select'' [b]
     | Pin b \<Rightarrow> filters ''pin'' [b]
     | Subdir p \<Rightarrow> strs ''subdir'' [path_str p]
     | Prefix p \<Rightarrow> strs ''prefix'' [path_str p]
     | Insert p (Inline s) \<Rightarrow> strs ''insert'' [path_str p, ''inline'', s]
     | Insert p (InsOid o') \<Rightarrow> tree_param C ''insert'' (build_insert_oid C src p o')
     | File dst source \<Rightarrow> strs ''file'' [path_str dst, path_str source]
     | Embed p \<Rightarrow> strs ''embed'' [path_str p]
     | Pattern glob \<Rightarrow> strs ''pattern'' [glob]
     | Workspace p \<Rightarrow> strs ''workspace'' [path_str p]
     | Stored p \<Rightarrow> strs ''stored'' [path_str p]
     | Starlark p f \<Rightarrow> tree_param C ''starlark'' (build_starlark_params C ident p f)
     | TreeId p f \<Rightarrow> tree_param C ''treeid'' (build_starlark_params C ident p f)
     | ObjectDeref p \<Rightarrow> strs ''treederef'' [path_str p]
     | ObjectRef p \<Rightarrow> strs ''treeref'' [path_str p]
     | Nop \<Rightarrow> blob_param C ''nop'' []
     | Empty \<Rightarrow> blob_param C ''empty'' []
     | Export \<Rightarrow> blob_param C ''export'' []
     | Paths \<Rightarrow> blob_param C ''paths'' []
     | Link mode \<Rightarrow> strs ''link'' [case mode of Some m \<Rightarrow> link_mode_str m | None \<Rightarrow> []]
     | Adapt mode \<Rightarrow> strs ''adapt'' [mode]
     | Unlink \<Rightarrow> blob_param C ''unlink'' []
     | Invert \<Rightarrow> blob_param C ''invert'' []
     | Index \<Rightarrow> blob_param C ''index'' []
     | Fold \<Rightarrow> blob_param C ''fold'' []
     | Squash None \<Rightarrow> blob_param C ''squash'' []
     | Prune \<Rightarrow> blob_param C ''prune'' ''trivial-merge''
     | Rev arms \<Rightarrow> tree_param C ''rev'' (build_rev_params C ident arms)
     | Unapply r f \<Rightarrow> tree_param C ''unapply'' (build_lazyref_filter_params C ident r f)
     | Squash (Some ids) \<Rightarrow> tree_param C ''squash'' (build_squash_params C ident ids)
     | RegexReplace rs \<Rightarrow> tree_param C ''regex_replace'' (build_regex_replace_params C rs)
     | Hook hook \<Rightarrow> strs ''hook'' [hook]
     | Downstack r \<Rightarrow> strs ''downstack'' [lazy_ref_str r]
     | Meta meta f \<Rightarrow> tree_param C ''meta'' (build_meta C ident meta f))"

fun child_filters :: "filt \<Rightarrow> filt list" where
  "child_filters (Meta m f) = [f]"
| "child_filters (Exclude f) = [f]"
| "child_filters (Select f) = [f]"
| "child_filters (Pin f) = [f]"
| "child_filters (Starlark p f) = [f]"
| "child_filters (TreeId p f) = [f]"
| "child_filters (Unapply r f) = [f]"
| "child_filters (Subtract a b) = [a, b]"
| "child_filters (Compose fs) = fs"
| "child_filters (Chain fs) = fs"
| "child_filters (Rev arms) = map (\<lambda>(m, r, f). f) arms"
| "child_filters (Squash (Some m)) = map snd m"
| "child_filters _ = []"

subsection \<open>Congruence\<close>

lemma mapB_cong [fundef_cong]: "xs = ys \<Longrightarrow> (\<And>x. x \<in> set ys \<Longrightarrow> f x = g x) \<Longrightarrow> mapB f xs = mapB g ys"
  by (induction ys arbitrary: xs) auto

lemma node_oid_cong: "ident f = ident' f \<Longrightarrow> node_oid ident f = node_oid ident' f"
  by (rule ext) (simp add: node_oid_def split: option.split)

lemma set_numbered: "(i, x) \<in> set (numbered xs) \<Longrightarrow> x \<in> set xs"
  by (auto simp: numbered_def dest: set_zip_rightD)

lemma build_filter_params_cong:
  assumes "\<And>f. f \<in> set fs \<Longrightarrow> ident f = ident' f"
  shows "build_filter_params C ident fs = build_filter_params C ident' fs"
proof -
  have "mapB (\<lambda>(i, f). bindB (node_oid ident f) (\<lambda>child. liftB (Inr (dec i, child)))) (numbered fs) =
      mapB (\<lambda>(i, f). bindB (node_oid ident' f) (\<lambda>child. liftB (Inr (dec i, child)))) (numbered fs)"
    by (rule mapB_cong) (auto dest!: set_numbered assms simp: node_oid_cong [of ident _ ident'])
  then show ?thesis by (simp add: build_filter_params_def)
qed

lemma build_keyed_cong: "ident f = ident' f \<Longrightarrow> build_keyed C ident (i, k, f) = build_keyed C ident' (i, k, f)"
  by (simp add: build_keyed_def node_oid_cong [of ident f ident'])

lemma one_child:
  assumes "ident f = ident' f"
  shows "build_starlark_params C ident p f = build_starlark_params C ident' p f"
    "build_meta C ident m f = build_meta C ident' m f"
    "build_lazyref_filter_params C ident r f = build_lazyref_filter_params C ident' r f"
  using build_filter_params_cong [of "[f]" ident ident' C] node_oid_cong [of ident f ident'] build_keyed_cong [of ident f ident'] assms
  by (simp_all add: build_starlark_params_def build_meta_def build_lazyref_filter_params_def)

lemma build_op_cong [fundef_cong]:
  assumes "f = f'" and "\<And>g. g \<in> set (child_filters f') \<Longrightarrow> ident g = ident' g"
  shows "build_op C src ident f = build_op C src ident' f'"
proof (cases "\<exists>arms. f' = Rev arms")
  case True
  then obtain arms where f: "f' = Rev arms" ..
  have "build_keyed C ident (i, rev_key m r, g) = build_keyed C ident' (i, rev_key m r, g)"
    if "(i, m, r, g) \<in> set (numbered arms)" for i m r g
    using set_numbered [OF that] assms(2) f by (intro build_keyed_cong) force
  then have "mapB (\<lambda>(i, m, r, g). build_keyed C ident (i, rev_key m r, g)) (numbered arms) =
      mapB (\<lambda>(i, m, r, g). build_keyed C ident' (i, rev_key m r, g)) (numbered arms)"
    by (intro mapB_cong) auto
  then show ?thesis using f assms(1) by (simp add: build_op_def build_rev_params_def)
next
  case rev: False
  show ?thesis
  proof (cases "\<exists>ids. f' = Squash (Some ids)")
    case True
    then obtain ids where f: "f' = Squash (Some ids)" ..
    have "build_keyed C ident (i, lazy_ref_str r, g) = build_keyed C ident' (i, lazy_ref_str r, g)"
      if "(i, r, g) \<in> set (numbered ids)" for i r g
      using set_numbered [OF that] assms(2) f by (intro build_keyed_cong) force
    then have "mapB (\<lambda>(i, r, g). build_keyed C ident (i, lazy_ref_str r, g)) (numbered ids) =
        mapB (\<lambda>(i, r, g). build_keyed C ident' (i, lazy_ref_str r, g)) (numbered ids)"
      by (intro mapB_cong) auto
    then show ?thesis using f assms(1) by (simp add: build_op_def build_squash_params_def)
  next
    case False
    have "build_filter_params C ident (child_filters f') = build_filter_params C ident' (child_filters f')"
      using assms(2) by (rule build_filter_params_cong)
    then show ?thesis unfolding assms(1) using False rev assms(2)
      by (cases f' rule: child_filters.cases) (simp_all add: build_op_def Let_def one_child [of ident _ ident'])
  qed
qed

lemma nodes_child: "g \<in> set (child_filters f) \<Longrightarrow> nodes g < nodes f"
proof (cases f rule: child_filters.cases)
  case (11 arms)
  assume "g \<in> set (child_filters f)"
  then have "nodes g \<in> set (map (\<lambda>arm. nodes (snd (snd arm))) arms)" using 11 by force
  from member_le_sum_list [OF this] show ?thesis using 11 by simp
next
  case (12 m)
  assume "g \<in> set (child_filters f)"
  then have "nodes g \<in> set (map (\<lambda>kv. nodes (snd kv)) m)" using 12 by force
  from member_le_sum_list [OF this] show ?thesis using 12 by simp
qed (auto simp: less_Suc_eq_le intro!: member_le_sum_list)

subsection \<open>Identity and persistence\<close>

text \<open>\<^verbatim>\<open>Filter::id\<close> through \<^verbatim>\<open>build_node_oid\<close>; a failure is the panic of its \<^verbatim>\<open>expect\<close>.\<close>

function filter_id :: "codec \<Rightarrow> filt \<Rightarrow> obj result" where
  "filter_id C f = (case fst (build_op C None (filter_id C) f new_builder) of Inr o' \<Rightarrow> Inr o' | Inl _ \<Rightarrow> Inl Panic)"
  by pat_completeness auto
termination by (relation "measure (\<lambda>(_, f). nodes f)") (auto intro: nodes_child)

declare filter_id.simps [simp del]

function build_persist :: "codec \<Rightarrow> (obj \<Rightarrow> bool) \<Rightarrow> filt \<Rightarrow> obj build" where
  "build_persist C present f = (\<lambda>s.
    case map_of (persist_ids s) f of
      Some o' \<Rightarrow> (Inr o', s)
    | None \<Rightarrow>
        bindB (mapB (\<lambda>child.
            bindB (build_persist C present child) (\<lambda>child_oid.
            bindB (liftB (filter_id C child)) (\<lambda>child_id.
              liftB (Inr (child_oid \<noteq> child_id))))) (child_filters f)) (\<lambda>changed.
        let dirty = (case f of Insert _ (InsOid _) \<Rightarrow> True | _ \<Rightarrow> False) \<or> True \<in> set changed in
        bindB (if dirty then build_op C (Some present) (filter_id C) f
               else bindB (liftB (filter_id C f)) (\<lambda>o'.
                 if present o' then liftB (Inr o')
                 else bindB (build_op C (Some present) (filter_id C) f) (\<lambda>_. liftB (Inr o')))) (\<lambda>o' s.
          (Inr o', s\<lparr> persist_ids := (f, o') # persist_ids s \<rparr>))) s)"
  by pat_completeness auto
termination by (relation "measure (\<lambda>(_, _, f). nodes f)") (auto intro: nodes_child)

declare build_persist.simps [simp del]

text \<open>\<^verbatim>\<open>StagingOdb::flush\<close> into the store, as the list of its objects.\<close>

definition flush :: "builder \<Rightarrow> obj list \<Rightarrow> obj list" where
  "flush s store = List.filter (\<lambda>o'. o' \<notin> set store) (remdups (pending s)) @ store"

definition as_tree :: "codec \<Rightarrow> nat \<Rightarrow> filt \<Rightarrow> obj list \<Rightarrow> (obj result \<times> obj list) option" where
  "as_tree C n f store =
    map_option (\<lambda>g.
      case build_persist C (\<lambda>o'. o' \<in> set store) g new_builder of
        (Inl e, _) \<Rightarrow> (Inl e, store)
      | (Inr root, s) \<Rightarrow> (Inr root, flush s store)) (optimize n f)"

end
