(* ===== verification/Persist_Read.thy ===== *)
theory Persist_Read
  imports Persist_Write Filter_Walk
begin

text \<open>
  Reading a stored filter: \<^verbatim>\<open>from_tree2\<close> of \<^verbatim>\<open>josh-filter/src/persist.rs\<close>, one definition per kind of filter.
  \<open>present\<close> tells which objects the source has, and \<open>rec\<close> stands for the recursive call.
\<close>

subsection \<open>Stored trees and blobs\<close>

definition read_tree :: "(obj \<Rightarrow> bool) \<Rightarrow> obj \<Rightarrow> entry list result" where
  "read_tree present o' =
    (if \<not> present o' then Inl (Failed ''object not found'')
     else case o' of Tree es \<Rightarrow> Inr es | _ \<Rightarrow> Inl NotATree)"

definition read_blob :: "(obj \<Rightarrow> bool) \<Rightarrow> obj \<Rightarrow> string result" where
  "read_blob present o' =
    (if \<not> present o' then Inl (Failed ''object not found'')
     else case o' of Blob data \<Rightarrow> Inr data | _ \<Rightarrow> Inl NotABlob)"

definition get_name :: "entry list \<Rightarrow> string \<Rightarrow> entry option" where
  "get_name es name = find (\<lambda>e. e_name e = name) es"

definition named :: "entry list \<Rightarrow> string \<Rightarrow> string \<Rightarrow> obj result" where
  "named es name context = bindR (of_option (MissingEntry context) (get_name es name)) (\<lambda>e. Inr (e_oid e))"

definition named_blob :: "(obj \<Rightarrow> bool) \<Rightarrow> entry list \<Rightarrow> string \<Rightarrow> string \<Rightarrow> string result" where
  "named_blob present es name context = bindR (named es name context) (read_blob present)"

text \<open>The parameter \<^verbatim>\<open>0\<close>, and the parameters \<^verbatim>\<open>0\<close> and \<^verbatim>\<open>1\<close>, as texts.\<close>

definition one_param :: "(obj \<Rightarrow> bool) \<Rightarrow> obj \<Rightarrow> string \<Rightarrow> string result" where
  "one_param present o' context =
    bindR (read_tree present o') (\<lambda>inner.
    bindR (named_blob present inner ''0'' context) from_utf8)"

definition two_params :: "(obj \<Rightarrow> bool) \<Rightarrow> obj \<Rightarrow> string \<Rightarrow> string \<Rightarrow> (string \<times> string) result" where
  "two_params present o' context0 context1 =
    bindR (read_tree present o') (\<lambda>inner.
    bindR (named_blob present inner ''0'' context0) (\<lambda>a.
    bindR (named_blob present inner ''1'' context1) (\<lambda>b.
    bindR (from_utf8 a) (\<lambda>a.
    bindR (from_utf8 b) (\<lambda>b. Inr (a, b))))))"

subsection \<open>Filters without children\<close>

definition read_marker :: "(obj \<Rightarrow> bool) \<Rightarrow> filt \<Rightarrow> obj \<Rightarrow> filt result" where
  "read_marker present f o' = bindR (read_blob present o') (\<lambda>_. Inr f)"

definition read_path :: "(obj \<Rightarrow> bool) \<Rightarrow> (path \<Rightarrow> filt) \<Rightarrow> string \<Rightarrow> obj \<Rightarrow> filt result" where
  "read_path present op context o' = bindR (one_param present o' context) (\<lambda>s. Inr (op (path_of_string s)))"

definition read_link :: "(obj \<Rightarrow> bool) \<Rightarrow> obj \<Rightarrow> filt result" where
  "read_link present o' =
    bindR (one_param present o' ''link: missing mode'') (\<lambda>mode_str.
      if mode_str = [] then Inr (Link None)
      else bindR (link_mode_parse mode_str) (\<lambda>m. Inr (Link (Some m))))"

definition read_adapt :: "(obj \<Rightarrow> bool) \<Rightarrow> obj \<Rightarrow> filt result" where
  "read_adapt present o' = bindR (one_param present o' ''adapt: missing mode'') (\<lambda>s. Inr (Adapt s))"

definition read_prune :: "(obj \<Rightarrow> bool) \<Rightarrow> obj \<Rightarrow> filt result" where
  "read_prune present o' =
    bindR (read_blob present o') (\<lambda>content.
    bindR (from_utf8 content) (\<lambda>content. if content = ''trivial-merge'' then Inr Prune else Inl InvalidPrune))"

definition read_hook :: "(obj \<Rightarrow> bool) \<Rightarrow> obj \<Rightarrow> filt result" where
  "read_hook present o' = bindR (one_param present o' ''hook: missing hook name'') (\<lambda>s. Inr (Hook s))"

definition read_author :: "(obj \<Rightarrow> bool) \<Rightarrow> obj \<Rightarrow> filt result" where
  "read_author present o' =
    bindR (two_params present o' ''author: missing name'' ''author: missing email'') (\<lambda>(a, b). Inr (Author a b))"

definition read_committer :: "(obj \<Rightarrow> bool) \<Rightarrow> obj \<Rightarrow> filt result" where
  "read_committer present o' =
    bindR (two_params present o' ''committer: missing name'' ''committer: missing email'') (\<lambda>(a, b). Inr (Committer a b))"

definition read_message :: "codec \<Rightarrow> (obj \<Rightarrow> bool) \<Rightarrow> obj \<Rightarrow> filt result" where
  "read_message C present o' =
    bindR (two_params present o' ''message: missing fmt string'' ''message: missing regex'') (\<lambda>(fmt, regex).
      if regex_new C regex then Inr (Message fmt regex) else Inl InvalidRegex)"

definition read_insert :: "(obj \<Rightarrow> bool) \<Rightarrow> obj \<Rightarrow> filt result" where
  "read_insert present o' =
    bindR (read_tree present o') (\<lambda>inner.
    bindR (named_blob present inner ''0'' ''insert: missing path'') (\<lambda>p.
    bindR (from_utf8 p) (\<lambda>p.
      case get_name inner ''o'' of
        Some e \<Rightarrow> Inr (Insert (path_of_string p) (InsOid (e_oid e)))
      | None \<Rightarrow>
          bindR (named_blob present inner ''1'' ''insert: missing kind'') (\<lambda>kind.
          bindR (named_blob present inner ''2'' ''insert: missing value'') (\<lambda>v.
          bindR (from_utf8 kind) (\<lambda>kind.
          bindR (from_utf8 v) (\<lambda>v.
            if kind = ''inline'' then Inr (Insert (path_of_string p) (Inline v)) else Inl InvalidContentKind)))))))"

definition read_file :: "(obj \<Rightarrow> bool) \<Rightarrow> obj \<Rightarrow> filt result" where
  "read_file present o' =
    bindR (two_params present o' ''file: missing destination path'' ''file: missing source path'')
      (\<lambda>(dst, source). Inr (File (path_of_string dst) (path_of_string source)))"

definition read_pattern :: "(obj \<Rightarrow> bool) \<Rightarrow> obj \<Rightarrow> filt result" where
  "read_pattern present o' =
    bindR (one_param present o' ''pattern: missing pattern'') (\<lambda>glob.
    bindR (compile glob) (\<lambda>_. Inr (Pattern glob)))"

definition read_regex_entry :: "codec \<Rightarrow> (obj \<Rightarrow> bool) \<Rightarrow> entry \<Rightarrow> (string \<times> string) result" where
  "read_regex_entry C present e =
    bindR (read_tree present (e_oid e)) (\<lambda>inner.
    bindR (named_blob present inner ''p'' ''regex_replace: missing pattern'') (\<lambda>regex.
    bindR (named_blob present inner ''r'' ''regex_replace: missing replacement'') (\<lambda>replacement.
    bindR (from_utf8 regex) (\<lambda>regex.
    bindR (from_utf8 replacement) (\<lambda>replacement.
      if regex_new C regex then Inr (regex, replacement) else Inl InvalidRegex)))))"

definition read_regex_replace :: "codec \<Rightarrow> (obj \<Rightarrow> bool) \<Rightarrow> obj \<Rightarrow> filt result" where
  "read_regex_replace C present o' =
    bindR (read_tree present o') (\<lambda>es.
    bindR (mapR (read_regex_entry C present) es) (\<lambda>rs. Inr (RegexReplace rs)))"

abbreviation parse_ref :: "codec \<Rightarrow> string \<Rightarrow> lazy_ref result" where
  "parse_ref C \<equiv> lazy_ref_parse (json_str C) (oid_of_hex C)"

definition read_downstack :: "codec \<Rightarrow> (obj \<Rightarrow> bool) \<Rightarrow> obj \<Rightarrow> filt result" where
  "read_downstack C present o' =
    bindR (one_param present o' ''downstack: missing base ref'') (\<lambda>key.
    bindR (parse_ref C key) (\<lambda>r. Inr (Downstack r)))"

subsection \<open>Filters with children\<close>

definition read_child :: "(obj \<Rightarrow> bool) \<Rightarrow> (obj \<Rightarrow> filt result) \<Rightarrow> obj \<Rightarrow> filt result" where
  "read_child present rec o' = bindR (read_tree present o') (\<lambda>_. rec o')"

text \<open>\<^verbatim>\<open>starlark\<close> and \<^verbatim>\<open>treeid\<close>.\<close>

definition read_scripted ::
  "(obj \<Rightarrow> bool) \<Rightarrow> (obj \<Rightarrow> filt result) \<Rightarrow> (path \<Rightarrow> filt \<Rightarrow> filt) \<Rightarrow> string \<Rightarrow> obj \<Rightarrow> filt result" where
  "read_scripted present rec op name o' =
    bindR (read_tree present o') (\<lambda>inner.
    bindR (named inner ''0'' (name @ '': missing path'')) (\<lambda>path_tree.
    bindR (read_tree present path_tree) (\<lambda>path_entries.
    bindR (named_blob present path_entries ''0'' (name @ '': missing path blob'')) (\<lambda>p.
    bindR (from_utf8 p) (\<lambda>p.
    bindR (named inner ''1'' (name @ '': missing filter'')) (\<lambda>filter_tree.
    bindR (read_child present rec filter_tree) (\<lambda>f.
      Inr (op (path_of_string p) f))))))))"

definition read_compose :: "(obj \<Rightarrow> bool) \<Rightarrow> (obj \<Rightarrow> filt result) \<Rightarrow> obj \<Rightarrow> filt result" where
  "read_compose present rec o' =
    bindR (read_tree present o') (\<lambda>es.
    bindR (mapR (\<lambda>e. read_child present rec (e_oid e)) es) (\<lambda>fs. Inr (Compose fs)))"

definition read_subtract :: "(obj \<Rightarrow> bool) \<Rightarrow> (obj \<Rightarrow> filt result) \<Rightarrow> obj \<Rightarrow> filt result" where
  "read_subtract present rec o' =
    bindR (read_tree present o') (\<lambda>es.
      if length es = 2 then
        bindR (named es ''0'' ''subtract: missing 0'') (\<lambda>a_tree.
        bindR (read_tree present a_tree) (\<lambda>_.
        bindR (named es ''1'' ''subtract: missing 1'') (\<lambda>b_tree.
        bindR (read_tree present b_tree) (\<lambda>_.
        bindR (rec a_tree) (\<lambda>a.
        bindR (rec b_tree) (\<lambda>b. Inr (Subtract a b)))))))
      else Inl WrongArity)"

definition read_chain :: "(obj \<Rightarrow> bool) \<Rightarrow> (obj \<Rightarrow> filt result) \<Rightarrow> obj \<Rightarrow> filt result" where
  "read_chain present rec o' =
    bindR (read_tree present o') (\<lambda>es.
      if es \<noteq> [] then
        bindR (mapR (\<lambda>i. bindR (named es (dec i) (''chain: missing '' @ dec i)) (read_child present rec)) [0..<length es])
          (\<lambda>fs. Inr (Chain fs))
      else Inl WrongArity)"

text \<open>\<^verbatim>\<open>exclude\<close>, \<^verbatim>\<open>select\<close> and \<^verbatim>\<open>pin\<close>.\<close>

definition read_single ::
  "(obj \<Rightarrow> bool) \<Rightarrow> (obj \<Rightarrow> filt result) \<Rightarrow> (filt \<Rightarrow> filt) \<Rightarrow> string \<Rightarrow> obj \<Rightarrow> filt result" where
  "read_single present rec op name o' =
    bindR (read_tree present o') (\<lambda>es.
      if length es = 1 then
        bindR (named es ''0'' (name @ '': missing 0'')) (\<lambda>filter_tree.
        bindR (read_child present rec filter_tree) (\<lambda>f. Inr (op f)))
      else Inl WrongArity)"

definition zero_hex :: string where
  "zero_hex = replicate 40 CHR ''0''"

definition parse_rev_key :: "codec \<Rightarrow> string \<Rightarrow> (rev_match \<times> lazy_ref) result" where
  "parse_rev_key C key =
    (if key = ''_'' then Inr (DefaultRev, Resolved zero_hex)
     else if prefix ''<='' key then bindR (parse_ref C (drop 2 key)) (\<lambda>r. Inr (AncestorInclusive, r))
     else if prefix ''<'' key then bindR (parse_ref C (drop 1 key)) (\<lambda>r. Inr (AncestorStrict, r))
     else if prefix ''=='' key then bindR (parse_ref C (drop 2 key)) (\<lambda>r. Inr (EqualRev, r))
     else Inl InvalidRef)"

definition read_rev_entry ::
  "codec \<Rightarrow> (obj \<Rightarrow> bool) \<Rightarrow> (obj \<Rightarrow> filt result) \<Rightarrow> obj \<Rightarrow> (rev_match \<times> lazy_ref \<times> filt) result" where
  "read_rev_entry C present rec o' =
    bindR (read_tree present o') (\<lambda>inner.
    bindR (named_blob present inner ''o'' ''rev: missing key'') (\<lambda>key.
    bindR (named inner ''f'' ''rev: missing filter'') (\<lambda>filter_tree.
    bindR (read_tree present filter_tree) (\<lambda>_.
    bindR (from_utf8 key) (\<lambda>key.
    bindR (parse_rev_key C key) (\<lambda>(m, r).
    bindR (rec filter_tree) (\<lambda>f. Inr (m, r, f))))))))"

definition read_rev :: "codec \<Rightarrow> (obj \<Rightarrow> bool) \<Rightarrow> (obj \<Rightarrow> filt result) \<Rightarrow> obj \<Rightarrow> filt result" where
  "read_rev C present rec o' =
    bindR (read_tree present o') (\<lambda>es.
    bindR (mapR (\<lambda>i. bindR (named es (dec i) ''rev: missing entry'') (read_rev_entry C present rec)) [0..<length es])
      (\<lambda>arms. Inr (Rev arms)))"

definition read_keyed ::
  "codec \<Rightarrow> (obj \<Rightarrow> bool) \<Rightarrow> (obj \<Rightarrow> filt result) \<Rightarrow> string \<Rightarrow> obj \<Rightarrow> (lazy_ref \<times> filt) result" where
  "read_keyed C present rec name o' =
    bindR (read_tree present o') (\<lambda>inner.
    bindR (named_blob present inner ''o'' (name @ '': missing key'')) (\<lambda>key.
    bindR (named inner ''f'' (name @ '': missing filter'')) (\<lambda>filter_tree.
    bindR (read_tree present filter_tree) (\<lambda>_.
    bindR (from_utf8 key) (\<lambda>key.
    bindR (rec filter_tree) (\<lambda>f.
    bindR (parse_ref C key) (\<lambda>r. Inr (r, f))))))))"

definition read_unapply :: "codec \<Rightarrow> (obj \<Rightarrow> bool) \<Rightarrow> (obj \<Rightarrow> filt result) \<Rightarrow> obj \<Rightarrow> filt result" where
  "read_unapply C present rec o' =
    bindR (read_tree present o') (\<lambda>es.
      case es of
        [] \<Rightarrow> Inl (MissingEntry ''concat: missing entry'')
      | e # _ \<Rightarrow> bindR (read_keyed C present rec ''concat'' (e_oid e)) (\<lambda>(r, f). Inr (Unapply r f)))"

definition read_squash :: "codec \<Rightarrow> (obj \<Rightarrow> bool) \<Rightarrow> (obj \<Rightarrow> filt result) \<Rightarrow> mode \<Rightarrow> obj \<Rightarrow> filt result" where
  "read_squash C present rec mode o' =
    (if \<not> is_tree mode then bindR (read_blob present o') (\<lambda>_. Inr (Squash None))
     else bindR (read_tree present o') (\<lambda>es.
       bindR (mapR (\<lambda>e. read_keyed C present rec ''squash'' (e_oid e)) es) (\<lambda>kvs. Inr (Squash (Some (bt_of_list kvs))))))"

definition read_meta_entry :: "(obj \<Rightarrow> bool) \<Rightarrow> entry \<Rightarrow> (string \<times> string) option result" where
  "read_meta_entry present e =
    bindR (from_utf8 (e_name e)) (\<lambda>key.
      if key = ''0'' then Inr None
      else bindR (read_blob present (e_oid e)) (\<lambda>v.
        bindR (from_utf8 v) (\<lambda>v. Inr (Some (key, v)))))"

definition read_meta :: "(obj \<Rightarrow> bool) \<Rightarrow> (obj \<Rightarrow> filt result) \<Rightarrow> obj \<Rightarrow> filt result" where
  "read_meta present rec o' =
    bindR (read_tree present o') (\<lambda>es.
    bindR (named es ''0'' ''meta: missing filter tree'') (\<lambda>filter_tree.
    bindR (read_tree present filter_tree) (\<lambda>_.
    bindR (mapR (read_meta_entry present) es) (\<lambda>kvs.
    bindR (rec filter_tree) (\<lambda>f.
      Inr (Meta (bt_of_list (List.map_filter id kvs)) f))))))"

text \<open>The match on the name of the entry.\<close>

definition read_entry ::
  "codec \<Rightarrow> (obj \<Rightarrow> bool) \<Rightarrow> (obj \<Rightarrow> filt result) \<Rightarrow> string \<Rightarrow> mode \<Rightarrow> obj \<Rightarrow> filt result" where
  "read_entry C present rec name mode o' =
    (if name = ''nop'' then read_marker present Nop o'
     else if name = ''empty'' then read_marker present Empty o'
     else if name = ''paths'' then read_marker present Paths o'
     else if name = ''export'' then read_marker present Export o'
     else if name = ''link'' then read_link present o'
     else if name = ''adapt'' then read_adapt present o'
     else if name = ''unlink'' then read_marker present Unlink o'
     else if name = ''invert'' then read_marker present Invert o'
     else if name = ''index'' then read_marker present Index o'
     else if name = ''fold'' then read_marker present Fold o'
     else if name = ''prune'' then read_prune present o'
     else if name = ''hook'' then read_hook present o'
     else if name = ''author'' then read_author present o'
     else if name = ''committer'' then read_committer present o'
     else if name = ''message'' then read_message C present o'
     else if name = ''subdir'' then read_path present Subdir ''subdir: missing path'' o'
     else if name = ''prefix'' then read_path present Prefix ''prefix: missing path'' o'
     else if name = ''insert'' then read_insert present o'
     else if name = ''file'' then read_file present o'
     else if name = ''embed'' then read_path present Embed ''embed: missing path'' o'
     else if name = ''pattern'' then read_pattern present o'
     else if name = ''workspace'' then read_path present Workspace ''workspace: missing path'' o'
     else if name = ''stored'' then read_path present Stored ''stored: missing path'' o'
     else if name = ''starlark'' then read_scripted present rec Starlark ''starlark'' o'
     else if name = ''treederef'' then read_path present ObjectDeref ''treederef: missing path'' o'
     else if name = ''treeref'' then read_path present ObjectRef ''treeref: missing path'' o'
     else if name = ''treeid'' then read_scripted present rec TreeId ''treeid'' o'
     else if name = ''compose'' then read_compose present rec o'
     else if name = ''subtract'' then read_subtract present rec o'
     else if name = ''chain'' then read_chain present rec o'
     else if name = ''exclude'' then read_single present rec Exclude ''exclude'' o'
     else if name = ''select'' then read_single present rec Select ''select'' o'
     else if name = ''pin'' then read_single present rec Pin ''pin'' o'
     else if name = ''rev'' then read_rev C present rec o'
     else if name = ''unapply'' then read_unapply C present rec o'
     else if name = ''squash'' then read_squash C present rec mode o'
     else if name = ''regex_replace'' then read_regex_replace C present o'
     else if name = ''downstack'' then read_downstack C present o'
     else if name = ''meta'' then read_meta present rec o'
     else Inl UnknownStructure)"

definition read_op :: "codec \<Rightarrow> (obj \<Rightarrow> bool) \<Rightarrow> (obj \<Rightarrow> filt result) \<Rightarrow> obj \<Rightarrow> filt result" where
  "read_op C present rec tree =
    bindR (read_tree present tree) (\<lambda>es.
      case es of
        [] \<Rightarrow> Inl (Failed ''Empty tree'')
      | e # _ \<Rightarrow>
         bindR (from_utf8 (e_name e)) (\<lambda>name. read_entry C present rec name (e_mode e) (e_oid e)))"

subsection \<open>The recursion\<close>

lemma size_entry: "e \<in> set es \<Longrightarrow> size (e_oid e) < size (Tree es)"
proof (induction es)
  case (Cons e' es)
  have "size (e_oid e') < size e'" by (cases e') simp
  then show ?case using Cons by auto
qed simp

lemma read_tree_size: "read_tree present o' = Inr es \<Longrightarrow> e \<in> set es \<Longrightarrow> size (e_oid e) < size o'"
  using size_entry [of e es] by (auto simp: read_tree_def split: if_splits obj.splits)

lemma get_name_in: "get_name es name = Some e \<Longrightarrow> e \<in> set es"
  by (auto simp: get_name_def find_Some_iff)

lemma named_size: "read_tree present o' = Inr es \<Longrightarrow> named es name context = Inr t \<Longrightarrow> size t < size o'"
  by (auto simp: named_def of_option_def dest: get_name_in read_tree_size split: option.splits)

lemma head_size: "read_tree present o' = Inr (e # es) \<Longrightarrow> size (e_oid e) < size o'"
  by (simp add: read_tree_size)

lemma child_cong: "rec t = rec' t \<Longrightarrow> read_child present rec t = read_child present rec' t"
  by (simp add: read_child_def)

lemma entry_cong:
  assumes "\<And>t'. size t' < size t \<Longrightarrow> rec t' = rec' t'"
  shows "read_keyed C present rec n t = read_keyed C present rec' n t"
    "read_rev_entry C present rec t = read_rev_entry C present rec' t"
  unfolding read_keyed_def read_rev_entry_def
  by (auto intro!: bindR_cong assms dest: named_size split: prod.split)

lemma arm_cong:
  assumes "\<And>t'. size t' < size t \<Longrightarrow> rec t' = rec' t'"
  shows "read_scripted present rec op n t = read_scripted present rec' op n t"
    "read_compose present rec t = read_compose present rec' t"
    "read_subtract present rec t = read_subtract present rec' t"
    "read_chain present rec t = read_chain present rec' t"
    "read_single present rec f1 n t = read_single present rec' f1 n t"
    "read_rev C present rec t = read_rev C present rec' t"
    "read_unapply C present rec t = read_unapply C present rec' t"
    "read_squash C present rec m t = read_squash C present rec' m t"
    "read_meta present rec t = read_meta present rec' t"
  unfolding read_scripted_def read_compose_def read_subtract_def read_chain_def read_single_def read_rev_def
    read_unapply_def read_squash_def read_meta_def
  by (auto intro!: bindR_cong mapR_cong child_cong entry_cong assms split: list.split
    dest: named_size read_tree_size intro: less_trans [OF _ head_size] less_trans [OF _ read_tree_size] less_trans [OF _ named_size])

lemma read_op_cong [fundef_cong]:
  assumes "tree = tree'" and "\<And>t. size t < size tree' \<Longrightarrow> rec t = rec' t"
  shows "read_op C present rec tree = read_op C present rec' tree'"
proof (cases "read_tree present tree'")
  case (Inr es)
  show ?thesis
  proof (cases es)
    case (Cons e es')
    then have "size (e_oid e) < size tree'" using Inr head_size by auto
    then have "rec t = rec' t" if "size t < size (e_oid e)" for t using assms(2) that by simp
    note arms = arm_cong [of "e_oid e" rec rec', OF this]
    show ?thesis unfolding assms(1) read_op_def Inr bindR_simps Cons list.case read_entry_def
      by (rule bindR_cong) (simp_all only: arms)
  qed (simp add: assms(1) read_op_def Inr)
qed (simp add: assms(1) read_op_def)

function from_tree2 :: "codec \<Rightarrow> (obj \<Rightarrow> bool) \<Rightarrow> obj \<Rightarrow> filt result" where
  "from_tree2 C present tree = read_op C present (from_tree2 C present) tree"
  by pat_completeness auto
termination by (relation "measure (\<lambda>(_, _, t). size t)") auto

declare from_tree2.simps [simp del]

definition filter_from_tree :: "codec \<Rightarrow> (obj \<Rightarrow> bool) \<Rightarrow> obj \<Rightarrow> filt result" where
  "filter_from_tree C present tree = from_tree2 C present tree"

end
