(* ===== verification/Persist_Format.thy ===== *)
theory Persist_Format
  imports Persist_Read
begin

text \<open>
  The format of a stored filter, and that the writer produces it. \<open>enc\<close> is the tree of one operator, given the
  trees of the filters below it; \<open>stored_form\<close> puts these together for a whole filter.
\<close>

subsection \<open>The format\<close>

definition sorted_tree :: "entry list \<Rightarrow> obj" where
  "sorted_tree es = Tree (sort_key e_name es)"

definition str_tree :: "string list \<Rightarrow> obj" where
  "str_tree ps = sorted_tree (map (\<lambda>(i, p). Entry mode_blob (dec i) (Blob p)) (numbered ps))"

definition obj_tree :: "obj list \<Rightarrow> obj" where
  "obj_tree os = sorted_tree (map (\<lambda>(i, o'). Entry mode_tree (dec i) o') (numbered os))"

definition keyed :: "string \<Rightarrow> obj \<Rightarrow> obj" where
  "keyed key o' = sorted_tree [Entry mode_blob ''o'' (Blob key), Entry mode_tree ''f'' o']"

definition tagged :: "string \<Rightarrow> obj \<Rightarrow> obj" where
  "tagged name t = Tree [Entry mode_tree name t]"

definition marker :: "string \<Rightarrow> string \<Rightarrow> obj" where
  "marker name content = Tree [Entry mode_blob name (Blob content)]"

definition obj_mode :: "obj \<Rightarrow> mode" where
  "obj_mode o' = (case o' of Tree _ \<Rightarrow> mode_tree | _ \<Rightarrow> mode_blob)"

fun enc :: "codec \<Rightarrow> bool \<Rightarrow> (filt \<Rightarrow> obj) \<Rightarrow> filt \<Rightarrow> obj" where
  "enc C direct ch (Message fmt regex) = tagged ''message'' (str_tree [fmt, regex])"
| "enc C direct ch (Author a e) = tagged ''author'' (str_tree [a, e])"
| "enc C direct ch (Committer a e) = tagged ''committer'' (str_tree [a, e])"
| "enc C direct ch (Compose fs) = tagged ''compose'' (obj_tree (map ch fs))"
| "enc C direct ch (Subtract a b) = tagged ''subtract'' (obj_tree [ch a, ch b])"
| "enc C direct ch (Chain fs) = tagged ''chain'' (obj_tree (map ch fs))"
| "enc C direct ch (Exclude b) = tagged ''exclude'' (obj_tree [ch b])"
| "enc C direct ch (Select b) = tagged ''select'' (obj_tree [ch b])"
| "enc C direct ch (Pin b) = tagged ''pin'' (obj_tree [ch b])"
| "enc C direct ch (Subdir p) = tagged ''subdir'' (str_tree [path_str p])"
| "enc C direct ch (Prefix p) = tagged ''prefix'' (str_tree [path_str p])"
| "enc C direct ch (Insert p (Inline s)) = tagged ''insert'' (str_tree [path_str p, ''inline'', s])"
| "enc C direct ch (Insert p (InsOid o')) = tagged ''insert''
    (if direct then sorted_tree [Entry mode_blob ''0'' (Blob (path_str p)), Entry (obj_mode o') ''o'' o']
     else str_tree [path_str p, ''oid'', hex_of_oid C o'])"
| "enc C direct ch (File dst source) = tagged ''file'' (str_tree [path_str dst, path_str source])"
| "enc C direct ch (Embed p) = tagged ''embed'' (str_tree [path_str p])"
| "enc C direct ch (Pattern glob) = tagged ''pattern'' (str_tree [glob])"
| "enc C direct ch (Workspace p) = tagged ''workspace'' (str_tree [path_str p])"
| "enc C direct ch (Stored p) = tagged ''stored'' (str_tree [path_str p])"
| "enc C direct ch (Starlark p f) = tagged ''starlark'' (obj_tree [str_tree [path_str p], obj_tree [ch f]])"
| "enc C direct ch (TreeId p f) = tagged ''treeid'' (obj_tree [str_tree [path_str p], obj_tree [ch f]])"
| "enc C direct ch (ObjectDeref p) = tagged ''treederef'' (str_tree [path_str p])"
| "enc C direct ch (ObjectRef p) = tagged ''treeref'' (str_tree [path_str p])"
| "enc C direct ch Nop = marker ''nop'' []"
| "enc C direct ch Empty = marker ''empty'' []"
| "enc C direct ch Export = marker ''export'' []"
| "enc C direct ch Paths = marker ''paths'' []"
| "enc C direct ch (Link mode) =
    tagged ''link'' (str_tree [case mode of Some m \<Rightarrow> link_mode_str m | None \<Rightarrow> []])"
| "enc C direct ch (Adapt mode) = tagged ''adapt'' (str_tree [mode])"
| "enc C direct ch Unlink = marker ''unlink'' []"
| "enc C direct ch Invert = marker ''invert'' []"
| "enc C direct ch Index = marker ''index'' []"
| "enc C direct ch Fold = marker ''fold'' []"
| "enc C direct ch (Squash None) = marker ''squash'' []"
| "enc C direct ch Prune = marker ''prune'' ''trivial-merge''"
| "enc C direct ch (Rev arms) = tagged ''rev'' (obj_tree (map (\<lambda>(m, r, f). keyed (rev_key m r) (ch f)) arms))"
| "enc C direct ch (Unapply r f) = tagged ''unapply'' (obj_tree [keyed (lazy_ref_str r) (ch f)])"
| "enc C direct ch (Squash (Some ids)) =
    tagged ''squash'' (obj_tree (map (\<lambda>(r, f). keyed (lazy_ref_str r) (ch f)) ids))"
| "enc C direct ch (RegexReplace rs) =
    tagged ''regex_replace'' (obj_tree (map (\<lambda>(regex, replacement).
      sorted_tree [Entry mode_blob ''p'' (Blob regex), Entry mode_blob ''r'' (Blob replacement)]) rs))"
| "enc C direct ch (Hook hook) = tagged ''hook'' (str_tree [hook])"
| "enc C direct ch (Downstack r) = tagged ''downstack'' (str_tree [lazy_ref_str r])"
| "enc C direct ch (Meta meta f) = tagged ''meta''
    (sorted_tree (map (\<lambda>(key, v). Entry mode_blob key (Blob v)) meta @ [Entry mode_tree ''0'' (ch f)]))"

lemma enc_cong [fundef_cong]:
  assumes "f = f'" and "\<And>g. g \<in> set (child_filters f') \<Longrightarrow> ch g = ch' g"
  shows "enc C direct ch f = enc C direct ch' f'"
proof -
  have arm: "ch g = ch' g" if "f' = Rev arms" "(m, r, g) \<in> set arms" for arms m r g
    using assms(2) [of g] that by force
  have kv: "ch g = ch' g" if "f' = Squash (Some ids)" "(r, g) \<in> set ids" for ids r g
    using assms(2) [of g] that by force
  show ?thesis
  proof (cases f')
    case (Squash ids)
    then show ?thesis unfolding assms(1) using kv by (cases ids) (auto intro!: arg_cong [of _ _ "tagged _"] arg_cong [of _ _ obj_tree])
  next
    case (Insert p c)
    then show ?thesis unfolding assms(1) by (cases c) simp_all
  next
    case (Rev arms)
    then show ?thesis unfolding assms(1) using arm by (auto intro!: arg_cong [of _ _ "tagged _"] arg_cong [of _ _ obj_tree])
  qed (use assms in \<open>simp_all cong: map_cong\<close>)
qed

function stored_form :: "codec \<Rightarrow> bool \<Rightarrow> filt \<Rightarrow> obj" where
  "stored_form C direct f = enc C direct (stored_form C direct) f"
  by pat_completeness auto
termination by (relation "measure (\<lambda>(_, _, f). nodes f)") (auto intro: nodes_child)

declare stored_form.simps [simp del]

subsection \<open>What a computation of the builder writes\<close>

text \<open>
  \<open>makes P K m x V\<close>: with the table \<open>P\<close> of persisted filters, \<open>m\<close> returns \<open>x\<close> and stages objects
  such that every entry of a staged tree is staged too or is in \<open>K\<close>, and the objects \<open>V\<close> are then available.
\<close>

definition makes :: "(filt \<times> obj) list \<Rightarrow> obj set \<Rightarrow> 'a build \<Rightarrow> 'a \<Rightarrow> obj set \<Rightarrow> bool" where
  "makes P K m x V \<longleftrightarrow>
    (\<exists>W. (\<forall>s. persist_ids s = P \<longrightarrow>
            (\<exists>s'. m s = (Inr x, s') \<and> persist_ids s' = P \<and> set (pending s') = W \<union> set (pending s))) \<and>
      (\<forall>es e. Tree es \<in> W \<longrightarrow> e \<in> set es \<longrightarrow> e_oid e \<in> W \<union> K) \<and> V \<subseteq> W \<union> K)"

named_theorems making

lemma makes_lift [making]: "makes P K (liftB (Inr x)) x {}"
  unfolding makes_def by (rule exI [of _ "{}"]) (simp add: liftB_def)

lemma makes_bind [making]:
  assumes "makes P K m x V" "makes P (K \<union> V) (f x) y V'"
  shows "makes P K (bindB m f) y (V \<union> V')"
proof -
  obtain W where W: "\<And>s. persist_ids s = P \<Longrightarrow>
      \<exists>s'. m s = (Inr x, s') \<and> persist_ids s' = P \<and> set (pending s') = W \<union> set (pending s)"
    "\<And>es e. Tree es \<in> W \<Longrightarrow> e \<in> set es \<Longrightarrow> e_oid e \<in> W \<union> K" "V \<subseteq> W \<union> K"
    using assms(1) unfolding makes_def by blast
  obtain W' where W': "\<And>s. persist_ids s = P \<Longrightarrow>
      \<exists>s'. f x s = (Inr y, s') \<and> persist_ids s' = P \<and> set (pending s') = W' \<union> set (pending s)"
    "\<And>es e. Tree es \<in> W' \<Longrightarrow> e \<in> set es \<Longrightarrow> e_oid e \<in> W' \<union> (K \<union> V)" "V' \<subseteq> W' \<union> (K \<union> V)"
    using assms(2) unfolding makes_def by blast
  have "\<exists>s'. bindB m f s = (Inr y, s') \<and> persist_ids s' = P \<and> set (pending s') = W \<union> W' \<union> set (pending s)"
    if s: "persist_ids s = P" for s
  proof -
    from W(1) [OF s] obtain s1 where 1: "m s = (Inr x, s1)" "persist_ids s1 = P" "set (pending s1) = W \<union> set (pending s)" by blast
    from W'(1) [OF 1(2)] obtain s2 where "f x s1 = (Inr y, s2)" "persist_ids s2 = P" "set (pending s2) = W' \<union> set (pending s1)" by blast
    then show ?thesis using 1 by (auto simp: bindB_def)
  qed
  then show ?thesis unfolding makes_def using W(2,3) W'(2,3) by (intro exI [of _ "W \<union> W'"]) blast
qed

lemma makes_mono: "makes P K m x V \<Longrightarrow> K \<subseteq> K' \<Longrightarrow> makes P K' m x V"
  unfolding makes_def by blast

lemma makes_weaken: "makes P K m x V \<Longrightarrow> V' \<subseteq> V \<Longrightarrow> makes P K m x V'"
  unfolding makes_def by blast

lemma makes_last: "makes P K m x V \<Longrightarrow> makes P (K \<union> V) (f x) y V' \<Longrightarrow> makes P K (bindB m f) y V'"
  by (rule makes_weaken [OF makes_bind]) auto

lemma makes_mapB:
  assumes "list_all2 (\<lambda>a b. makes P K (f a) b (V b)) xs ys"
  shows "makes P K (mapB f xs) ys (\<Union>b \<in> set ys. V b)"
  using assms
proof (induction rule: list_all2_induct)
  case Nil
  show ?case by (simp add: makes_lift)
next
  case (Cons x xs y ys)
  have "makes P (K \<union> V y) (mapB f xs) ys (\<Union>b \<in> set ys. V b)" using makes_mono [OF Cons.IH] by blast
  then have "makes P (K \<union> V y) (bindB (mapB f xs) (\<lambda>ys. liftB (Inr (y # ys)))) (y # ys) (\<Union>b \<in> set ys. V b)"
    using makes_bind [of P "K \<union> V y" "mapB f xs" ys _ "\<lambda>ys. liftB (Inr (y # ys))", OF _ makes_lift] by simp
  from makes_bind [OF Cons.hyps(1), of "\<lambda>y. bindB (mapB f xs) (\<lambda>ys. liftB (Inr (y # ys)))", OF this]
  show ?case by simp
qed

lemma makes_write_blob: "Blob [] \<in> K \<Longrightarrow> makes P K (write_blob d) (Blob d) {Blob d}"
  unfolding makes_def write_blob_def
  by (intro exI [of _ "if d = [] then {} else {Blob d}"]) (simp add: liftB_def stage_def)

lemma makes_write_tree:
  assumes "tree_ok C (sort_key e_name es)" "\<And>e. e \<in> set es \<Longrightarrow> e_oid e \<in> K"
  shows "makes P K (write_tree C es) (sorted_tree es) {sorted_tree es}"
  unfolding makes_def write_tree_def sorted_tree_def
  using assms by (intro exI [of _ "{Tree (sort_key e_name es)}"]) (auto simp: stage_def)

lemma makes_node_oid:
  assumes "(case map_of P f of Some o' \<Rightarrow> o' = x | None \<Rightarrow> ident f = Inr x)" "x \<in> K"
  shows "makes P K (node_oid ident f) x {x}"
  unfolding makes_def node_oid_def
  using assms by (intro exI [of _ "{}"]) (auto split: option.splits)

subsection \<open>Names of entries\<close>

definition names_plain :: "codec \<Rightarrow> bool" where
  "names_plain C \<longleftrightarrow> (\<forall>es. (\<forall>e \<in> set es. CHR 0x00 \<notin> set (e_name e)) \<longrightarrow> tree_ok C es)"

lemma names_plainD: "names_plain C \<Longrightarrow> (\<And>e. e \<in> set es \<Longrightarrow> CHR 0x00 \<notin> set (e_name e)) \<Longrightarrow> tree_ok C (sort_key e_name es)"
  unfolding names_plain_def by simp

lemma digit_plain: "d < 10 \<Longrightarrow> digit d \<noteq> CHR 0x00"
proof -
  assume "d < 10"
  then have "of_char (digit d) = 48 + d" by (simp add: digit_def of_char_of)
  then show ?thesis by auto
qed

lemma dec_plain [simp]: "CHR 0x00 \<notin> set (dec n)"
proof (induction n rule: dec.induct)
  case (1 n)
  have "CHR 0x00 \<noteq> digit (n mod 10)" by (rule digit_plain [THEN not_sym]) simp
  moreover have "n < 10 \<Longrightarrow> CHR 0x00 \<noteq> digit n" by (rule digit_plain [THEN not_sym])
  ultimately show ?case using 1 by (cases "n < 10") (simp_all add: dec.simps [of n])
qed

subsection \<open>The writer produces the format\<close>

lemma dec_small: "dec 0 = ''0''" "dec (Suc 0) = ''1''" "dec 2 = ''2''"
  by code_simp+

lemma bindB_simps [simp]: "bindB (liftB (Inr x)) f = f x" "bindB (liftB (Inl e)) f = liftB (Inl e)"
  by (simp_all add: bindB_def liftB_def fun_eq_iff)

lemma bindB_assoc: "bindB (bindB m f) g = bindB m (\<lambda>x. bindB (f x) g)"
  by (rule ext) (simp add: bindB_def split: prod.split sum.split)

definition child_ok :: "(filt \<times> obj) list \<Rightarrow> obj set \<Rightarrow> (filt \<Rightarrow> obj result) \<Rightarrow> (filt \<Rightarrow> obj) \<Rightarrow> filt \<Rightarrow> bool" where
  "child_ok P K ident ch f \<longleftrightarrow>
    (case map_of P f of Some o' \<Rightarrow> o' = ch f | None \<Rightarrow> ident f = Inr (ch f)) \<and> ch f \<in> K"

lemma makes_child: "child_ok P K ident ch f \<Longrightarrow> makes P K (node_oid ident f) (ch f) {ch f}"
  unfolding child_ok_def by (rule makes_node_oid) auto

lemma child_ok_mono: "child_ok P K ident ch f \<Longrightarrow> K \<subseteq> K' \<Longrightarrow> child_ok P K' ident ch f"
  unfolding child_ok_def by blast

lemma makes_entries:
  assumes C: "names_plain C" and "list_all2 (\<lambda>a y. makes P K (f a) y {snd y}) xs ys"
    and push: "push ys = map (\<lambda>(n, o'). Entry m n o') ys" and "\<And>y. y \<in> set ys \<Longrightarrow> CHR 0x00 \<notin> set (fst y)"
  shows "makes P K (bindB (mapB f xs) (\<lambda>ys. write_tree C (push ys))) (sorted_tree (push ys)) {sorted_tree (push ys)}"
proof (rule makes_last)
  show "makes P K (mapB f xs) ys (\<Union>y \<in> set ys. {snd y})" by (rule makes_mapB) (rule assms(2))
  show "makes P (K \<union> (\<Union>y \<in> set ys. {snd y})) (write_tree C (push ys)) (sorted_tree (push ys)) {sorted_tree (push ys)}"
    using assms(4) by (intro makes_write_tree names_plainD [OF C]) (force simp: push)+
qed

lemma numbered_map: "numbered (map g xs) = map (\<lambda>(i, x). (i, g x)) (numbered xs)"
  by (simp add: numbered_def zip_map2)

lemma list_all2_map_self: "list_all2 Q xs (map g xs) \<longleftrightarrow> (\<forall>x \<in> set xs. Q x (g x))"
  by (simp add: list.rel_map list.rel_refl_strong list_all2_same)

lemma makes_str:
  assumes "names_plain C" "Blob [] \<in> K"
  shows "makes P K (build_str_params C ps) (str_tree ps) {str_tree ps}"
proof -
  let ?ys = "map (\<lambda>(i, p). (dec i, Blob p)) (numbered ps)"
  have eq: "str_tree ps = sorted_tree (push_blob_entries ?ys)"
    by (simp add: str_tree_def push_blob_entries_def comp_def case_prod_unfold)
  moreover have "makes P K (bindB (write_blob p) (\<lambda>o'. liftB (Inr (dec i, o')))) (dec i, Blob p) {Blob p}" for i p
    using makes_bind [OF makes_write_blob [OF assms(2)] makes_lift] by simp
  ultimately show ?thesis unfolding build_str_params_def eq
    by (intro makes_entries [OF assms(1), where m = mode_blob]) (auto simp: list_all2_map_self push_blob_entries_def)
qed

lemma makes_filters:
  assumes "names_plain C" "\<And>f. f \<in> set fs \<Longrightarrow> child_ok P K ident ch f"
  shows "makes P K (build_filter_params C ident fs) (obj_tree (map ch fs)) {obj_tree (map ch fs)}"
proof -
  let ?ys = "map (\<lambda>(i, f). (dec i, ch f)) (numbered fs)"
  have eq: "obj_tree (map ch fs) = sorted_tree (push_tree_entries ?ys)"
    by (simp add: obj_tree_def push_tree_entries_def comp_def case_prod_unfold numbered_map)
  moreover have "makes P K (bindB (node_oid ident f) (\<lambda>o'. liftB (Inr (dec i, o')))) (dec i, ch f) {ch f}"
    if "(i, f) \<in> set (numbered fs)" for i f
    using makes_bind [OF makes_child [OF assms(2)] makes_lift] set_numbered [OF that] by simp
  ultimately show ?thesis unfolding build_filter_params_def eq
    by (intro makes_entries [OF assms(1), where m = mode_tree]) (auto simp: list_all2_map_self push_tree_entries_def)
qed

lemma makes_keyed:
  assumes "names_plain C" "Blob [] \<in> K" "child_ok P K ident ch f"
  shows "makes P K (build_keyed C ident (i, key, f)) (dec i, keyed key (ch f)) {keyed key (ch f)}"
  unfolding build_keyed_def prod.case keyed_def
proof (rule makes_last [OF makes_write_blob [OF assms(2)]], rule makes_last [OF makes_child])
  let ?K = "K \<union> {Blob key} \<union> {ch f}"
  let ?es = "[Entry mode_blob ''o'' (Blob key), Entry mode_tree ''f'' (ch f)]"
  show "child_ok P (K \<union> {Blob key}) ident ch f" by (rule child_ok_mono [OF assms(3)]) blast
  have "makes P ?K (write_tree C ?es) (sorted_tree ?es) {sorted_tree ?es}"
    by (intro makes_write_tree names_plainD [OF assms(1)]) auto
  from makes_bind [OF this makes_lift]
  show "makes P ?K (bindB (write_tree C ?es) (\<lambda>inner. liftB (Inr (dec i, inner)))) (dec i, sorted_tree ?es) {sorted_tree ?es}"
    by simp
qed

lemma makes_keyed_list:
  assumes C: "names_plain C" "Blob [] \<in> K" and "\<And>x. x \<in> set xs \<Longrightarrow> child_ok P K ident ch (fil x)"
  shows "makes P K (bindB (mapB (\<lambda>(i, x). build_keyed C ident (i, key x, fil x)) (numbered xs)) (\<lambda>items. write_tree C (push_tree_entries items)))
    (obj_tree (map (\<lambda>x. keyed (key x) (ch (fil x))) xs)) {obj_tree (map (\<lambda>x. keyed (key x) (ch (fil x))) xs)}"
proof -
  let ?ys = "map (\<lambda>(i, x). (dec i, keyed (key x) (ch (fil x)))) (numbered xs)"
  have eq: "obj_tree (map (\<lambda>x. keyed (key x) (ch (fil x))) xs) = sorted_tree (push_tree_entries ?ys)"
    by (simp add: obj_tree_def push_tree_entries_def comp_def case_prod_unfold numbered_map)
  moreover have "makes P K (build_keyed C ident (i, key x, fil x)) (dec i, keyed (key x) (ch (fil x))) {keyed (key x) (ch (fil x))}"
    if "(i, x) \<in> set (numbered xs)" for i x
    using makes_keyed [OF C assms(3)] set_numbered [OF that] by simp
  ultimately show ?thesis unfolding eq
    by (intro makes_entries [OF C(1), where m = mode_tree]) (auto simp: list_all2_map_self push_tree_entries_def)
qed

lemma makes_tagged:
  assumes "names_plain C" "makes P K m t {t}" "CHR 0x00 \<notin> set name"
  shows "makes P K (tree_param C name m) (tagged name t) {tagged name t}"
  unfolding tree_param_def
proof (rule makes_last [OF assms(2)])
  have "tagged name t = sorted_tree [Entry mode_tree name t]" by (simp add: tagged_def sorted_tree_def)
  then show "makes P (K \<union> {t}) (write_tree C (push_tree_entries [(name, t)])) (tagged name t) {tagged name t}"
    using makes_write_tree [of C "[Entry mode_tree name t]"] names_plainD [OF assms(1), of "[Entry mode_tree name t]"] assms(3)
    by (simp add: push_tree_entries_def)
qed

lemma makes_marker:
  assumes "names_plain C" "Blob [] \<in> K" "CHR 0x00 \<notin> set name"
  shows "makes P K (blob_param C name content) (marker name content) {marker name content}"
  unfolding blob_param_def
proof (rule makes_last [OF makes_write_blob [OF assms(2)]])
  have "marker name content = sorted_tree [Entry mode_blob name (Blob content)]" by (simp add: marker_def sorted_tree_def)
  then show "makes P (K \<union> {Blob content}) (write_tree C (push_blob_entries [(name, Blob content)])) (marker name content) {marker name content}"
    using makes_write_tree [of C "[Entry mode_blob name (Blob content)]"] names_plainD [OF assms(1), of "[Entry mode_blob name (Blob content)]"] assms(3)
    by (simp add: push_blob_entries_def)
qed


text \<open>What the writer needs of one operator: metadata keys that can name an entry, and inserted objects that exist.\<close>

fun writable :: "(obj \<Rightarrow> bool) option \<Rightarrow> filt \<Rightarrow> bool" where
  "writable src (Meta meta f) = (\<forall>kv \<in> set meta. CHR 0x00 \<notin> set (fst kv))"
| "writable (Some present) (Insert p (InsOid o')) = (present o' \<and> (case o' of Other _ \<Rightarrow> False | _ \<Rightarrow> True))"
| "writable src f = True"

lemma makes_starlark:
  assumes C: "names_plain C" "Blob [] \<in> K" and "child_ok P K ident ch f"
  shows "makes P K (build_starlark_params C ident p f) (obj_tree [str_tree [path_str p], obj_tree [ch f]])
    {obj_tree [str_tree [path_str p], obj_tree [ch f]]}"
  unfolding build_starlark_params_def
proof (rule makes_last [OF makes_str [OF C]], rule makes_last [where x = "obj_tree [ch f]" and V = "{obj_tree [ch f]}"])
  let ?K = "K \<union> {str_tree [path_str p]}"
  show "makes P ?K (build_filter_params C ident [f]) (obj_tree [ch f]) {obj_tree [ch f]}"
    using makes_filters [OF C(1), of "[f]" P ?K ident ch] child_ok_mono [OF assms(3), of ?K] by (simp add: subset_insertI)
  let ?es = "[Entry mode_tree ''0'' (str_tree [path_str p]), Entry mode_tree ''1'' (obj_tree [ch f])]"
  have "obj_tree [str_tree [path_str p], obj_tree [ch f]] = sorted_tree ?es"
    by (simp add: obj_tree_def numbered_def dec_small)
  moreover have "makes P (?K \<union> {obj_tree [ch f]}) (write_tree C ?es) (sorted_tree ?es) {sorted_tree ?es}"
    by (intro makes_write_tree names_plainD [OF C(1)]) auto
  ultimately show "makes P (?K \<union> {obj_tree [ch f]})
      (write_tree C (push_tree_entries [(''0'', str_tree [path_str p]), (''1'', obj_tree [ch f])]))
      (obj_tree [str_tree [path_str p], obj_tree [ch f]]) {obj_tree [str_tree [path_str p], obj_tree [ch f]]}"
    by (simp add: push_tree_entries_def)
qed

lemma makes_regex:
  assumes C: "names_plain C" "Blob [] \<in> K"
  shows "makes P K (build_regex_replace_params C rs)
    (obj_tree (map (\<lambda>(a, b). sorted_tree [Entry mode_blob ''p'' (Blob a), Entry mode_blob ''r'' (Blob b)]) rs))
    {obj_tree (map (\<lambda>(a, b). sorted_tree [Entry mode_blob ''p'' (Blob a), Entry mode_blob ''r'' (Blob b)]) rs)}"
proof -
  let ?t = "\<lambda>(a, b). sorted_tree [Entry mode_blob ''p'' (Blob a), Entry mode_blob ''r'' (Blob b)]"
  let ?ys = "map (\<lambda>(i, ab). (dec i, ?t ab)) (numbered rs)"
  have eq: "obj_tree (map ?t rs) = sorted_tree (push_tree_entries ?ys)"
    by (simp add: obj_tree_def push_tree_entries_def comp_def case_prod_unfold numbered_map)
  have item: "makes P K (bindB (write_blob a) (\<lambda>ab. bindB (write_blob b) (\<lambda>bb.
      bindB (write_tree C (push_blob_entries [(''p'', ab), (''r'', bb)])) (\<lambda>inner. liftB (Inr (dec i, inner))))))
      (dec i, ?t (a, b)) {?t (a, b)}" for i a b
  proof (rule makes_last [OF makes_write_blob [OF C(2)]], rule makes_last [OF makes_write_blob])
    let ?es = "[Entry mode_blob ''p'' (Blob a), Entry mode_blob ''r'' (Blob b)]"
    show "Blob [] \<in> K \<union> {Blob a}" using C(2) by simp
    have "makes P (K \<union> {Blob a} \<union> {Blob b}) (write_tree C ?es) (sorted_tree ?es) {sorted_tree ?es}"
      by (intro makes_write_tree names_plainD [OF C(1)]) auto
    from makes_bind [OF this makes_lift, of "\<lambda>inner. (dec i, inner)"]
    show "makes P (K \<union> {Blob a} \<union> {Blob b}) (bindB (write_tree C (push_blob_entries [(''p'', Blob a), (''r'', Blob b)]))
      (\<lambda>inner. liftB (Inr (dec i, inner)))) (dec i, ?t (a, b)) {?t (a, b)}" by (simp add: push_blob_entries_def)
  qed
  show ?thesis unfolding build_regex_replace_params_def eq
    by (intro makes_entries [OF C(1), where m = mode_tree])
      (use item in \<open>auto simp: list_all2_map_self push_tree_entries_def\<close>)
qed

lemma makes_meta:
  assumes C: "names_plain C" "Blob [] \<in> K" and f: "child_ok P K ident ch f"
    and "\<And>kv. kv \<in> set meta \<Longrightarrow> CHR 0x00 \<notin> set (fst kv)"
  shows "makes P K (build_meta C ident meta f)
    (sorted_tree (map (\<lambda>(key, v). Entry mode_blob key (Blob v)) meta @ [Entry mode_tree ''0'' (ch f)]))
    {sorted_tree (map (\<lambda>(key, v). Entry mode_blob key (Blob v)) meta @ [Entry mode_tree ''0'' (ch f)])}"
  unfolding build_meta_def
proof (rule makes_last [OF makes_mapB [where ys = "map (\<lambda>(k, v). (k, Blob v)) meta" and V = "\<lambda>y. {snd y}"]], unfold list_all2_map_self, safe)
  show "makes P K (bindB (write_blob v) (\<lambda>b. liftB (Inr (k, b)))) (k, Blob v) {snd (k, Blob v)}" for k v
    using makes_bind [OF makes_write_blob [OF C(2)] makes_lift] by simp
  let ?K = "K \<union> (\<Union>y \<in> set (map (\<lambda>(k, v). (k, Blob v)) meta). {snd y})"
  let ?es = "map (\<lambda>(key, v). Entry mode_blob key (Blob v)) meta @ [Entry mode_tree ''0'' (ch f)]"
  show "makes P ?K (bindB (node_oid ident f) (\<lambda>t.
      write_tree C (push_blob_entries (map (\<lambda>(k, v). (k, Blob v)) meta) @ push_tree_entries [(''0'', t)])))
      (sorted_tree ?es) {sorted_tree ?es}"
  proof (rule makes_last [OF makes_child [OF child_ok_mono [OF f]]])
    have "push_blob_entries (map (\<lambda>(k, v). (k, Blob v)) meta) @ push_tree_entries [(''0'', ch f)] = ?es"
      by (simp add: push_blob_entries_def push_tree_entries_def comp_def case_prod_unfold)
    moreover have "makes P (?K \<union> {ch f}) (write_tree C ?es) (sorted_tree ?es) {sorted_tree ?es}"
      using assms(4) by (intro makes_write_tree names_plainD [OF C(1)]) (force, force)
    ultimately show "makes P (?K \<union> {ch f}) (write_tree C (push_blob_entries (map (\<lambda>(k, v). (k, Blob v)) meta) @ push_tree_entries [(''0'', ch f)]))
      (sorted_tree ?es) {sorted_tree ?es}" by simp
  qed auto
qed


lemma makes_insert_oid:
  assumes C: "names_plain C" "Blob [] \<in> K" and "writable src (Insert p (InsOid o'))" "src \<noteq> None \<Longrightarrow> o' \<in> K"
  shows "makes P K (tree_param C ''insert'' (build_insert_oid C src p o')) (enc C (src \<noteq> None) ch (Insert p (InsOid o')))
    {enc C (src \<noteq> None) ch (Insert p (InsOid o'))}"
proof (cases src)
  case None
  then show ?thesis by (auto simp: build_insert_oid_def intro!: makes_tagged makes_str C)
next
  case (Some present)
  let ?es = "[Entry mode_blob ''0'' (Blob (path_str p)), Entry (obj_mode o') ''o'' o']"
  have "makes P (K \<union> {Blob (path_str p)}) (write_tree C ?es) (sorted_tree ?es) {sorted_tree ?es}"
    using assms(4) Some by (intro makes_write_tree names_plainD [OF C(1)]) auto
  from makes_last [OF makes_write_blob [OF C(2)], of P "path_str p" "\<lambda>b. write_tree C [Entry mode_blob ''0'' b, Entry (obj_mode o') ''o'' o']", OF this]
  have "makes P K (build_insert_oid C src p o') (sorted_tree ?es) {sorted_tree ?es}"
    using assms(3) Some by (cases o') (simp_all add: build_insert_oid_def obj_mode_def)
  then show ?thesis using Some makes_tagged [OF C(1)] by simp
qed

lemma build_op_makes:
  assumes C: "names_plain C" "Blob [] \<in> K"
    and ch: "\<And>g. g \<in> set (child_filters f) \<Longrightarrow> child_ok P K ident ch g"
    and "writable src f" "\<And>p o'. f = Insert p (InsOid o') \<Longrightarrow> src \<noteq> None \<Longrightarrow> o' \<in> K"
  shows "makes P K (build_op C src ident f) (enc C (src \<noteq> None) ch f) {enc C (src \<noteq> None) ch f}"
proof (cases f)
  case (Squash ids)
  show ?thesis
  proof (cases ids)
    case (Some m)
    from ch have "child_ok P K ident ch (snd x)" if "x \<in> set m" for x using Squash Some that by auto
    from makes_keyed_list [OF C, of m P ident ch snd "\<lambda>x. lazy_ref_str (fst x)", OF this]
    show ?thesis using Squash Some
      by (simp add: build_op_def build_squash_params_def case_prod_unfold makes_tagged [OF C(1)])
  qed (use Squash makes_marker [OF C] in \<open>simp add: build_op_def\<close>)
next
  case (Rev arms)
  have "child_ok P K ident ch (snd (snd x))" if "x \<in> set arms" for x
    using ch [of "snd (snd x)"] Rev that by (cases x) force
  from makes_keyed_list [OF C, of arms P ident ch "\<lambda>x. snd (snd x)" "\<lambda>x. rev_key (fst x) (fst (snd x))", OF this]
  show ?thesis using Rev by (simp add: build_op_def build_rev_params_def case_prod_unfold makes_tagged [OF C(1)])
next
  case (Insert p c)
  then show ?thesis using assms(4,5) makes_insert_oid [OF C, of src p]
    by (cases c) (auto simp: build_op_def intro!: makes_tagged makes_str C)
next
  case (Unapply r g)
  from ch have "child_ok P K ident ch (snd x)" if "x \<in> set [(r, g)]" for x using Unapply that by auto
  from makes_keyed_list [OF C, of "[(r, g)]" P ident ch snd "\<lambda>x. lazy_ref_str (fst x)", OF this]
  show ?thesis using Unapply
    by (simp add: build_op_def build_lazyref_filter_params_def numbered_def bindB_assoc makes_tagged [OF C(1)])
next
  case (Meta m g)
  then show ?thesis using makes_meta [OF C, of P ident ch g m] ch assms(4)
    by (simp add: build_op_def makes_tagged [OF C(1)])
qed (use ch makes_filters [OF C(1), of "child_filters f" P K ident ch] in
  \<open>auto simp: build_op_def Let_def intro!: makes_tagged makes_str makes_marker makes_starlark makes_regex C\<close>)

subsection \<open>Identity\<close>

function all_below :: "(filt \<Rightarrow> bool) \<Rightarrow> filt \<Rightarrow> bool" where
  "all_below Q f \<longleftrightarrow> Q f \<and> list_all (all_below Q) (child_filters f)"
  by pat_completeness auto
termination by (relation "measure (\<lambda>(_, f). nodes f)") (auto intro: nodes_child)

declare all_below.simps [simp del]

lemma all_belowD: "all_below Q f \<Longrightarrow> Q f" "all_below Q f \<Longrightarrow> g \<in> set (child_filters f) \<Longrightarrow> all_below Q g"
  by (subst (asm) all_below.simps, simp add: list_all_iff)+

lemma all_below_mono: "(\<And>g. Q g \<Longrightarrow> R g) \<Longrightarrow> all_below Q f \<Longrightarrow> all_below R f"
proof (induction R f rule: all_below.induct)
  case (1 R f)
  then show ?case by (subst all_below.simps) (auto simp: list_all_iff dest: all_belowD)
qed

lemma writable_None: "writable src f \<Longrightarrow> writable None f"
  by (cases "(src, f)" rule: writable.cases) auto

text \<open>A run on its own, from a table that gives the trees below.\<close>

lemma makesE:
  assumes "makes P K m x V" "persist_ids s = P"
  obtains W s' where "m s = (Inr x, s')" "persist_ids s' = P" "set (pending s') = W \<union> set (pending s)"
    "\<And>es e. Tree es \<in> W \<Longrightarrow> e \<in> set es \<Longrightarrow> e_oid e \<in> W \<union> K" "V \<subseteq> W \<union> K"
  using assms unfolding makes_def by blast

lemma filter_id_form:
  "names_plain C \<Longrightarrow> all_below (writable None) f \<Longrightarrow> filter_id C f = Inr (stored_form C False f)"
proof (induction C f rule: filter_id.induct)
  case (1 C f)
  have "child_ok [] UNIV (filter_id C) (stored_form C False) g" if "g \<in> set (child_filters f)" for g
    using 1(1) [OF that 1(2) all_belowD(2) [OF 1(3) that]] by (simp add: child_ok_def)
  from build_op_makes [OF 1(2) UNIV_I this all_belowD(1) [OF 1(3)] UNIV_I]
  have "makes [] UNIV (build_op C None (filter_id C) f) (stored_form C False f) {stored_form C False f}"
    by (simp only: stored_form.simps [of C False f] simp_thms)
  then obtain s' where "build_op C None (filter_id C) f new_builder = (Inr (stored_form C False f), s')"
    by (rule makesE [where s = new_builder]) (simp add: new_builder_def)
  then show ?case by (simp add: filter_id.simps [of C f])
qed

subsection \<open>Persistence\<close>

definition closed_store :: "obj set \<Rightarrow> bool" where
  "closed_store X \<longleftrightarrow> (\<forall>es e. Tree es \<in> X \<longrightarrow> e \<in> set es \<longrightarrow> \<not> is_commit (e_mode e) \<longrightarrow> e_oid e \<in> X)"

lemma closed_storeD: "closed_store X \<Longrightarrow> Tree es \<in> X \<Longrightarrow> e \<in> set es \<Longrightarrow> \<not> is_commit (e_mode e) \<Longrightarrow> e_oid e \<in> X"
  unfolding closed_store_def by blast

definition building :: "codec \<Rightarrow> obj set \<Rightarrow> builder \<Rightarrow> bool" where
  "building C S s \<longleftrightarrow> Blob [] \<in> set (pending s) \<and> closed_store (set (pending s) \<union> S) \<and>
    (\<forall>g o'. (g, o') \<in> set (persist_ids s) \<longrightarrow> o' = stored_form C True g \<and> o' \<in> set (pending s) \<union> S)"

lemma building_lookup: "building C S s \<Longrightarrow> map_of (persist_ids s) g = Some o' \<Longrightarrow> o' = stored_form C True g"
  unfolding building_def by (blast dest: map_of_SomeD)

lemma building_makes:
  assumes s: "building C S s" and m: "makes (persist_ids s) (set (pending s) \<union> S) m x V"
  shows "\<exists>s'. m s = (Inr x, s') \<and> persist_ids s' = persist_ids s \<and> set (pending s) \<subseteq> set (pending s') \<and>
    V \<subseteq> set (pending s') \<union> S \<and> building C S s'"
proof (rule makesE [OF m refl])
  fix W s' assume s': "m s = (Inr x, s')" "persist_ids s' = persist_ids s" "set (pending s') = W \<union> set (pending s)"
    "\<And>es e. Tree es \<in> W \<Longrightarrow> e \<in> set es \<Longrightarrow> e_oid e \<in> W \<union> (set (pending s) \<union> S)" "V \<subseteq> W \<union> (set (pending s) \<union> S)"
  have "closed_store (set (pending s') \<union> S)"
    using s s'(4) unfolding closed_store_def building_def s'(3) by blast
  then have "building C S s'" using s s'(2,3) by (auto simp: building_def)
  then show ?thesis using s' by blast
qed

lemma building_push:
  "building C S s \<Longrightarrow> o' = stored_form C True f \<Longrightarrow> o' \<in> set (pending s) \<union> S \<Longrightarrow>
    building C S (s\<lparr> persist_ids := (f, o') # persist_ids s \<rparr>)"
  by (simp add: building_def)

lemma enc_same: "(case f of Insert _ (InsOid _) \<Rightarrow> False | _ \<Rightarrow> True) \<Longrightarrow> enc C True ch f = enc C False ch f"
proof (cases f)
  case (Squash ids)
  then show ?thesis by (cases ids) simp_all
qed (auto split: insert_content.splits)

lemma stored_form_same:
  assumes "(case f of Insert _ (InsOid _) \<Rightarrow> False | _ \<Rightarrow> True)"
    and "\<And>g. g \<in> set (child_filters f) \<Longrightarrow> stored_form C True g = stored_form C False g"
  shows "stored_form C True f = stored_form C False f"
proof -
  have "enc C True (stored_form C True) f = enc C True (stored_form C False) f" by (rule enc_cong [OF refl assms(2)])
  then show ?thesis using enc_same [OF assms(1), of C] by (simp add: stored_form.simps [of C _ f])
qed


text \<open>The children of a filter, one after another.\<close>

lemma persist_children:
  assumes C: "names_plain C"
    and IH: "\<And>g s. g \<in> set gs \<Longrightarrow> building C S s \<Longrightarrow>
      \<exists>s'. build_persist C (\<lambda>o'. o' \<in> S) g s = (Inr (stored_form C True g), s') \<and> building C S s' \<and>
        set (pending s) \<subseteq> set (pending s') \<and> insert (g, stored_form C True g) (set (persist_ids s)) \<subseteq> set (persist_ids s')"
    and ids: "\<And>g. g \<in> set gs \<Longrightarrow> filter_id C g = Inr (stored_form C False g)"
    and s: "building C S s"
  shows "\<exists>s'. mapB (\<lambda>child. bindB (build_persist C (\<lambda>o'. o' \<in> S) child) (\<lambda>child_oid.
        bindB (liftB (filter_id C child)) (\<lambda>child_id. liftB (Inr (child_oid \<noteq> child_id))))) gs s =
      (Inr (map (\<lambda>g. stored_form C True g \<noteq> stored_form C False g) gs), s') \<and> building C S s' \<and>
    set (pending s) \<subseteq> set (pending s') \<and> (\<lambda>g. (g, stored_form C True g)) ` set gs \<union> set (persist_ids s) \<subseteq> set (persist_ids s')"
  using IH ids s
proof (induction gs arbitrary: s)
  case Nil
  then show ?case by (simp add: liftB_def)
next
  case (Cons g gs)
  obtain s1 where s1: "build_persist C (\<lambda>o'. o' \<in> S) g s = (Inr (stored_form C True g), s1)" "building C S s1"
    "set (pending s) \<subseteq> set (pending s1)" "insert (g, stored_form C True g) (set (persist_ids s)) \<subseteq> set (persist_ids s1)"
    using Cons.prems(1) [OF _ Cons.prems(3), of g] by auto
  let ?m = "mapB (\<lambda>child. bindB (build_persist C (\<lambda>o'. o' \<in> S) child) (\<lambda>child_oid.
        bindB (liftB (filter_id C child)) (\<lambda>child_id. liftB (Inr (child_oid \<noteq> child_id))))) gs"
  have "\<exists>s'. ?m s1 = (Inr (map (\<lambda>g. stored_form C True g \<noteq> stored_form C False g) gs), s') \<and> building C S s' \<and>
    set (pending s1) \<subseteq> set (pending s') \<and> (\<lambda>g. (g, stored_form C True g)) ` set gs \<union> set (persist_ids s1) \<subseteq> set (persist_ids s')"
    by (rule Cons.IH [OF _ _ s1(2)]) (use Cons.prems in \<open>simp_all\<close>)
  then obtain s2 where s2: "?m s1 = (Inr (map (\<lambda>g. stored_form C True g \<noteq> stored_form C False g) gs), s2)" "building C S s2"
    "set (pending s1) \<subseteq> set (pending s2)" "(\<lambda>g. (g, stored_form C True g)) ` set gs \<union> set (persist_ids s1) \<subseteq> set (persist_ids s2)"
    by blast
  have "filter_id C g = Inr (stored_form C False g)" using Cons.prems(2) by simp
  then have "mapB (\<lambda>child. bindB (build_persist C (\<lambda>o'. o' \<in> S) child) (\<lambda>child_oid.
        bindB (liftB (filter_id C child)) (\<lambda>child_id. liftB (Inr (child_oid \<noteq> child_id))))) (g # gs) s =
      (Inr (map (\<lambda>g. stored_form C True g \<noteq> stored_form C False g) (g # gs)), s2)"
    using s1(1) s2(1) by (simp add: bindB_def liftB_def)
  moreover have "set (pending s) \<subseteq> set (pending s2)"
    "(\<lambda>g. (g, stored_form C True g)) ` set (g # gs) \<union> set (persist_ids s) \<subseteq> set (persist_ids s2)"
    using s1(3,4) s2(3,4) by auto
  ultimately show ?case using s2(2) by blast
qed

lemma build_node:
  assumes C: "names_plain C" and s: "building C S s" and w: "writable (Some (\<lambda>o'. o' \<in> S)) f"
    and ch: "\<And>g. g \<in> set (child_filters f) \<Longrightarrow> (g, stored_form C True g) \<in> set (persist_ids s)"
  shows "\<exists>s'. build_op C (Some (\<lambda>o'. o' \<in> S)) (filter_id C) f s = (Inr (stored_form C True f), s') \<and>
    persist_ids s' = persist_ids s \<and> set (pending s) \<subseteq> set (pending s') \<and>
    stored_form C True f \<in> set (pending s') \<union> S \<and> building C S s'"
proof -
  let ?K = "set (pending s) \<union> S"
  have "child_ok (persist_ids s) ?K (filter_id C) (stored_form C True) g" if g: "g \<in> set (child_filters f)" for g
  proof -
    have "map_of (persist_ids s) g \<noteq> None" using weak_map_of_SomeI [OF ch [OF g]] by auto
    then obtain o' where o': "map_of (persist_ids s) g = Some o'" by blast
    have "o' = stored_form C True g" by (rule building_lookup [OF s o'])
    moreover have "stored_form C True g \<in> ?K" using ch [OF g] s unfolding building_def by blast
    ultimately show ?thesis by (simp add: child_ok_def o')
  qed
  moreover have "o' \<in> ?K" if "f = Insert p (InsOid o')" for p o' using w that by simp
  moreover have "Blob [] \<in> ?K" using s by (simp add: building_def)
  ultimately have "makes (persist_ids s) ?K (build_op C (Some (\<lambda>o'. o' \<in> S)) (filter_id C) f)
      (enc C (Some (\<lambda>o'. o' \<in> S) \<noteq> None) (stored_form C True) f)
      {enc C (Some (\<lambda>o'. o' \<in> S) \<noteq> None) (stored_form C True) f}"
    by (intro build_op_makes [OF C _ _ w]) blast+
  then have "makes (persist_ids s) ?K (build_op C (Some (\<lambda>o'. o' \<in> S)) (filter_id C) f) (stored_form C True f) {stored_form C True f}"
    by (simp only: stored_form.simps [of C True f] option.distinct simp_thms)
  from building_makes [OF s this] show ?thesis by blast
qed

lemma build_persist_form:
  assumes C: "names_plain C"
  shows "all_below (writable (Some (\<lambda>o'. o' \<in> S))) f \<Longrightarrow> building C S s \<Longrightarrow>
    \<exists>s'. build_persist C (\<lambda>o'. o' \<in> S) f s = (Inr (stored_form C True f), s') \<and> building C S s' \<and>
      set (pending s) \<subseteq> set (pending s') \<and> insert (f, stored_form C True f) (set (persist_ids s)) \<subseteq> set (persist_ids s')"
proof (induction "nodes f" arbitrary: f s rule: less_induct)
  case less
  let ?pre = "\<lambda>o'. o' \<in> S" and ?sf = "stored_form C True"
  show ?case
  proof (cases "map_of (persist_ids s) f")
    case (Some o')
    then have "o' = ?sf f" using building_lookup [OF less.prems(2)] by blast
    then show ?thesis using Some less.prems(2) map_of_SomeD [OF Some] by (simp add: build_persist.simps [of C ?pre f])
  next
    case None
    let ?gs = "child_filters f"
    have ids: "filter_id C g = Inr (stored_form C False g)" if "all_below (writable (Some ?pre)) g" for g
      using filter_id_form [OF C all_below_mono [OF writable_None that]] .
    note below = all_belowD(2) [OF less.prems(1)]
    have "\<exists>s'. mapB (\<lambda>child. bindB (build_persist C ?pre child) (\<lambda>child_oid.
        bindB (liftB (filter_id C child)) (\<lambda>child_id. liftB (Inr (child_oid \<noteq> child_id))))) ?gs s =
      (Inr (map (\<lambda>g. ?sf g \<noteq> stored_form C False g) ?gs), s') \<and> building C S s' \<and>
      set (pending s) \<subseteq> set (pending s') \<and> (\<lambda>g. (g, ?sf g)) ` set ?gs \<union> set (persist_ids s) \<subseteq> set (persist_ids s')"
      by (rule persist_children [OF C _ _ less.prems(2)]) ((rule less.hyps [OF nodes_child below]; assumption), (rule ids [OF below], assumption))
    then obtain s1 where s1: "mapB (\<lambda>child. bindB (build_persist C ?pre child) (\<lambda>child_oid.
        bindB (liftB (filter_id C child)) (\<lambda>child_id. liftB (Inr (child_oid \<noteq> child_id))))) ?gs s =
      (Inr (map (\<lambda>g. ?sf g \<noteq> stored_form C False g) ?gs), s1)" "building C S s1"
      "set (pending s) \<subseteq> set (pending s1)" "(\<lambda>g. (g, ?sf g)) ` set ?gs \<union> set (persist_ids s) \<subseteq> set (persist_ids s1)"
      by blast
    obtain s2 where s2: "build_op C (Some ?pre) (filter_id C) f s1 = (Inr (?sf f), s2)" "persist_ids s2 = persist_ids s1"
      "set (pending s1) \<subseteq> set (pending s2)" "?sf f \<in> set (pending s2) \<union> S" "building C S s2"
      using build_node [OF C s1(2) all_belowD(1) [OF less.prems(1)]] s1(4) by blast
    let ?oid = "case f of Insert _ (InsOid _) \<Rightarrow> True | _ \<Rightarrow> False"
    let ?dirty = "?oid \<or> True \<in> set (map (\<lambda>g. ?sf g \<noteq> stored_form C False g) ?gs)"
    have clean: "filter_id C f = Inr (?sf f)" if "\<not> ?dirty"
    proof -
      have "?sf f = stored_form C False f"
        by (rule stored_form_same) (use that in \<open>auto split: filt.splits insert_content.splits\<close>)
      then show ?thesis using ids [OF less.prems(1)] by simp
    qed
    let ?m = "if ?dirty then build_op C (Some ?pre) (filter_id C) f
               else bindB (liftB (filter_id C f)) (\<lambda>o'.
                 if ?pre o' then liftB (Inr o')
                 else bindB (build_op C (Some ?pre) (filter_id C) f) (\<lambda>_. liftB (Inr o')))"
    have "\<exists>s3. ?m s1 = (Inr (?sf f), s3) \<and> building C S s3 \<and> set (pending s1) \<subseteq> set (pending s3) \<and>
        persist_ids s3 = persist_ids s1 \<and> ?sf f \<in> set (pending s3) \<union> S"
    proof (cases "\<not> ?dirty \<and> ?sf f \<in> S")
      case True
      then have "?m s1 = (Inr (?sf f), s1)" using clean by (simp add: liftB_def)
      then show ?thesis using True s1(2) by blast
    next
      case False
      then have "?m s1 = (Inr (?sf f), s2)" using clean s2(1) by (auto simp: liftB_def bindB_def)
      then show ?thesis using s2 by blast
    qed
    then obtain s3 where s3: "?m s1 = (Inr (?sf f), s3)" "building C S s3" "set (pending s1) \<subseteq> set (pending s3)"
      "persist_ids s3 = persist_ids s1" "?sf f \<in> set (pending s3) \<union> S" by blast
    have "build_persist C ?pre f s = (Inr (?sf f), s3\<lparr> persist_ids := (f, ?sf f) # persist_ids s3 \<rparr>)"
      unfolding build_persist.simps [of C ?pre f] None option.case bindB_def [of _ _ s] s1(1) prod.case sum.case Let_def
        bindB_def [of _ _ s1] s3(1) ..
    then show ?thesis using building_push [OF s3(2) refl s3(5)] s1(3,4) s3(3,4) by auto
  qed
qed

end
