(* ===== verification/Persist_Roundtrip.thy ===== *)
theory Persist_Roundtrip
  imports Persist_Format
begin

text \<open>Reading the format back.\<close>

subsection \<open>Decimal numbers\<close>

definition undec :: "string \<Rightarrow> nat" where
  "undec s = foldl (\<lambda>a c. a * 10 + (of_char c - 48)) 0 s"

lemma undec_digit: "d < 10 \<Longrightarrow> (of_char (digit d) :: nat) - 48 = d"
  by (simp add: digit_def of_char_of)

lemma undec_dec: "undec (dec n) = n"
proof (induction n rule: dec.induct)
  case (1 n)
  then show ?case
    using undec_digit [of n] undec_digit [of "n mod 10"]
    by (cases "n < 10") (simp_all add: dec.simps [of n] undec_def)
qed

lemma dec_inject [simp]: "dec m = dec n \<longleftrightarrow> m = n"
  by (metis undec_dec)

subsection \<open>Sorting\<close>

lemma sort_key_map: "sort_key f (map g xs) = map g (sort_key (\<lambda>x. f (g x)) xs)"
proof (induction xs)
  case (Cons x xs)
  have "insort_key f (g x) (map g ys) = map g (insort_key (\<lambda>x. f (g x)) x ys)" for ys by (induction ys) simp_all
  with Cons show ?case by simp
qed simp

lemma sort_key_sorted: "sorted (map f xs) \<Longrightarrow> sort_key f xs = xs"
proof (induction xs)
  case (Cons x xs)
  then show ?case by (cases xs) simp_all
qed simp

text \<open>The order in which a tree lists the entries \<^verbatim>\<open>0\<close>, \<^verbatim>\<open>1\<close>, \<^verbatim>\<open>10\<close>, \<^verbatim>\<open>11\<close>, \<^verbatim>\<open>2\<close>, \dots\<close>

definition dec_order :: "nat \<Rightarrow> nat list" where
  "dec_order n = sort_key dec [0..<n]"

definition by_dec :: "'a list \<Rightarrow> 'a list" where
  "by_dec xs = map ((!) xs) (dec_order (length xs))"

lemma dec_order_small: "n \<le> 10 \<Longrightarrow> dec_order n = [0..<n]"
proof -
  assume "n \<le> 10"
  then have "map dec [0..<n] = take n (map dec [0..<10])" by (simp add: take_map take_upt)
  moreover have "sorted (map dec [0..<10])" by code_simp
  ultimately show ?thesis unfolding dec_order_def by (metis sort_key_sorted sorted_wrt_take)
qed

lemma by_dec_small: "length xs \<le> 10 \<Longrightarrow> by_dec xs = xs"
  by (simp add: by_dec_def dec_order_small map_nth)

lemma set_dec_order [simp]: "set (dec_order n) = {0..<n}" "length (dec_order n) = n" "distinct (dec_order n)"
  by (simp_all add: dec_order_def)

lemma digit_le: "a < 10 \<Longrightarrow> b < 10 \<Longrightarrow> digit a \<le> digit b \<longleftrightarrow> a \<le> b"
  by (simp add: digit_def less_eq_char_def of_char_of mod_less)

lemma dec_chars: "\<forall>c \<in> set (dec n). digit 0 \<le> c"
proof (induction n rule: dec.induct)
  case (1 n)
  then show ?case by (cases "n < 10") (auto simp: dec.simps [of n] digit_le)
qed

lemma dec_head: "0 < n \<Longrightarrow> \<exists>d xs. dec n = digit d # xs \<and> 0 < d \<and> d < 10 \<and> (10 \<le> n \<longrightarrow> xs \<noteq> [])"
proof (induction n rule: dec.induct)
  case (1 n)
  show ?case
  proof (cases "n < 10")
    case False
    then obtain d xs where "dec (n div 10) = digit d # xs" "0 < d" "d < 10" using 1 False by (auto simp: div_greater_zero_iff)
    then show ?thesis using False by (intro exI [of _ d] exI [of _ "xs @ [digit (n mod 10)]"]) (simp add: dec.simps [of n])
  qed (use 1 in \<open>auto simp: dec.simps [of n]\<close>)
qed

lemma dec_below_ten: "dec i < dec 10 \<Longrightarrow> i \<le> 1"
proof (rule ccontr)
  assume lt: "dec i < dec 10" and "\<not> i \<le> 1"
  then have i: "0 < i" "1 < i" by simp_all
  have ten: "dec 10 = [digit 1, digit 0]" by code_simp
  obtain d xs where d: "dec i = digit d # xs" "0 < d" "d < 10" "10 \<le> i \<longrightarrow> xs \<noteq> []" using dec_head [OF i(1)] by blast
  have "digit 1 \<le> digit d" using d digit_le [of 1 d] by simp
  then have e: "digit d = digit 1" "xs < [digit 0]" using lt d(1) ten by (auto simp: not_le [symmetric])
  have "d = 1" using e(1) digit_le [of d 1] digit_le [of 1 d] d(3) by simp
  then have "10 \<le> i" using d(1) i(2) by (cases "i < 10") (auto simp: dec.simps [of i] digit_def)
  then obtain x ys where x: "xs = x # ys" using d(4) by (cases xs) auto
  then have "digit 0 \<le> x" using dec_chars [of i] d(1) by simp
  then show False using e(2) x by auto
qed

lemma dec_order_third:
  assumes "10 < n"
  shows "dec_order n ! 2 = 10"
proof -
  let ?xs = "dec_order n"
  obtain k where k: "k < n" "?xs ! k = 10" using assms by (metis atLeastLessThan_iff in_set_conv_nth set_dec_order(1,2) zero_le)
  have s: "sorted (map dec ?xs)" by (simp add: dec_order_def)
  have "set (take k ?xs) = {0, 1}"
  proof (rule set_eqI)
    fix i
    show "i \<in> set (take k ?xs) \<longleftrightarrow> i \<in> {0, 1}"
    proof
      assume "i \<in> set (take k ?xs)"
      then obtain j where j: "j < k" "?xs ! j = i" by (auto simp: in_set_conv_nth)
      then have "dec i \<le> dec 10" using sorted_nth_mono [OF s, of j k] k by simp
      moreover have "i \<noteq> 10" using j k nth_eq_iff_index_eq [OF set_dec_order(3), of j n k] by auto
      ultimately show "i \<in> {0, 1}" using dec_below_ten [of i] by (auto simp: less_le)
    next
      assume i: "i \<in> {0, 1}"
      then obtain j where j: "j < n" "?xs ! j = i" using assms by (metis atLeastLessThan_iff in_set_conv_nth insertE less_trans one_less_numeral_iff semiring_norm(76) set_dec_order(1,2) singletonD zero_le zero_less_numeral)
      have "dec 0 < dec 10" "dec 1 < dec 10" by code_simp+
      then have "dec i < dec 10" using i by auto
      then have "\<not> k \<le> j" using sorted_nth_mono [OF s, of k j] j k by auto
      then show "i \<in> set (take k ?xs)" using j k by (auto simp: in_set_conv_nth intro!: exI [of _ j])
    qed
  qed
  moreover have "card (set (take k ?xs)) = k" using k(1) by (simp add: distinct_card)
  ultimately have "k = 2" by simp
  then show ?thesis using k(2) by simp
qed

lemma set_by_dec [simp]: "set (by_dec xs) = set xs"
  by (auto simp: by_dec_def in_set_conv_nth)

lemma by_dec_map: "by_dec (map f xs) = map f (by_dec xs)"
  by (simp add: by_dec_def)

lemma numbered_nth: "numbered xs = map (\<lambda>i. (i, xs ! i)) [0..<length xs]"
  by (rule nth_equalityI) (simp_all add: numbered_def)

lemma numbered_sorted:
  "sort_key e_name (map (\<lambda>(i, x). Entry m (dec i) (g x)) (numbered xs)) =
    map (\<lambda>i. Entry m (dec i) (g (xs ! i))) (dec_order (length xs))"
  by (simp add: numbered_nth sort_key_map comp_def dec_order_def)

subsection \<open>Lookups\<close>

lemma get_name_iff: "distinct (map e_name es) \<Longrightarrow> get_name es n = Some e \<longleftrightarrow> e \<in> set es \<and> e_name e = n"
proof (induction es)
  case (Cons e' es)
  then show ?case by (auto simp: get_name_def)
qed (simp add: get_name_def)

lemma distinct_sort_names: "distinct (map f xs) \<Longrightarrow> distinct (map f (sort_key f xs))"
  by (metis distinct_map distinct_sort inj_on_def set_sort)

lemma get_name_sort: "distinct (map e_name es) \<Longrightarrow> get_name (sort_key e_name es) n = get_name es n"
proof -
  assume d: "distinct (map e_name es)"
  then have "distinct (map e_name (sort_key e_name es))" by (rule distinct_sort_names)
  then have "get_name (sort_key e_name es) n = Some e \<longleftrightarrow> get_name es n = Some e" for e using d by (simp add: get_name_iff)
  then show ?thesis by (metis option.exhaust)
qed

lemma get_numbered:
  assumes "i < length xs"
  shows "get_name (map (\<lambda>i. Entry m (dec i) (g (xs ! i))) (dec_order (length xs))) (dec i) = Some (Entry m (dec i) (g (xs ! i)))"
proof -
  have "distinct (map e_name (map (\<lambda>i. Entry m (dec i) (g (xs ! i))) (dec_order (length xs))))"
    by (simp add: distinct_map comp_def inj_on_def)
  then show ?thesis using assms by (simp add: get_name_iff)
qed

subsection \<open>Ordered maps\<close>

lemma set_bt_insert: "k \<notin> fst ` set m \<Longrightarrow> set (bt_insert k v m) = insert (k, v) (set m)"
  by (induction k v m rule: bt_insert.induct) auto

lemma bt_of_list_snoc: "bt_of_list (xs @ [(k, v)]) = bt_insert k v (bt_of_list xs)"
  by (simp add: bt_of_list_def)

lemma bt_of_list_set: "distinct (map fst kvs) \<Longrightarrow> set (bt_of_list kvs) = set kvs \<and> bt_sorted (bt_of_list kvs)"
proof (induction kvs rule: rev_induct)
  case (snoc kv kvs)
  then have IH: "set (bt_of_list kvs) = set kvs" "bt_sorted (bt_of_list kvs)" by auto
  obtain k v where kv: "kv = (k, v)" by fastforce
  then have "k \<notin> fst ` set (bt_of_list kvs)" using snoc.prems IH by auto
  then show ?case unfolding kv bt_of_list_snoc using IH by (simp add: set_bt_insert bt_sorted_insert)
qed (simp add: bt_of_list_def)

lemma bt_sorted_unique: "bt_sorted m \<Longrightarrow> bt_sorted m' \<Longrightarrow> set m = set m' \<Longrightarrow> m = m'"
proof (induction m arbitrary: m')
  case (Cons kv m)
  obtain k v where kv: "kv = (k, v)" by fastforce
  from Cons.prems(3) obtain kv' m'' where m': "m' = kv' # m''" by (cases m') auto
  obtain k' v' where kv': "kv' = (k', v')" by fastforce
  have a: "\<forall>x \<in> set m. k < fst x" "\<forall>x \<in> set m''. k' < fst x" using Cons.prems kv kv' m' by (simp_all add: bt_sorted_Cons)
  have "kv = kv'" using Cons.prems(3) a kv kv' m' by (metis fst_conv insert_iff list.simps(15) less_asym)
  moreover have "set m = set m''" using Cons.prems(3) a kv kv' m' calculation by (auto simp: set_eq_iff) (metis fst_conv less_irrefl)+
  ultimately show ?case using Cons m' kv by (auto simp: bt_sorted_Cons)
qed simp

lemma bt_of_list_perm: "bt_sorted m \<Longrightarrow> distinct (map fst kvs) \<Longrightarrow> set kvs = set m \<Longrightarrow> bt_of_list kvs = m"
  using bt_of_list_set bt_sorted_unique by metis

subsection \<open>What can be stored\<close>

definition path_ok :: "path \<Rightarrow> bool" where
  "path_ok p \<longleftrightarrow> wf_path p \<and> valid_utf8 (path_str p)"

text \<open>A reference whose text the parser reads back.\<close>

definition ref_ok :: "codec \<Rightarrow> lazy_ref \<Rightarrow> bool" where
  "ref_ok C r \<longleftrightarrow> valid_utf8 (lazy_ref_str r) \<and> parse_ref C (lazy_ref_str r) = Inr r \<and> \<not> prefix ''='' (lazy_ref_str r)"

fun storable :: "codec \<Rightarrow> filt \<Rightarrow> bool" where
  "storable C (Message fmt regex) \<longleftrightarrow> valid_utf8 fmt \<and> valid_utf8 regex \<and> regex_new C regex"
| "storable C (Author a e) \<longleftrightarrow> valid_utf8 a \<and> valid_utf8 e"
| "storable C (Committer a e) \<longleftrightarrow> valid_utf8 a \<and> valid_utf8 e"
| "storable C (Chain fs) \<longleftrightarrow> fs \<noteq> []"
| "storable C (Subdir p) \<longleftrightarrow> path_ok p"
| "storable C (Prefix p) \<longleftrightarrow> path_ok p"
| "storable C (Insert p (Inline s)) \<longleftrightarrow> path_ok p \<and> valid_utf8 s"
| "storable C (Insert p (InsOid o')) \<longleftrightarrow> path_ok p"
| "storable C (File dst source) \<longleftrightarrow> path_ok dst \<and> path_ok source"
| "storable C (Embed p) \<longleftrightarrow> path_ok p"
| "storable C (Pattern glob) \<longleftrightarrow> valid_utf8 glob \<and> ok (compile glob)"
| "storable C (Workspace p) \<longleftrightarrow> path_ok p"
| "storable C (Stored p) \<longleftrightarrow> path_ok p"
| "storable C (Starlark p f) \<longleftrightarrow> False"
| "storable C (TreeId p f) \<longleftrightarrow> False"
| "storable C (ObjectDeref p) \<longleftrightarrow> path_ok p"
| "storable C (ObjectRef p) \<longleftrightarrow> path_ok p"
| "storable C (Adapt mode) \<longleftrightarrow> valid_utf8 mode"
| "storable C (Rev arms) \<longleftrightarrow>
    list_all (\<lambda>(m, r, f). if m = DefaultRev then r = Resolved zero_hex else ref_ok C r) arms"
| "storable C (Unapply r f) \<longleftrightarrow> ref_ok C r"
| "storable C (Squash (Some ids)) \<longleftrightarrow> bt_sorted ids \<and> list_all (\<lambda>(r, f). ref_ok C r) ids"
| "storable C (RegexReplace rs) \<longleftrightarrow> list_all (\<lambda>(a, b). valid_utf8 a \<and> valid_utf8 b \<and> regex_new C a) rs"
| "storable C (Hook hook) \<longleftrightarrow> valid_utf8 hook"
| "storable C (Downstack r) \<longleftrightarrow> ref_ok C r"
| "storable C (Meta meta f) \<longleftrightarrow>
    bt_sorted meta \<and> list_all (\<lambda>(k, v). k \<noteq> ''0'' \<and> CHR 0x00 \<notin> set k \<and> valid_utf8 k \<and> valid_utf8 v) meta"
| "storable C f \<longleftrightarrow> True"

text \<open>The filter that comes back: lists that are read by position come back in the order of their names.\<close>

fun as_read :: "filt \<Rightarrow> filt" where
  "as_read (Compose fs) = Compose (by_dec (map as_read fs))"
| "as_read (RegexReplace rs) = RegexReplace (by_dec rs)"
| "as_read (Subtract a b) = Subtract (as_read a) (as_read b)"
| "as_read (Chain fs) = Chain (map as_read fs)"
| "as_read (Exclude f) = Exclude (as_read f)"
| "as_read (Select f) = Select (as_read f)"
| "as_read (Pin f) = Pin (as_read f)"
| "as_read (Rev arms) = Rev (map (\<lambda>(m, r, f). (m, r, as_read f)) arms)"
| "as_read (Unapply r f) = Unapply r (as_read f)"
| "as_read (Squash (Some ids)) = Squash (Some (map (\<lambda>(r, f). (r, as_read f)) ids))"
| "as_read (Meta meta f) = Meta meta (as_read f)"
| "as_read f = f"

subsection \<open>Parameters\<close>

lemma read_tree_Tree: "Tree es \<in> X \<Longrightarrow> read_tree (\<lambda>o'. o' \<in> X) (Tree es) = Inr es"
  by (simp add: read_tree_def)

lemma read_sorted: "sorted_tree es \<in> X \<Longrightarrow> read_tree (\<lambda>o'. o' \<in> X) (sorted_tree es) = Inr (sort_key e_name es)"
  by (simp add: read_tree_def sorted_tree_def)

lemma read_blob_Blob: "Blob d \<in> X \<Longrightarrow> read_blob (\<lambda>o'. o' \<in> X) (Blob d) = Inr d"
  by (simp add: read_blob_def)

lemma closed_sorted: "closed_store X \<Longrightarrow> sorted_tree es \<in> X \<Longrightarrow> e \<in> set es \<Longrightarrow> \<not> is_commit (e_mode e) \<Longrightarrow> e_oid e \<in> X"
  unfolding sorted_tree_def using closed_storeD [of X "sort_key e_name es" e] by simp

lemma closed_tagged: "closed_store X \<Longrightarrow> tagged n t \<in> X \<Longrightarrow> t \<in> X"
  unfolding tagged_def using closed_storeD [of X "[Entry mode_tree n t]" "Entry mode_tree n t"] by simp

lemma closed_marker: "closed_store X \<Longrightarrow> marker n d \<in> X \<Longrightarrow> Blob d \<in> X"
  unfolding marker_def using closed_storeD [of X "[Entry mode_blob n (Blob d)]" "Entry mode_blob n (Blob d)"] by simp

lemma read_str_tree:
  assumes "closed_store X" "str_tree ps \<in> X"
  shows "\<exists>es. read_tree (\<lambda>o'. o' \<in> X) (str_tree ps) = Inr es \<and>
    (\<forall>i context. i < length ps \<longrightarrow> named_blob (\<lambda>o'. o' \<in> X) es (dec i) context = Inr (ps ! i)) \<and>
    (\<forall>n. (\<forall>i. n \<noteq> dec i) \<longrightarrow> get_name es n = None)"
proof -
  let ?es = "map (\<lambda>i. Entry mode_blob (dec i) (Blob (ps ! i))) (dec_order (length ps))"
  have t: "str_tree ps = Tree ?es"
    by (simp add: str_tree_def sorted_tree_def numbered_sorted)
  have "Blob (ps ! i) \<in> X" if "i < length ps" for i
    using closed_storeD [OF assms(1) assms(2) [unfolded t], of "Entry mode_blob (dec i) (Blob (ps ! i))"] that by simp
  then have "named_blob (\<lambda>o'. o' \<in> X) ?es (dec i) ctx = Inr (ps ! i)" if "i < length ps" for i ctx
    using that get_numbered [of i ps mode_blob Blob] by (simp add: named_blob_def named_def read_blob_def)
  moreover have "get_name ?es n = None" if "\<forall>i. n \<noteq> dec i" for n
    using that by (auto simp: get_name_def find_None_iff)
  ultimately show ?thesis using assms(2) t by (auto simp: read_tree_def)
qed

lemma one_param_str:
  assumes "closed_store X" "str_tree [a] \<in> X" "valid_utf8 a"
  shows "one_param (\<lambda>o'. o' \<in> X) (str_tree [a]) context = Inr a"
proof -
  obtain es where "read_tree (\<lambda>o'. o' \<in> X) (str_tree [a]) = Inr es"
    "named_blob (\<lambda>o'. o' \<in> X) es (dec 0) context = Inr a"
    using read_str_tree [OF assms(1,2)] by fastforce
  then show ?thesis using assms(3) by (simp add: one_param_def dec_small)
qed

lemma two_params_str:
  assumes "closed_store X" "str_tree [a, b] \<in> X" "valid_utf8 a" "valid_utf8 b"
  shows "two_params (\<lambda>o'. o' \<in> X) (str_tree [a, b]) c0 c1 = Inr (a, b)"
proof -
  obtain es where es: "read_tree (\<lambda>o'. o' \<in> X) (str_tree [a, b]) = Inr es"
    "\<And>i context. i < length [a, b] \<Longrightarrow> named_blob (\<lambda>o'. o' \<in> X) es (dec i) context = Inr ([a, b] ! i)"
    using read_str_tree [OF assms(1,2)] by blast
  from es(2) [of 0 c0] es(2) [of 1 c1] es(1) show ?thesis using assms(3,4) by (simp add: two_params_def dec_small)
qed

lemma read_path_str:
  "closed_store X \<Longrightarrow> str_tree [path_str p] \<in> X \<Longrightarrow> path_ok p \<Longrightarrow>
    read_path (\<lambda>o'. o' \<in> X) op context (str_tree [path_str p]) = Inr (op p)"
  by (simp add: read_path_def one_param_str path_ok_def path_of_string_str)

subsection \<open>Children\<close>

lemma read_obj_tree:
  assumes "closed_store X" "obj_tree os \<in> X"
  shows "\<exists>es. read_tree (\<lambda>o'. o' \<in> X) (obj_tree os) = Inr es \<and> map e_oid es = by_dec os \<and> length es = length os \<and>
    (\<forall>i context. i < length os \<longrightarrow> named es (dec i) context = Inr (os ! i)) \<and> set os \<subseteq> X"
proof -
  let ?es = "map (\<lambda>i. Entry mode_tree (dec i) (os ! i)) (dec_order (length os))"
  have t: "obj_tree os = Tree ?es"
    using numbered_sorted [of mode_tree "\<lambda>x. x" os] by (simp add: obj_tree_def sorted_tree_def)
  have "os ! i \<in> X" if "i < length os" for i
    using closed_storeD [OF assms(1) assms(2) [unfolded t], of "Entry mode_tree (dec i) (os ! i)"] that by simp
  then have "set os \<subseteq> X" by (auto simp: in_set_conv_nth)
  moreover have "named ?es (dec i) ctx = Inr (os ! i)" if "i < length os" for i ctx
    using that get_numbered [of i os mode_tree "\<lambda>x. x"] by (simp add: named_def)
  moreover have "map e_oid ?es = by_dec os" by (simp add: by_dec_def comp_def)
  ultimately show ?thesis using assms(2) t by (auto simp: read_tree_def)
qed

lemma tree_form: "\<exists>es. stored_form C direct f = Tree es"
  by (subst stored_form.simps) (cases "(C, direct, stored_form C direct, f)" rule: enc.cases; simp add: tagged_def marker_def)

lemma read_child_ok:
  "stored_form C d f \<in> X \<Longrightarrow> rec (stored_form C d f) = Inr g \<Longrightarrow> read_child (\<lambda>o'. o' \<in> X) rec (stored_form C d f) = Inr g"
  using tree_form [of C d f] by (auto simp: read_child_def read_tree_def)

subsection \<open>One operator\<close>

lemma utf8_names:
  "valid_utf8 ''message''" "valid_utf8 ''author''" "valid_utf8 ''committer''" "valid_utf8 ''compose''" "valid_utf8 ''subtract''"
  "valid_utf8 ''chain''" "valid_utf8 ''exclude''" "valid_utf8 ''select''" "valid_utf8 ''pin''" "valid_utf8 ''subdir''"
  "valid_utf8 ''prefix''" "valid_utf8 ''insert''" "valid_utf8 ''file''" "valid_utf8 ''embed''" "valid_utf8 ''pattern''"
  "valid_utf8 ''workspace''" "valid_utf8 ''stored''" "valid_utf8 ''starlark''" "valid_utf8 ''treeid''" "valid_utf8 ''treederef''"
  "valid_utf8 ''treeref''" "valid_utf8 ''nop''" "valid_utf8 ''empty''" "valid_utf8 ''export''" "valid_utf8 ''paths''" "valid_utf8 ''link''"
  "valid_utf8 ''adapt''" "valid_utf8 ''unlink''" "valid_utf8 ''invert''" "valid_utf8 ''index''" "valid_utf8 ''fold''" "valid_utf8 ''squash''"
  "valid_utf8 ''prune''" "valid_utf8 ''rev''" "valid_utf8 ''unapply''" "valid_utf8 ''regex_replace''" "valid_utf8 ''hook''"
  "valid_utf8 ''downstack''" "valid_utf8 ''meta''" "valid_utf8 ''0''" "valid_utf8 ''inline''" "valid_utf8 ''trivial-merge''" "valid_utf8 []"
  "valid_utf8 ''_''"
  by code_simp+

lemma read_op_tagged:
  "tagged n t \<in> X \<Longrightarrow> valid_utf8 n \<Longrightarrow>
    read_op C (\<lambda>o'. o' \<in> X) rec (tagged n t) = read_entry C (\<lambda>o'. o' \<in> X) rec n mode_tree t"
  by (simp add: read_op_def read_tree_def tagged_def)

lemma read_op_marker:
  "marker n d \<in> X \<Longrightarrow> valid_utf8 n \<Longrightarrow>
    read_op C (\<lambda>o'. o' \<in> X) rec (marker n d) = read_entry C (\<lambda>o'. o' \<in> X) rec n mode_blob (Blob d)"
  by (simp add: read_op_def read_tree_def marker_def)

lemma entry_a:
  "read_entry C pre rec ''message'' m t = read_message C pre t"
  "read_entry C pre rec ''author'' m t = read_author pre t"
  "read_entry C pre rec ''committer'' m t = read_committer pre t"
  "read_entry C pre rec ''compose'' m t = read_compose pre rec t"
  "read_entry C pre rec ''subtract'' m t = read_subtract pre rec t"
  "read_entry C pre rec ''chain'' m t = read_chain pre rec t"
  "read_entry C pre rec ''exclude'' m t = read_single pre rec Exclude ''exclude'' t"
  "read_entry C pre rec ''select'' m t = read_single pre rec Select ''select'' t"
  "read_entry C pre rec ''pin'' m t = read_single pre rec Pin ''pin'' t"
  "read_entry C pre rec ''subdir'' m t = read_path pre Subdir ''subdir: missing path'' t"
  by (simp_all add: read_entry_def)

lemma entry_b:
  "read_entry C pre rec ''prefix'' m t = read_path pre Prefix ''prefix: missing path'' t"
  "read_entry C pre rec ''embed'' m t = read_path pre Embed ''embed: missing path'' t"
  "read_entry C pre rec ''workspace'' m t = read_path pre Workspace ''workspace: missing path'' t"
  "read_entry C pre rec ''stored'' m t = read_path pre Stored ''stored: missing path'' t"
  "read_entry C pre rec ''treederef'' m t = read_path pre ObjectDeref ''treederef: missing path'' t"
  "read_entry C pre rec ''treeref'' m t = read_path pre ObjectRef ''treeref: missing path'' t"
  "read_entry C pre rec ''insert'' m t = read_insert pre t"
  "read_entry C pre rec ''file'' m t = read_file pre t"
  "read_entry C pre rec ''pattern'' m t = read_pattern pre t"
  "read_entry C pre rec ''starlark'' m t = read_scripted pre rec Starlark ''starlark'' t"
  by (simp_all add: read_entry_def)

lemma entry_c:
  "read_entry C pre rec ''treeid'' m t = read_scripted pre rec TreeId ''treeid'' t"
  "read_entry C pre rec ''link'' m t = read_link pre t"
  "read_entry C pre rec ''adapt'' m t = read_adapt pre t"
  "read_entry C pre rec ''rev'' m t = read_rev C pre rec t"
  "read_entry C pre rec ''unapply'' m t = read_unapply C pre rec t"
  "read_entry C pre rec ''squash'' m t = read_squash C pre rec m t"
  "read_entry C pre rec ''regex_replace'' m t = read_regex_replace C pre t"
  "read_entry C pre rec ''hook'' m t = read_hook pre t"
  "read_entry C pre rec ''downstack'' m t = read_downstack C pre t"
  "read_entry C pre rec ''meta'' m t = read_meta pre rec t"
  by (simp_all add: read_entry_def)

lemma entry_d:
  "read_entry C pre rec ''prune'' m t = read_prune pre t"
  "read_entry C pre rec ''nop'' m t = read_marker pre Nop t"
  "read_entry C pre rec ''empty'' m t = read_marker pre Empty t"
  "read_entry C pre rec ''export'' m t = read_marker pre Export t"
  "read_entry C pre rec ''paths'' m t = read_marker pre Paths t"
  "read_entry C pre rec ''unlink'' m t = read_marker pre Unlink t"
  "read_entry C pre rec ''invert'' m t = read_marker pre Invert t"
  "read_entry C pre rec ''index'' m t = read_marker pre Index t"
  "read_entry C pre rec ''fold'' m t = read_marker pre Fold t"
  by (simp_all add: read_entry_def)

lemmas entry_simps = entry_a entry_b entry_c entry_d

subsection \<open>Operators with children\<close>

lemma mapR_map: "mapR f (map g xs) = mapR (\<lambda>x. f (g x)) xs"
  by (induction xs) simp_all

lemma compose_back:
  assumes X: "closed_store X" "obj_tree (map sf fs) \<in> X"
    and ch: "\<And>f. f \<in> set fs \<Longrightarrow> sf f \<in> X \<Longrightarrow> read_child (\<lambda>o'. o' \<in> X) rec (sf f) = Inr (g f)"
  shows "read_compose (\<lambda>o'. o' \<in> X) rec (obj_tree (map sf fs)) = Inr (Compose (by_dec (map g fs)))"
proof -
  obtain es where es: "read_tree (\<lambda>o'. o' \<in> X) (obj_tree (map sf fs)) = Inr es" "map e_oid es = by_dec (map sf fs)"
    "set (map sf fs) \<subseteq> X" using read_obj_tree [OF X] by blast
  have "mapR (\<lambda>e. read_child (\<lambda>o'. o' \<in> X) rec (e_oid e)) es = mapR (read_child (\<lambda>o'. o' \<in> X) rec) (map sf (by_dec fs))"
    using mapR_map [of "read_child (\<lambda>o'. o' \<in> X) rec" e_oid es] es(2) by (simp add: by_dec_map)
  also have "\<dots> = Inr (map g (by_dec fs))"
    unfolding mapR_map using ch es(3) by (intro mapR_Inr) auto
  finally show ?thesis using es(1) by (simp add: read_compose_def by_dec_map)
qed

lemma numbered_back:
  assumes X: "closed_store X" "obj_tree os \<in> X"
    and ch: "\<And>i. i < length os \<Longrightarrow> os ! i \<in> X \<Longrightarrow> rd (os ! i) = Inr (g i)"
  shows "\<exists>es. read_tree (\<lambda>o'. o' \<in> X) (obj_tree os) = Inr es \<and> length es = length os \<and>
    (\<forall>ctx. mapR (\<lambda>i. bindR (named es (dec i) (ctx i)) rd) [0..<length es] = Inr (map g [0..<length os]))"
proof -
  obtain es where es: "read_tree (\<lambda>o'. o' \<in> X) (obj_tree os) = Inr es" "length es = length os" "set os \<subseteq> X"
    "\<And>i context. i < length os \<Longrightarrow> named es (dec i) context = Inr (os ! i)" using read_obj_tree [OF X] by blast
  have "os ! i \<in> X" if "i < length os" for i using es(3) that by auto
  then have "mapR (\<lambda>i. bindR (named es (dec i) (ctx i)) rd) [0..<length es] = Inr (map g [0..<length os])" for ctx
    unfolding es(2) using ch es(4) by (intro mapR_Inr) simp
  then show ?thesis using es(1,2) by blast
qed

lemma chain_back:
  assumes X: "closed_store X" "obj_tree (map sf fs) \<in> X" "fs \<noteq> []"
    and ch: "\<And>f. f \<in> set fs \<Longrightarrow> sf f \<in> X \<Longrightarrow> read_child (\<lambda>o'. o' \<in> X) rec (sf f) = Inr (g f)"
  shows "read_chain (\<lambda>o'. o' \<in> X) rec (obj_tree (map sf fs)) = Inr (Chain (map g fs))"
proof -
  obtain es where es: "read_tree (\<lambda>o'. o' \<in> X) (obj_tree (map sf fs)) = Inr es" "length es = length fs"
    "\<And>ctx. mapR (\<lambda>i. bindR (named es (dec i) (ctx i)) (read_child (\<lambda>o'. o' \<in> X) rec)) [0..<length es] =
      Inr (map (\<lambda>i. g (fs ! i)) [0..<length fs])"
    using numbered_back [OF X(1,2), of "read_child (\<lambda>o'. o' \<in> X) rec" "\<lambda>i. g (fs ! i)"] ch by auto
  have "map (\<lambda>i. g (fs ! i)) [0..<length fs] = map g fs" by (rule nth_equalityI) simp_all
  then show ?thesis using es X(3) by (auto simp: read_chain_def)
qed

lemma single_back:
  assumes X: "closed_store X" "obj_tree [sf f] \<in> X" and ch: "sf f \<in> X \<Longrightarrow> read_child (\<lambda>o'. o' \<in> X) rec (sf f) = Inr g"
  shows "read_single (\<lambda>o'. o' \<in> X) rec op n (obj_tree [sf f]) = Inr (op g)"
proof -
  obtain es where es: "read_tree (\<lambda>o'. o' \<in> X) (obj_tree [sf f]) = Inr es" "length es = 1" "sf f \<in> X"
    "\<And>i context. i < 1 \<Longrightarrow> named es (dec i) context = Inr ([sf f] ! i)" using read_obj_tree [OF X] by auto
  from es(4) [of 0] show ?thesis using es(1-3) ch by (simp add: read_single_def dec_small)
qed

lemma subtract_back:
  assumes X: "closed_store X" "obj_tree [sf a, sf b] \<in> X"
    and ch: "sf a \<in> X \<Longrightarrow> read_child (\<lambda>o'. o' \<in> X) rec (sf a) = Inr a'" "sf b \<in> X \<Longrightarrow> read_child (\<lambda>o'. o' \<in> X) rec (sf b) = Inr b'"
  shows "read_subtract (\<lambda>o'. o' \<in> X) rec (obj_tree [sf a, sf b]) = Inr (Subtract a' b')"
proof -
  obtain es where es: "read_tree (\<lambda>o'. o' \<in> X) (obj_tree [sf a, sf b]) = Inr es" "length es = 2" "sf a \<in> X" "sf b \<in> X"
    "\<And>i context. i < 2 \<Longrightarrow> named es (dec i) context = Inr ([sf a, sf b] ! i)" using read_obj_tree [OF X] by auto
  from es(5) [of 0] es(5) [of 1] show ?thesis using es(1-4) ch
    by (auto simp: read_subtract_def dec_small read_child_def bindR_Inr_iff)
qed

lemma get_keyed:
  assumes "closed_store X" "keyed key o' \<in> X"
  shows "\<exists>es. read_tree (\<lambda>o'. o' \<in> X) (keyed key o') = Inr es \<and> named_blob (\<lambda>o'. o' \<in> X) es ''o'' c = Inr key \<and>
    named es ''f'' c' = Inr o' \<and> o' \<in> X"
proof -
  let ?es = "[Entry mode_blob ''o'' (Blob key), Entry mode_tree ''f'' o']"
  have "Blob key \<in> X" "o' \<in> X" using closed_sorted [OF assms(1) assms(2) [unfolded keyed_def]] by force+
  then show ?thesis using read_sorted [OF assms(2) [unfolded keyed_def]]
    by (simp add: keyed_def named_blob_def named_def) (simp add: get_name_def read_blob_def)
qed

lemma read_keyed_back:
  assumes "closed_store X" "keyed (lazy_ref_str r) t \<in> X" "ref_ok C r"
    and ch: "t \<in> X \<Longrightarrow> read_child (\<lambda>o'. o' \<in> X) rec t = Inr g"
  shows "read_keyed C (\<lambda>o'. o' \<in> X) rec n (keyed (lazy_ref_str r) t) = Inr (r, g)"
  using get_keyed [OF assms(1,2), of "n @ '': missing key''" "n @ '': missing filter''"] assms(3) ch
  by (auto simp: read_keyed_def ref_ok_def read_child_def bindR_Inr_iff)

lemma utf8_Cons_ascii: "byte c \<le> 127 \<Longrightarrow> valid_utf8 (c # s) = valid_utf8 s"
  by simp

lemma parse_rev_key_back:
  assumes "if m = DefaultRev then r = Resolved zero_hex else ref_ok C r"
  shows "parse_rev_key C (rev_key m r) = Inr (m, r)" and "valid_utf8 (rev_key m r)"
  using assms
  by (cases m; simp add: parse_rev_key_def ref_ok_def prefix_def del: valid_utf8.simps
      add: utf8_names utf8_Cons_ascii byte_def)+

lemma read_rev_entry_back:
  assumes X: "closed_store X" "keyed (rev_key m r) t \<in> X" and r: "if m = DefaultRev then r = Resolved zero_hex else ref_ok C r"
    and ch: "t \<in> X \<Longrightarrow> read_child (\<lambda>o'. o' \<in> X) rec t = Inr g"
  shows "read_rev_entry C (\<lambda>o'. o' \<in> X) rec (keyed (rev_key m r) t) = Inr (m, r, g)"
  using get_keyed [OF X, of "''rev: missing key''" "''rev: missing filter''"] parse_rev_key_back [OF r] ch
  by (auto simp: read_rev_entry_def read_child_def bindR_Inr_iff simp del: valid_utf8.simps)

lemma rev_back:
  assumes X: "closed_store X" "obj_tree (map (\<lambda>(m, r, f). keyed (rev_key m r) (sf f)) arms) \<in> X"
    and r: "\<And>m r f. (m, r, f) \<in> set arms \<Longrightarrow> if m = DefaultRev then r = Resolved zero_hex else ref_ok C r"
    and ch: "\<And>m r f. (m, r, f) \<in> set arms \<Longrightarrow> sf f \<in> X \<Longrightarrow> read_child (\<lambda>o'. o' \<in> X) rec (sf f) = Inr (g f)"
  shows "read_rev C (\<lambda>o'. o' \<in> X) rec (obj_tree (map (\<lambda>(m, r, f). keyed (rev_key m r) (sf f)) arms)) =
    Inr (Rev (map (\<lambda>(m, r, f). (m, r, g f)) arms))"
proof -
  let ?k = "\<lambda>(m, r, f). keyed (rev_key m r) (sf f)" and ?g = "\<lambda>(m, r, f). (m, r, g f)"
  have entry: "read_rev_entry C (\<lambda>o'. o' \<in> X) rec (?k arm) = Inr (?g arm)" if "arm \<in> set arms" "?k arm \<in> X" for arm
  proof -
    obtain m r f where arm: "arm = (m, r, f)" by (metis prod.exhaust)
    show ?thesis using read_rev_entry_back [of X m r "sf f" C rec "g f"] X(1) r ch that arm by auto
  qed
  obtain es where es: "read_tree (\<lambda>o'. o' \<in> X) (obj_tree (map ?k arms)) = Inr es" "length es = length arms"
    "\<And>ctx. mapR (\<lambda>i. bindR (named es (dec i) (ctx i)) (read_rev_entry C (\<lambda>o'. o' \<in> X) rec)) [0..<length es] =
      Inr (map (\<lambda>i. ?g (arms ! i)) [0..<length arms])"
    using numbered_back [OF X, of "read_rev_entry C (\<lambda>o'. o' \<in> X) rec" "\<lambda>i. ?g (arms ! i)"] entry by auto
  have "map (\<lambda>i. ?g (arms ! i)) [0..<length arms] = map ?g arms" by (rule nth_equalityI) simp_all
  then show ?thesis using es by (simp add: read_rev_def)
qed

lemma unapply_back:
  assumes X: "closed_store X" "obj_tree [keyed (lazy_ref_str r) (sf f)] \<in> X" "ref_ok C r"
    and ch: "sf f \<in> X \<Longrightarrow> read_child (\<lambda>o'. o' \<in> X) rec (sf f) = Inr g"
  shows "read_unapply C (\<lambda>o'. o' \<in> X) rec (obj_tree [keyed (lazy_ref_str r) (sf f)]) = Inr (Unapply r g)"
proof -
  let ?k = "keyed (lazy_ref_str r) (sf f)"
  obtain es where es: "read_tree (\<lambda>o'. o' \<in> X) (obj_tree [?k]) = Inr es" "map e_oid es = by_dec [?k]" "?k \<in> X"
    using read_obj_tree [OF X(1,2)] by auto
  have "by_dec [?k] = [?k]" by (rule by_dec_small) simp
  then obtain e where "es = [e]" "e_oid e = ?k" using es(2) by auto
  then show ?thesis using es(1) read_keyed_back [OF X(1) es(3) X(3), of rec g] ch by (simp add: read_unapply_def)
qed

lemma squash_back:
  assumes X: "closed_store X" "obj_tree (map (\<lambda>(r, f). keyed (lazy_ref_str r) (sf f)) ids) \<in> X" and s: "bt_sorted ids"
    and r: "\<And>r f. (r, f) \<in> set ids \<Longrightarrow> ref_ok C r"
    and ch: "\<And>r f. (r, f) \<in> set ids \<Longrightarrow> sf f \<in> X \<Longrightarrow> read_child (\<lambda>o'. o' \<in> X) rec (sf f) = Inr (g f)"
  shows "read_squash C (\<lambda>o'. o' \<in> X) rec mode_tree (obj_tree (map (\<lambda>(r, f). keyed (lazy_ref_str r) (sf f)) ids)) =
    Inr (Squash (Some (map (\<lambda>(r, f). (r, g f)) ids)))"
proof -
  let ?k = "\<lambda>(r, f). keyed (lazy_ref_str r) (sf f)" and ?g = "\<lambda>(r, f). (r, g f)"
  let ?rd = "read_keyed C (\<lambda>o'. o' \<in> X) rec ''squash''"
  obtain es where es: "read_tree (\<lambda>o'. o' \<in> X) (obj_tree (map ?k ids)) = Inr es" "map e_oid es = by_dec (map ?k ids)"
    "set (map ?k ids) \<subseteq> X" using read_obj_tree [OF X] by blast
  have "?rd (?k kv) = Inr (?g kv)" if "kv \<in> set ids" for kv
  proof -
    obtain r f where kv: "kv = (r, f)" by fastforce
    show ?thesis using read_keyed_back [of X r "sf f" C rec "g f"] X(1) r ch that kv es(3) by auto
  qed
  then have "mapR ?rd (map ?k (by_dec ids)) = Inr (map ?g (by_dec ids))"
    unfolding mapR_map by (intro mapR_Inr) simp
  then have "mapR (\<lambda>e. ?rd (e_oid e)) es = Inr (map ?g (by_dec ids))"
    using mapR_map [of ?rd e_oid es] es(2) by (simp add: by_dec_map)
  moreover have "bt_of_list (map ?g (by_dec ids)) = map ?g ids"
  proof (rule bt_of_list_perm)
    have fst: "map fst (map ?g xs) = map fst xs" for xs by (simp add: comp_def case_prod_unfold)
    show "bt_sorted (map ?g ids)" using s unfolding bt_sorted_def fst .
    have "distinct (map fst ids)" using s by (simp add: bt_sorted_def strict_sorted_iff)
    then have "distinct (by_dec (map fst ids))" by (simp add: by_dec_def distinct_map inj_on_nth)
    then show "distinct (map fst (map ?g (by_dec ids)))" unfolding fst by (simp add: by_dec_map)
  qed simp
  ultimately show ?thesis using es(1) by (simp add: read_squash_def)
qed

lemma regex_back:
  assumes X: "closed_store X" "obj_tree (map (\<lambda>(a, b). sorted_tree [Entry mode_blob ''p'' (Blob a), Entry mode_blob ''r'' (Blob b)]) rs) \<in> X"
    and r: "\<And>a b. (a, b) \<in> set rs \<Longrightarrow> valid_utf8 a \<and> valid_utf8 b \<and> regex_new C a"
  shows "read_regex_replace C (\<lambda>o'. o' \<in> X)
    (obj_tree (map (\<lambda>(a, b). sorted_tree [Entry mode_blob ''p'' (Blob a), Entry mode_blob ''r'' (Blob b)]) rs)) = Inr (RegexReplace (by_dec rs))"
proof -
  let ?k = "\<lambda>(a, b). sorted_tree [Entry mode_blob ''p'' (Blob a), Entry mode_blob ''r'' (Blob b)]"
  obtain es where es: "read_tree (\<lambda>o'. o' \<in> X) (obj_tree (map ?k rs)) = Inr es" "map e_oid es = by_dec (map ?k rs)"
    "set (map ?k rs) \<subseteq> X" using read_obj_tree [OF X] by blast
  have entry: "read_regex_entry C (\<lambda>o'. o' \<in> X) e = Inr ab" if "ab \<in> set rs" "e_oid e = ?k ab" for ab e
  proof -
    obtain a b where ab: "ab = (a, b)" by fastforce
    let ?es = "[Entry mode_blob ''p'' (Blob a), Entry mode_blob ''r'' (Blob b)]"
    have k: "sorted_tree ?es \<in> X" using es(3) that(1) ab by auto
    have "Blob a \<in> X" "Blob b \<in> X" using closed_sorted [OF X(1) k] by force+
    then have blobs: "named_blob (\<lambda>o'. o' \<in> X) ?es ''p'' c = Inr a" "named_blob (\<lambda>o'. o' \<in> X) ?es ''r'' c = Inr b" for c
      by (simp_all add: named_blob_def named_def get_name_def read_blob_def)
    have "sort_key e_name ?es = ?es" by simp
    then show ?thesis using read_sorted [OF k] that(2) ab blobs r that(1) by (simp add: read_regex_entry_def)
  qed
  have "list_all2 (\<lambda>e ab. read_regex_entry C (\<lambda>o'. o' \<in> X) e = Inr ab) es (by_dec rs)"
  proof (rule list_all2_all_nthI)
    have eq: "map e_oid es = map ?k (by_dec rs)" using es(2) by (simp add: by_dec_map)
    show len: "length es = length (by_dec rs)" using arg_cong [OF eq, of length] by simp
    fix i assume i: "i < length es"
    have "by_dec rs ! i \<in> set (by_dec rs)" by (rule nth_mem) (use len i in simp)
    moreover have "e_oid (es ! i) = ?k (by_dec rs ! i)" using arg_cong [OF eq, of "\<lambda>xs. xs ! i"] i len by simp
    ultimately show "read_regex_entry C (\<lambda>o'. o' \<in> X) (es ! i) = Inr (by_dec rs ! i)" using entry by simp
  qed
  then have "mapR (read_regex_entry C (\<lambda>o'. o' \<in> X)) es = Inr (by_dec rs)" by (simp add: mapR_Inr_iff)
  then show ?thesis using es(1) by (simp add: read_regex_replace_def)
qed

lemma insert_inline_back:
  assumes X: "closed_store X" "str_tree [path_str p, ''inline'', s] \<in> X" "path_ok p" "valid_utf8 s"
  shows "read_insert (\<lambda>o'. o' \<in> X) (str_tree [path_str p, ''inline'', s]) = Inr (Insert p (Inline s))"
proof -
  obtain es where es: "read_tree (\<lambda>o'. o' \<in> X) (str_tree [path_str p, ''inline'', s]) = Inr es"
    "\<And>i context. i < 3 \<Longrightarrow> named_blob (\<lambda>o'. o' \<in> X) es (dec i) context = Inr ([path_str p, ''inline'', s] ! i)"
    "\<And>n. (\<And>i. n \<noteq> dec i) \<Longrightarrow> get_name es n = None"
    using read_str_tree [OF X(1,2)] by auto
  have "''o'' \<noteq> dec i" for i
  proof
    assume i: "''o'' = dec i"
    show False
    proof (cases "i < 10")
      case True
      then have "(of_char (digit i) :: nat) = 48 + i" by (simp add: digit_def of_char_of)
      moreover have "digit i = CHR ''o''" using True i by (simp add: dec.simps [of i])
      ultimately show False using True by simp
    next
      case False
      then have "''o'' = dec (i div 10) @ [digit (i mod 10)]" using i by (simp add: dec.simps [of i])
      moreover have "dec (i div 10) \<noteq> []" by (subst dec.simps) simp
      ultimately show False by (cases "dec (i div 10)") auto
    qed
  qed
  with es(3) have "get_name es ''o'' = None" by blast
  then show ?thesis using es(1) es(2) [of 0] es(2) [of 1] es(2) [of 2] X(3,4)
    by (simp add: read_insert_def dec_small path_ok_def path_of_string_str utf8_names del: valid_utf8.simps)
qed

lemma insert_oid_back:
  assumes X: "closed_store X" "sorted_tree [Entry mode_blob ''0'' (Blob (path_str p)), Entry m ''o'' o'] \<in> X" "path_ok p"
  shows "read_insert (\<lambda>o'. o' \<in> X) (sorted_tree [Entry mode_blob ''0'' (Blob (path_str p)), Entry m ''o'' o']) = Inr (Insert p (InsOid o'))"
proof -
  let ?es = "[Entry mode_blob ''0'' (Blob (path_str p)), Entry m ''o'' o']"
  have "Blob (path_str p) \<in> X" using closed_sorted [OF X(1,2), of "Entry mode_blob ''0'' (Blob (path_str p))"] by simp
  then have "named_blob (\<lambda>o'. o' \<in> X) ?es ''0'' c = Inr (path_str p)" for c
    by (simp add: named_blob_def named_def get_name_def read_blob_def)
  moreover have "get_name ?es ''o'' = Some (Entry m ''o'' o')" by (simp add: get_name_def)
  moreover have "sort_key e_name ?es = ?es" by simp
  ultimately show ?thesis using read_sorted [OF X(2)] X(3) by (simp add: read_insert_def path_ok_def path_of_string_str)
qed

lemma meta_back:
  assumes X: "closed_store X" "sorted_tree (map (\<lambda>(k, v). Entry mode_blob k (Blob v)) meta @ [Entry mode_tree ''0'' t]) \<in> X"
    and m: "bt_sorted meta" "\<And>k v. (k, v) \<in> set meta \<Longrightarrow> k \<noteq> ''0'' \<and> valid_utf8 k \<and> valid_utf8 v"
    and ch: "t \<in> X \<Longrightarrow> read_child (\<lambda>o'. o' \<in> X) rec t = Inr g"
  shows "read_meta (\<lambda>o'. o' \<in> X) rec (sorted_tree (map (\<lambda>(k, v). Entry mode_blob k (Blob v)) meta @ [Entry mode_tree ''0'' t])) =
    Inr (Meta meta g)"
proof -
  let ?es = "map (\<lambda>(k, v). Entry mode_blob k (Blob v)) meta @ [Entry mode_tree ''0'' t]"
  let ?s = "sort_key e_name ?es"
  have names: "map e_name ?es = map fst meta @ [''0'']" by (simp add: comp_def case_prod_unfold)
  have dk: "distinct (map fst meta)" using m(1) by (simp add: bt_sorted_def strict_sorted_iff)
  then have d: "distinct (map e_name ?es)" unfolding names using m(2) by force
  have t: "t \<in> X" using closed_sorted [OF X, of "Entry mode_tree ''0'' t"] by simp
  have "named ?s ''0'' c = Inr t" for c
    using get_name_sort [OF d, of "''0''"] get_name_iff [OF d, of "''0''" "Entry mode_tree ''0'' t"] by (simp add: named_def)
  moreover define bd where "bd o' = (case o' of Blob d \<Rightarrow> d | _ \<Rightarrow> [])" for o'
  define gk where "gk e = (if e_name e = ''0'' then None else Some (e_name e, bd (e_oid e)))" for e
  have "read_meta_entry (\<lambda>o'. o' \<in> X) e = Inr (gk e)" if e': "e \<in> set ?es" for e
  proof (cases "e = Entry mode_tree ''0'' t")
    case False
    then obtain k v where e: "e = Entry mode_blob k (Blob v)" "(k, v) \<in> set meta" using e' by auto
    then have "Blob v \<in> X" using closed_sorted [OF X, of e] e' by simp
    then show ?thesis using m(2) e by (auto simp: read_meta_entry_def read_blob_def gk_def bd_def)
  qed (simp add: read_meta_entry_def gk_def utf8_names del: valid_utf8.simps)
  then have "mapR (read_meta_entry (\<lambda>o'. o' \<in> X)) ?s = Inr (map gk ?s)" by (intro mapR_Inr) simp
  moreover have "bt_of_list (List.map_filter id (map gk ?s)) = meta"
  proof (rule bt_of_list_perm [OF m(1)])
    let ?f = "List.filter (\<lambda>e. e_name e \<noteq> ''0'')"
    have mf: "List.map_filter id (map gk xs) = map (\<lambda>e. (e_name e, bd (e_oid e))) (?f xs)" for xs
      by (induction xs) (simp_all add: gk_def List.map_filter_simps)
    have "set (?f ?s) = set (map (\<lambda>(k, v). Entry mode_blob k (Blob v)) meta)" by (auto dest: m(2))
    then have "set (List.map_filter id (map gk ?s)) = (\<lambda>e. (e_name e, bd (e_oid e))) ` (\<lambda>(k, v). Entry mode_blob k (Blob v)) ` set meta"
      unfolding mf by simp
    also have "\<dots> = (\<lambda>kv. kv) ` set meta"
      unfolding image_image using m(2) by (intro image_cong refl) (auto simp: bd_def)
    finally show "set (List.map_filter id (map gk ?s)) = set meta" by simp
    have "distinct (map e_name ?s)" by (rule distinct_sort_names [OF d])
    then have "distinct (map e_name (?f ?s))" by (rule distinct_map_filter)
    then show "distinct (map fst (List.map_filter id (map gk ?s)))" unfolding mf by (simp add: comp_def)
  qed
  ultimately show ?thesis using read_sorted [OF X(2)] ch [OF t] by (auto simp: read_meta_def read_child_def bindR_Inr_iff)
qed

subsection \<open>Whole filters\<close>

lemma utf8_modes: "valid_utf8 ''embedded''" "valid_utf8 ''snapshot''" "valid_utf8 ''pointer''"
  by code_simp+

lemma link_mode_back: "link_mode_parse (link_mode_str m) = Inr m" "link_mode_str m \<noteq> []" "valid_utf8 (link_mode_str m)"
  by (cases m; simp add: link_mode_parse_def utf8_modes del: valid_utf8.simps(2))+

lemma read_taggedI:
  "closed_store X \<Longrightarrow> tagged n t \<in> X \<Longrightarrow> valid_utf8 n \<Longrightarrow>
    (t \<in> X \<Longrightarrow> read_entry C (\<lambda>o'. o' \<in> X) rec n mode_tree t = r) \<Longrightarrow> read_op C (\<lambda>o'. o' \<in> X) rec (tagged n t) = r"
  using closed_tagged read_op_tagged by metis

lemma read_markerI:
  "closed_store X \<Longrightarrow> marker n d \<in> X \<Longrightarrow> valid_utf8 n \<Longrightarrow>
    (Blob d \<in> X \<Longrightarrow> read_entry C (\<lambda>o'. o' \<in> X) rec n mode_blob (Blob d) = r) \<Longrightarrow> read_op C (\<lambda>o'. o' \<in> X) rec (marker n d) = r"
  using closed_marker read_op_marker by metis

lemmas leaf_defs = read_marker_def read_blob_def read_prune_def read_path_str read_adapt_def read_hook_def read_author_def
  read_committer_def read_message_def read_file_def read_pattern_def read_downstack_def one_param_str two_params_str
  path_of_string_str

lemma read_leaf:
  assumes X: "closed_store X" "enc C True ch f \<in> X" and f: "storable C f" "child_filters f = []"
    "\<forall>fs. f \<noteq> Compose fs \<and> f \<noteq> Chain fs" "\<forall>arms. f \<noteq> Rev arms" "\<forall>ids. f \<noteq> Squash (Some ids)"
  shows "read_op C (\<lambda>o'. o' \<in> X) rec (enc C True ch f) = Inr (as_read f)"
proof (cases f)
  case (Insert p c)
  then show ?thesis using assms
    by (cases c) (auto intro!: read_taggedI [OF X(1)] simp: utf8_names entry_simps insert_inline_back insert_oid_back simp del: valid_utf8.simps(2))
next
  case (Squash ids)
  then show ?thesis using assms
    by (cases ids) (auto intro!: read_markerI [OF X(1)] simp: utf8_names entry_simps read_squash_def read_blob_def simp del: valid_utf8.simps(2))
next
  case (Link mode)
  then show ?thesis using assms
    by (cases mode) (auto intro!: read_taggedI [OF X(1)] simp: utf8_names entry_simps read_link_def one_param_str link_mode_back simp del: valid_utf8.simps(2))
next
  case (RegexReplace rs)
  have "valid_utf8 a \<and> valid_utf8 b \<and> regex_new C a" if "(a, b) \<in> set rs" for a b
    using f(1) that RegexReplace by (auto simp: list_all_iff simp del: valid_utf8.simps(2))
  from regex_back [OF X(1) _ this] show ?thesis using assms RegexReplace
    by (auto intro!: read_taggedI [OF X(1)] simp: utf8_names entry_simps simp del: valid_utf8.simps(2))
qed (use assms in \<open>auto intro!: read_taggedI [OF X(1)] read_markerI [OF X(1)] simp: utf8_names entry_simps leaf_defs path_ok_def ref_ok_def ok_iff
    simp del: valid_utf8.simps(2)\<close>)

lemma from_tree2_form:
  assumes X: "closed_store X"
  shows "all_below (storable C) f \<Longrightarrow> stored_form C True f \<in> X \<Longrightarrow>
    from_tree2 C (\<lambda>o'. o' \<in> X) (stored_form C True f) = Inr (as_read f)"
proof (induction "nodes f" arbitrary: f rule: less_induct)
  case less
  let ?sf = "stored_form C True" and ?rec = "from_tree2 C (\<lambda>o'. o' \<in> X)"
  have f: "storable C f" by (rule all_belowD(1) [OF less.prems(1)])
  have ch: "read_child (\<lambda>o'. o' \<in> X) ?rec (?sf g) = Inr (as_read g)" if "g \<in> set (child_filters f)" "?sf g \<in> X" for g
    using less.hyps [OF nodes_child [OF that(1)] all_belowD(2) [OF less.prems(1) that(1)] that(2)] that(2)
    by (rule read_child_ok [rotated])
  have e: "enc C True ?sf f \<in> X" using less.prems(2) by (simp add: stored_form.simps [of C True f])
  have "read_op C (\<lambda>o'. o' \<in> X) ?rec (enc C True ?sf f) = Inr (as_read f)"
  proof (cases f)
    case (Compose fs)
    then show ?thesis using e ch compose_back [OF X, of ?sf fs ?rec as_read]
      by (auto intro!: read_taggedI [OF X] simp: utf8_names entry_simps simp del: valid_utf8.simps(2))
  next
    case (Chain fs)
    then show ?thesis using e ch f chain_back [OF X, of ?sf fs ?rec as_read]
      by (auto intro!: read_taggedI [OF X] simp: utf8_names entry_simps simp del: valid_utf8.simps(2))
  next
    case (Rev arms)
    have "read_child (\<lambda>o'. o' \<in> X) ?rec (?sf g) = Inr (as_read g)" if "(m, r, g) \<in> set arms" "?sf g \<in> X" for m r g
      using ch [of g] that Rev by force
    moreover have "if m = DefaultRev then r = Resolved zero_hex else ref_ok C r" if "(m, r, g) \<in> set arms" for m r g
      using f that Rev by (auto simp: list_all_iff)
    ultimately have "obj_tree (map (\<lambda>(m, r, f). keyed (rev_key m r) (?sf f)) arms) \<in> X \<Longrightarrow>
        read_rev C (\<lambda>o'. o' \<in> X) ?rec (obj_tree (map (\<lambda>(m, r, f). keyed (rev_key m r) (?sf f)) arms)) =
        Inr (Rev (map (\<lambda>(m, r, f). (m, r, as_read f)) arms))"
      by (intro rev_back [OF X]) blast+
    then show ?thesis using e Rev
      by (auto intro!: read_taggedI [OF X] simp: utf8_names entry_simps simp del: valid_utf8.simps(2))
  next
    case (Squash ids)
    show ?thesis
    proof (cases ids)
      case None
      then show ?thesis using Squash f e by (intro read_leaf [OF X]) simp_all
    next
      case (Some m)
      have "read_child (\<lambda>o'. o' \<in> X) ?rec (?sf g) = Inr (as_read g)" if "(r, g) \<in> set m" "?sf g \<in> X" for r g
        using ch [of g] that Squash Some by force
      moreover have "bt_sorted m" "\<And>r g. (r, g) \<in> set m \<Longrightarrow> ref_ok C r" using f Squash Some by (auto simp: list_all_iff)
      ultimately have "obj_tree (map (\<lambda>(r, f). keyed (lazy_ref_str r) (?sf f)) m) \<in> X \<Longrightarrow>
          read_squash C (\<lambda>o'. o' \<in> X) ?rec mode_tree (obj_tree (map (\<lambda>(r, f). keyed (lazy_ref_str r) (?sf f)) m)) =
          Inr (Squash (Some (map (\<lambda>(r, f). (r, as_read f)) m)))"
        by (intro squash_back [OF X]) blast+
      then show ?thesis using e Squash Some
        by (auto intro!: read_taggedI [OF X] simp: utf8_names entry_simps simp del: valid_utf8.simps(2))
    qed
  next
    case (Meta m g)
    have "k \<noteq> ''0'' \<and> valid_utf8 k \<and> valid_utf8 v" if "(k, v) \<in> set m" for k v
      using f that Meta by (auto simp: list_all_iff simp del: valid_utf8.simps(2))
    from meta_back [OF X _ _ this] show ?thesis using e ch f Meta
      by (auto intro!: read_taggedI [OF X] simp: utf8_names entry_simps simp del: valid_utf8.simps(2))
  next
    case (Unapply r g)
    then show ?thesis using e ch f unapply_back [OF X, of r ?sf g C ?rec "as_read g"]
      by (auto intro!: read_taggedI [OF X] simp: utf8_names entry_simps simp del: valid_utf8.simps(2))
  next
    case (Subtract a b)
    then show ?thesis using e ch subtract_back [OF X, of ?sf a b ?rec "as_read a" "as_read b"]
      by (auto intro!: read_taggedI [OF X] simp: utf8_names entry_simps simp del: valid_utf8.simps(2))
  next
    case (Exclude g)
    then show ?thesis using e ch single_back [OF X, of ?sf g ?rec "as_read g"]
      by (auto intro!: read_taggedI [OF X] simp: utf8_names entry_simps simp del: valid_utf8.simps(2))
  next
    case (Select g)
    then show ?thesis using e ch single_back [OF X, of ?sf g ?rec "as_read g"]
      by (auto intro!: read_taggedI [OF X] simp: utf8_names entry_simps simp del: valid_utf8.simps(2))
  next
    case (Pin g)
    then show ?thesis using e ch single_back [OF X, of ?sf g ?rec "as_read g"]
      by (auto intro!: read_taggedI [OF X] simp: utf8_names entry_simps simp del: valid_utf8.simps(2))
  qed (rule read_leaf [OF X e f]; use f in \<open>simp\<close>)+
  then show ?case unfolding stored_form.simps [of C True f] by (subst from_tree2.simps)
qed

subsection \<open>Short lists\<close>

fun short_lists :: "filt \<Rightarrow> bool" where
  "short_lists (Compose fs) \<longleftrightarrow> length fs \<le> 10"
| "short_lists (RegexReplace rs) \<longleftrightarrow> length rs \<le> 10"
| "short_lists f \<longleftrightarrow> True"

lemma as_read_short: "all_below short_lists f \<Longrightarrow> as_read f = f"
proof (induction "nodes f" arbitrary: f rule: less_induct)
  case less
  have ch: "as_read g = g" if "g \<in> set (child_filters f)" for g
    using less.hyps [OF nodes_child [OF that] all_belowD(2) [OF less.prems that]] .
  have s: "short_lists f" by (rule all_belowD(1) [OF less.prems])
  show ?case
  proof (cases f)
    case (Compose fs)
    then have "map as_read fs = fs" using ch by (intro map_idI) simp
    then show ?thesis using Compose s by (simp add: by_dec_small)
  next
    case (Rev arms)
    then have "as_read g = g" if "(m, r, g) \<in> set arms" for m r g using ch [of g] that by force
    then show ?thesis using Rev by (auto intro!: map_idI)
  next
    case (Squash ids)
    show ?thesis
    proof (cases ids)
      case (Some m)
      then have "as_read g = g" if "(r, g) \<in> set m" for r g using ch [of g] that Squash by force
      then show ?thesis using Squash Some by (auto intro!: map_idI)
    qed (use Squash in simp)
  qed (use ch s in \<open>auto simp: by_dec_small intro!: map_idI\<close>)
qed

subsection \<open>Properties\<close>

lemma persisted:
  assumes "names_plain C" "closed_store (insert (Blob []) S)" "all_below (writable (Some (\<lambda>o'. o' \<in> S))) f"
  shows "\<exists>s. build_persist C (\<lambda>o'. o' \<in> S) f new_builder = (Inr (stored_form C True f), s) \<and>
    closed_store (set (pending s) \<union> S) \<and> stored_form C True f \<in> set (pending s) \<union> S"
proof -
  have "building C S new_builder" using assms(2) by (simp add: building_def new_builder_def)
  from build_persist_form [OF assms(1,3) this] obtain s where
    s: "build_persist C (\<lambda>o'. o' \<in> S) f new_builder = (Inr (stored_form C True f), s)" "building C S s"
    "(f, stored_form C True f) \<in> set (persist_ids s)" by auto
  then show ?thesis unfolding building_def by blast
qed

lemma set_flush: "set (flush s store) = set (pending s) \<union> set store"
  by (auto simp: flush_def)

lemma closed_blob: "closed_store S \<Longrightarrow> closed_store (insert (Blob d) S)"
  by (auto simp: closed_store_def)

text \<open>
  C10. Storing a filter leaves a complete tree: when the object store holds whatever its trees refer to, it does so
  afterwards, nothing is lost, the tree of the optimized filter is in it, and this tree has the documented format.
\<close>

theorem as_tree_complete:
  assumes "names_plain C" and "closed_store (set store)" and "optimize n f = Some g"
    and "all_below (writable (Some (\<lambda>o'. o' \<in> set store))) g"
  shows "\<exists>store'. as_tree C n f store = Some (Inr (stored_form C True g), store') \<and> closed_store (set store') \<and>
    set store \<subseteq> set store' \<and> stored_form C True g \<in> set store'"
proof -
  obtain s where s: "build_persist C (\<lambda>o'. o' \<in> set store) g new_builder = (Inr (stored_form C True g), s)"
    "closed_store (set (pending s) \<union> set store)" "stored_form C True g \<in> set (pending s) \<union> set store"
    using persisted [OF assms(1) closed_blob [OF assms(2)] assms(4)] by blast
  have "as_tree C n f store = Some (Inr (stored_form C True g), flush s store)"
    by (simp add: as_tree_def assms(3) s(1))
  then show ?thesis using s(2,3) by (auto simp: set_flush)
qed

lemma reads_back:
  assumes "names_plain C" and "closed_store (set store)" and "all_below (writable (Some (\<lambda>o'. o' \<in> set store))) f"
    and "all_below (storable C) f"
  shows "\<exists>root s. build_persist C (\<lambda>o'. o' \<in> set store) f new_builder = (Inr root, s) \<and>
    filter_from_tree C (\<lambda>o'. o' \<in> set (flush s store)) root = Inr (as_read f) \<and>
    (all_below short_lists f \<longrightarrow> filter_from_tree C (\<lambda>o'. o' \<in> set (flush s store)) root = Inr f)"
proof -
  obtain s where s: "build_persist C (\<lambda>o'. o' \<in> set store) f new_builder = (Inr (stored_form C True f), s)"
    "closed_store (set (flush s store))" "stored_form C True f \<in> set (flush s store)"
    using persisted [OF assms(1) closed_blob [OF assms(2)] assms(3)] by (auto simp: set_flush)
  have "filter_from_tree C (\<lambda>o'. o' \<in> set (flush s store)) (stored_form C True f) = Inr (as_read f)"
    using from_tree2_form [OF s(2) assms(4) s(3)] by (simp add: filter_from_tree_def)
  then show ?thesis using s(1) as_read_short by auto
qed

text \<open>
  C9. Reading back what was stored. A storable filter comes back as \<open>as_read\<close> says, which is the filter itself
  except that the elements of compositions and replacement lists come back in the order of their decimal numbers
  read as texts.
\<close>

theorem persist_reads_back:
  assumes "names_plain C" and "closed_store (set store)" and "all_below (writable (Some (\<lambda>o'. o' \<in> set store))) f"
    and "all_below (storable C) f"
  shows "\<exists>root s. build_persist C (\<lambda>o'. o' \<in> set store) f new_builder = (Inr root, s) \<and>
    filter_from_tree C (\<lambda>o'. o' \<in> set (flush s store)) root = Inr (as_read f) \<and>
    (all_below short_lists f \<longrightarrow> filter_from_tree C (\<lambda>o'. o' \<in> set (flush s store)) root = Inr f)"
  by (rule reads_back [OF assms])

subsection \<open>A codec for examples\<close>

definition plain_codec :: codec where
  "plain_codec = \<lparr> regex_new = \<lambda>_. True,
     json_str = \<lambda>s. if 2 \<le> length s \<and> hd s = CHR 0x22 \<and> last s = CHR 0x22 \<and> CHR 0x22 \<notin> set (butlast (tl s))
       then Some (butlast (tl s)) else None,
     oid_of_hex = \<lambda>s. if length s = 40 then Some s else None, hex_of_oid = \<lambda>_. zero_hex, tree_ok = \<lambda>_. True \<rparr>"

lemma plain_codec_names: "names_plain plain_codec"
  by (simp add: names_plain_def plain_codec_def)

lemma closed_Nil: "closed_store (set [])"
  by (simp add: closed_store_def)

definition mixed :: filt where
  "mixed = Meta [(''history'', ''linear'')] (Compose [Subdir [Normal ''d''],
     Chain [Prefix [Normal ''x''], Rev [(AncestorInclusive, Lazy ''main'', Nop), (DefaultRev, Resolved zero_hex, Empty)]],
     Squash (Some [(Lazy ''a'', Nop), (Lazy ''b'', Pattern ''*.c'')])])"

theorem persist_reads_back_witness:
  "\<exists>root s. build_persist plain_codec (\<lambda>o'. o' \<in> set []) mixed new_builder = (Inr root, s) \<and>
    filter_from_tree plain_codec (\<lambda>o'. o' \<in> set (flush s [])) root = Inr mixed"
proof -
  have "all_below (writable (Some (\<lambda>o'. o' \<in> set []))) mixed" "all_below (storable plain_codec) mixed"
    "all_below short_lists mixed" by code_simp+
  with persist_reads_back [OF plain_codec_names closed_Nil this(1,2)] show ?thesis by auto
qed

theorem as_tree_complete_witness:
  "\<exists>store'. as_tree plain_codec 20 (Chain [Subdir [Normal ''d''], Prefix [Normal ''x'']]) [] =
      Some (Inr (stored_form plain_codec True (Chain [Subdir [Normal ''d''], Prefix [Normal ''x'']])), store') \<and> closed_store (set store')"
proof -
  let ?f = "Chain [Subdir [Normal ''d''], Prefix [Normal ''x'']]"
  have "optimize 20 ?f = Some ?f" "all_below (writable (Some (\<lambda>o'. o' \<in> set []))) ?f" by code_simp+
  with as_tree_complete [OF plain_codec_names closed_Nil this] show ?thesis by auto
qed

text \<open>
  C36. No composition of more than ten filters is read back in its order, for every storable filter, codec and
  store: the third element that comes back is the eleventh that was stored.
\<close>

theorem persist_order_lost:
  assumes "names_plain C" and "closed_store (set store)" and "all_below (writable (Some (\<lambda>o'. o' \<in> set store))) (Compose fs)"
    and "all_below (storable C) (Compose fs)" and "10 < length fs"
  shows "\<exists>root s gs. build_persist C (\<lambda>o'. o' \<in> set store) (Compose fs) new_builder = (Inr root, s) \<and>
    filter_from_tree C (\<lambda>o'. o' \<in> set (flush s store)) root = Inr (Compose gs) \<and> length gs = length fs \<and> gs ! 2 = as_read (fs ! 10)"
proof -
  have "by_dec (map as_read fs) ! 2 = as_read (fs ! 10)" "length (by_dec (map as_read fs)) = length fs"
    using assms(5) dec_order_third [OF assms(5)] by (simp_all add: by_dec_def)
  then show ?thesis using reads_back [OF assms(1-4)] by auto
qed

theorem persist_order_lost_witness:
  "\<exists>root s gs. build_persist plain_codec (\<lambda>o'. o' \<in> set []) (Compose (map (\<lambda>i. Subdir [Normal (dec i)]) [0..<11])) new_builder = (Inr root, s) \<and>
    filter_from_tree plain_codec (\<lambda>o'. o' \<in> set (flush s [])) root = Inr (Compose gs) \<and> gs ! 2 = Subdir [Normal ''10'']"
proof -
  let ?fs = "map (\<lambda>i. Subdir [Normal (dec i)]) [0..<11]"
  have "all_below (writable (Some (\<lambda>o'. o' \<in> set []))) (Compose ?fs)" "all_below (storable plain_codec) (Compose ?fs)" by code_simp+
  moreover have "10 < length ?fs" by simp
  moreover have "as_read (?fs ! 10) = Subdir [Normal ''10'']" by code_simp
  ultimately show ?thesis using persist_order_lost [OF plain_codec_names closed_Nil, of ?fs] by metis
qed

lemma wrapped_unreadable:
  assumes X: "closed_store X" "obj_tree [t] \<in> X"
  shows "from_tree2 C (\<lambda>o'. o' \<in> X) (obj_tree [t]) = Inl UnknownStructure"
proof -
  have "obj_tree [t] = Tree [Entry mode_tree ''0'' t]"
    by (simp add: obj_tree_def sorted_tree_def numbered_def dec_small)
  moreover have "read_entry C present rec ''0'' m o' = Inl UnknownStructure" for present rec m o' by (simp add: read_entry_def)
  ultimately show ?thesis using X(2) utf8_names by (simp add: from_tree2.simps [of C _ "Tree _"] read_op_def read_tree_def)
qed

lemma scripted_unreadable:
  assumes X: "closed_store X" "obj_tree [str_tree [path_str p], obj_tree [t]] \<in> X" and "valid_utf8 (path_str p)"
  shows "read_scripted (\<lambda>o'. o' \<in> X) (from_tree2 C (\<lambda>o'. o' \<in> X)) op n (obj_tree [str_tree [path_str p], obj_tree [t]]) = Inl UnknownStructure"
proof -
  let ?os = "[str_tree [path_str p], obj_tree [t]]"
  obtain es where es: "read_tree (\<lambda>o'. o' \<in> X) (obj_tree ?os) = Inr es" "set ?os \<subseteq> X"
    "\<And>i context. i < length ?os \<Longrightarrow> named es (dec i) context = Inr (?os ! i)"
    using read_obj_tree [OF X] by blast
  from es(2) have os: "str_tree [path_str p] \<in> X" "obj_tree [t] \<in> X" by auto
  obtain ps where ps: "read_tree (\<lambda>o'. o' \<in> X) (str_tree [path_str p]) = Inr ps"
    "\<And>context. named_blob (\<lambda>o'. o' \<in> X) ps (dec 0) context = Inr (path_str p)"
    using read_str_tree [OF X(1) os(1)] by fastforce
  obtain ts where ts: "read_tree (\<lambda>o'. o' \<in> X) (obj_tree [t]) = Inr ts" using read_obj_tree [OF X(1) os(2)] by blast
  from es(3) [of 0] es(3) [of 1] show ?thesis
    using es(1) ps ts assms(3) wrapped_unreadable [OF X(1) os(2)]
    by (simp add: read_scripted_def read_child_def dec_small del: valid_utf8.simps)
qed

text \<open>
  C37. Filters with a script can be stored but never read back: for \<^verbatim>\<open>starlark\<close> and \<^verbatim>\<open>treeid\<close> the writer wraps
  the inner filter in one more tree than the reader expects, and reading fails.
\<close>

theorem scripted_filters_unreadable:
  assumes "names_plain C" and "closed_store (set store)" and "valid_utf8 (path_str p)"
    and "f = Starlark p g \<or> f = TreeId p g" and "all_below (writable (Some (\<lambda>o'. o' \<in> set store))) f"
  shows "\<exists>root s. build_persist C (\<lambda>o'. o' \<in> set store) f new_builder = (Inr root, s) \<and>
    filter_from_tree C (\<lambda>o'. o' \<in> set (flush s store)) root = Inl UnknownStructure"
proof -
  obtain s where s: "build_persist C (\<lambda>o'. o' \<in> set store) f new_builder = (Inr (stored_form C True f), s)"
    "closed_store (set (flush s store))" "stored_form C True f \<in> set (flush s store)"
    using persisted [OF assms(1) closed_blob [OF assms(2)] assms(5)] by (auto simp: set_flush)
  let ?t = "obj_tree [str_tree [path_str p], obj_tree [stored_form C True g]]"
  have "\<exists>n op. stored_form C True f = tagged n ?t \<and> valid_utf8 n \<and>
      (\<forall>present rec. read_entry C present rec n mode_tree ?t = read_scripted present rec op n ?t)"
    using assms(4)
  proof
    assume f: "f = Starlark p g"
    show ?thesis unfolding f
      by (intro exI [of _ "''starlark''"] exI [of _ Starlark])
        (simp add: stored_form.simps [of C True "Starlark p g"] utf8_names entry_simps del: valid_utf8.simps)
  next
    assume f: "f = TreeId p g"
    show ?thesis unfolding f
      by (intro exI [of _ "''treeid''"] exI [of _ TreeId])
        (simp add: stored_form.simps [of C True "TreeId p g"] utf8_names entry_simps del: valid_utf8.simps)
  qed
  then obtain n op where n: "stored_form C True f = tagged n ?t" "valid_utf8 n"
    "\<And>present rec. read_entry C present rec n mode_tree ?t = read_scripted present rec op n ?t" by blast
  have "from_tree2 C (\<lambda>o'. o' \<in> set (flush s store)) (tagged n ?t) = Inl UnknownStructure"
    unfolding from_tree2.simps [of C _ "tagged n ?t"]
    by (rule read_taggedI [OF s(2) s(3) [unfolded n(1)] n(2)]) (simp add: n(3) scripted_unreadable [OF s(2) _ assms(3)])
  then show ?thesis using s(1) n(1) by (simp add: filter_from_tree_def)
qed

theorem scripted_filters_unreadable_witness:
  "\<exists>root s. build_persist plain_codec (\<lambda>o'. o' \<in> set []) (TreeId [Normal ''id''] Nop) new_builder = (Inr root, s) \<and>
    filter_from_tree plain_codec (\<lambda>o'. o' \<in> set (flush s [])) root = Inl UnknownStructure"
proof -
  have "valid_utf8 (path_str [Normal ''id''])" "all_below (writable (Some (\<lambda>o'. o' \<in> set []))) (TreeId [Normal ''id''] Nop)" by code_simp+
  with scripted_filters_unreadable [OF plain_codec_names closed_Nil this(1) _ this(2)] show ?thesis by blast
qed

end
