(* ===== verification/Flang_Print.thy ===== *)
theory Flang_Print
  imports Optimizer
begin

text \<open>
  Printing of filters, \<^verbatim>\<open>josh-filter/src/flang/mod.rs\<close>: the one-line form \<open>spec\<close> and the indented form
  \<open>pretty\<close> that is written to workspace and link files.

  Both simplify what they print, so they take the fuel of the optimizer, and \<open>None\<close> is fuel that ran
  out. Quoting (a JSON string, \<^verbatim>\<open>serde_json\<close>) and the hex form of an object id are parameters. The
  two sentinel filters that only serve as cache keys are not filters of the model.
\<close>

record printer =
  quote :: "string \<Rightarrow> string"
  oid_str :: "obj \<Rightarrow> string"

subsection \<open>Words of the language\<close>

text \<open>The rule \<^verbatim>\<open>filter_path\<close> of \<^verbatim>\<open>grammar.pest\<close>: a nonempty sequence of these characters.\<close>

definition path_char :: "char \<Rightarrow> bool" where
  "path_char c \<longleftrightarrow>
     (CHR ''a'' \<le> c \<and> c \<le> CHR ''z'') \<or> (CHR ''A'' \<le> c \<and> c \<le> CHR ''Z'') \<or>
     (CHR ''0'' \<le> c \<and> c \<le> CHR ''9'') \<or> c \<in> set ''_-+.*~/''"

definition quote_if :: "printer \<Rightarrow> string \<Rightarrow> string" where
  "quote_if pr s = (if s \<noteq> [] \<and> list_all path_char s then s else quote pr s)"

definition message_match_all :: string where
  "message_match_all = ''(?s)^.*$''"

fun rev_match_str :: "rev_match \<Rightarrow> lazy_ref \<Rightarrow> string" where
  "rev_match_str AncestorStrict k = ''<'' @ lazy_ref_str k"
| "rev_match_str AncestorInclusive k = ''<='' @ lazy_ref_str k"
| "rev_match_str EqualRev k = ''=='' @ lazy_ref_str k"
| "rev_match_str DefaultRev k = ''_''"

abbreviation path_arg :: "printer \<Rightarrow> path \<Rightarrow> string" where
  "path_arg pr p \<equiv> quote_if pr (path_str p)"

subsection \<open>One line\<close>

text \<open>The operators without sub-filters.\<close>

fun spec_leaf :: "printer \<Rightarrow> filt \<Rightarrow> string" where
  "spec_leaf pr (Workspace p) = '':workspace='' @ path_arg pr p"
| "spec_leaf pr (Stored p) = '':+'' @ path_arg pr p"
| "spec_leaf pr (ObjectDeref p) = '':#'' @ path_arg pr p"
| "spec_leaf pr (ObjectRef p) = '':&'' @ path_arg pr p"
| "spec_leaf pr (RegexReplace rs) =
    '':replace('' @ join_str '','' (map (\<lambda>r. quote pr (fst r) @ '':'' @ quote pr (snd r)) rs) @ '')''"
| "spec_leaf pr Nop = '':/''"
| "spec_leaf pr Empty = '':empty''"
| "spec_leaf pr Paths = '':PATHS''"
| "spec_leaf pr Invert = '':INVERT''"
| "spec_leaf pr Index = '':INDEX''"
| "spec_leaf pr Fold = '':FOLD''"
| "spec_leaf pr (Squash None) = '':SQUASH''"
| "spec_leaf pr (Adapt adapter) = '':adapt='' @ adapter"
| "spec_leaf pr (Link None) = '':link''"
| "spec_leaf pr (Link (Some mode)) = '':link='' @ link_mode_str mode"
| "spec_leaf pr Export = '':export''"
| "spec_leaf pr Unlink = '':unlink''"
| "spec_leaf pr (Subdir p) = '':/'' @ path_arg pr p"
| "spec_leaf pr (Insert p (Inline s)) = '':$'' @ path_arg pr p @ ''='' @ quote pr s"
| "spec_leaf pr (Insert p (InsOid oid)) = '':$'' @ path_arg pr p @ ''='' @ oid_str pr oid"
| "spec_leaf pr (File dst src) =
    (if src = dst then ''::'' @ path_arg pr dst
     else ''::'' @ path_arg pr dst @ ''='' @ path_arg pr src)"
| "spec_leaf pr Prune = '':prune=trivial-merge''"
| "spec_leaf pr (Prefix p) = '':prefix='' @ path_arg pr p"
| "spec_leaf pr (Pattern glob) = ''::'' @ quote_if pr glob"
| "spec_leaf pr (Embed p) = '':embed='' @ path_arg pr p"
| "spec_leaf pr (Author a e) = '':author='' @ quote pr a @ '';'' @ quote pr e"
| "spec_leaf pr (Committer a e) = '':committer='' @ quote pr a @ '';'' @ quote pr e"
| "spec_leaf pr (Message m r) =
    (if r = message_match_all then '':'' @ quote pr m else '':'' @ quote pr m @ '';'' @ quote pr r)"
| "spec_leaf pr (Hook hook) = '':hook='' @ quote pr hook"
| "spec_leaf pr (Downstack r) = '':_='' @ lazy_ref_str r"
| "spec_leaf pr _ = []"

definition presub_path :: "filt list \<Rightarrow> path option" where
  "presub_path fs =
    (case fs of
       [a, b] \<Rightarrow> (case subdir_arg a of
                    None \<Rightarrow> None
                  | Some p \<Rightarrow> if prefix_arg b = Some p then Some p else None)
     | _ \<Rightarrow> None)"

definition join_specs :: "string \<Rightarrow> string list option \<Rightarrow> string option" where
  "join_specs sep vs = map_option (join_str sep) vs"

primrec spec2 :: "printer \<Rightarrow> nat \<Rightarrow> filt \<Rightarrow> string option" where
  "spec2 pr 0 f = None"
| "spec2 pr (Suc n) f =
    (let spec = (\<lambda>g. Option.bind (simplify n g) (spec2 pr n)) in
     case f of
       Compose fs \<Rightarrow> map_option (\<lambda>s. '':['' @ s @ '']'') (join_specs '','' (mapO spec fs))
     | Subtract a b \<Rightarrow>
         Option.bind (spec a) (\<lambda>sa. map_option (\<lambda>sb. '':subtract['' @ sa @ '','' @ sb @ '']'') (spec b))
     | Exclude b \<Rightarrow> map_option (\<lambda>s. '':exclude['' @ s @ '']'') (spec b)
     | Select b \<Rightarrow> map_option (\<lambda>s. '':select['' @ s @ '']'') (spec b)
     | Pin b \<Rightarrow> map_option (\<lambda>s. '':pin['' @ s @ '']'') (spec b)
     | Rev arms \<Rightarrow>
         map_option (\<lambda>s. '':rev('' @ s @ '')'') (join_specs '','' (mapO (\<lambda>arm.
           map_option (\<lambda>s. rev_match_str (fst arm) (fst (snd arm)) @ s) (spec (snd (snd arm)))) arms))
     | Starlark p s \<Rightarrow> map_option (\<lambda>t. '':!'' @ path_arg pr p @ ''['' @ t @ '']'') (spec s)
     | TreeId p s \<Rightarrow> map_option (\<lambda>t. '':#'' @ path_arg pr p @ ''['' @ t @ '']'') (spec s)
     | Chain fs \<Rightarrow>
         if fs = [] then Some '':/''
         else (case presub_path fs of
             Some p \<Rightarrow> Some (''::'' @ path_arg pr p @ ''/'')
           | None \<Rightarrow> map_option concat (mapO (spec2 pr n) fs))
     | Squash (Some ids) \<Rightarrow>
         map_option (\<lambda>v. '':squash('' @ join_str '','' (sort v) @ '')'') (mapO (\<lambda>kv.
           map_option (\<lambda>s. lazy_ref_str (fst kv) @ s) (spec (snd kv))) ids)
     | Unapply r g \<Rightarrow> map_option (\<lambda>s. '':unapply('' @ lazy_ref_str r @ s @ '')'') (spec g)
     | Meta meta g \<Rightarrow>
         map_option (\<lambda>s. '':~('' @
             join_str '','' (sort (map (\<lambda>kv. fst kv @ ''='' @ quote pr (snd kv)) meta)) @ '')['' @ s @ '']'')
           (spec g)
     | _ \<Rightarrow> Some (spec_leaf pr f))"

definition spec :: "printer \<Rightarrow> nat \<Rightarrow> filt \<Rightarrow> string option" where
  "spec pr n f = Option.bind (simplify n f) (spec2 pr n)"

subsection \<open>Indented\<close>

definition spaces :: "nat \<Rightarrow> string" where
  "spaces k = replicate k (CHR '' '')"

definition nl :: string where "nl = [CHR 0x0A]"

text \<open>The closure \<^verbatim>\<open>ff\<close>: a bracketed, indented list of already printed filters.\<close>

definition block :: "string \<Rightarrow> nat \<Rightarrow> string list \<Rightarrow> string" where
  "block name ind vs =
    (let ind2 = max ind 4; i = nl @ spaces ind2
     in '':'' @ name @ ''['' @ i @ join_str i vs @ nl @ spaces (ind2 - 4) @ '']'')"

definition meta_lines :: "printer \<Rightarrow> nat \<Rightarrow> (string \<times> string) list \<Rightarrow> string" where
  "meta_lines pr indent meta =
    join_str nl (sort (map (\<lambda>kv. spaces (max indent 4) @ fst kv @ ''='' @ quote pr (snd kv)) meta))"

primrec pretty2 :: "printer \<Rightarrow> nat \<Rightarrow> filt \<Rightarrow> nat \<Rightarrow> bool \<Rightarrow> string option" where
  "pretty2 pr 0 f indent compose = None"
| "pretty2 pr (Suc n) f indent compose =
    (let ff = (\<lambda>fs name ind. map_option (block name ind) (mapO (\<lambda>x. pretty2 pr n x (ind + 4) True) fs));
         wrapped = (\<lambda>name b. case compose_of b of
             Some fs \<Rightarrow> ff fs name indent
           | None \<Rightarrow> map_option (\<lambda>s. '':'' @ name @ ''['' @ s @ '']'') (pretty2 pr n b indent False))
     in case f of
       Compose fs \<Rightarrow> ff fs [] indent
     | Subtract a b \<Rightarrow> ff [a, b] ''subtract'' (indent + 4)
     | Exclude b \<Rightarrow> wrapped ''exclude'' b
     | Select b \<Rightarrow> wrapped ''select'' b
     | Pin b \<Rightarrow> wrapped ''pin'' b
     | Chain fs \<Rightarrow>
         if fs = [] then Some '':/''
         else if length fs = 1 then pretty2 pr n (hd fs) indent compose
         else (case presub_path fs of
             Some p \<Rightarrow> Some (''::'' @ path_arg pr p @ ''/'')
           | None \<Rightarrow>
              (case prefix_arg (last fs) of
                 Some p \<Rightarrow>
                   if compose
                   then map_option (\<lambda>s. path_arg pr p @ '' = '' @ s)
                     (pretty2 pr n (Chain (butlast fs)) indent False)
                   else map_option concat (mapO (\<lambda>g. pretty2 pr n g indent False) fs)
               | None \<Rightarrow> map_option concat (mapO (\<lambda>g. pretty2 pr n g indent False) fs)))
     | RegexReplace rs \<Rightarrow>
         Some ('':replace('' @ nl @ join_str nl (map (\<lambda>r.
           spaces indent @ quote pr (fst r) @ '':'' @ quote pr (snd r)) rs) @ nl @ '')'')
     | Squash (Some ids) \<Rightarrow>
         map_option (\<lambda>v. '':squash('' @ nl @ join_str nl (sort v) @ nl @ '')'') (mapO (\<lambda>kv.
           map_option (\<lambda>s. spaces indent @ lazy_ref_str (fst kv) @ s) (spec pr n (snd kv))) ids)
     | Meta meta g \<Rightarrow>
         let name = ''~('' @ nl @ meta_lines pr indent meta @ nl @ '')'' in
         (case compose_of g of
            Some fs \<Rightarrow> ff fs name indent
          | None \<Rightarrow> ff [g] name indent)
     | _ \<Rightarrow> spec2 pr n f)"

definition pretty :: "printer \<Rightarrow> nat \<Rightarrow> filt \<Rightarrow> nat \<Rightarrow> string option" where
  "pretty pr n f indent =
    Option.bind (minimize n f) (\<lambda>m.
    Option.bind (simplify n m) (\<lambda>g.
      case compose_of g of
        Some fs \<Rightarrow>
          if indent = 0
          then join_specs (nl @ spaces indent) (mapO (\<lambda>x. pretty2 pr n x (indent + 4) True) fs)
          else pretty2 pr n g indent True
      | None \<Rightarrow> pretty2 pr n g indent True))"

definition as_file :: "printer \<Rightarrow> nat \<Rightarrow> filt \<Rightarrow> nat \<Rightarrow> string option" where
  "as_file pr n f indent =
    map_option (\<lambda>content. if content \<noteq> [] \<and> last content = CHR 0x0A then content else content @ nl)
      (pretty pr n f indent)"

end
