(* ===== verification/Pattern_Full.thy ===== *)
theory Pattern_Full
  imports Pattern_Walk
begin

text \<open>
  The component-wise match of the pattern filter is the match of the full path. The match of a path
  factors through its components: a separator of the text is only ever matched by a separator token or
  inside a recursive wildcard, and the components of a compiled pattern concatenate to its tokens.
  The result is the equality of the automaton walk with the walk over full paths.
\<close>

subsection \<open>Characters of a path\<close>

lemma int_byte_byte: "int_byte c = int (byte c)"
  unfolding int_byte_def byte_def by (rule of_nat_of_char [symmetric])

lemma str_chars_chunks:
  "byte a \<le> 127 \<Longrightarrow> str_chars (a # s) = int_byte a # str_chars s"
  "194 \<le> byte a \<Longrightarrow> byte a \<le> 223 \<Longrightarrow> str_chars (a # b # s) =
    ((int_byte a - 192) * 64 + (int_byte b - 128)) # str_chars s"
  "224 \<le> byte a \<Longrightarrow> byte a \<le> 239 \<Longrightarrow> str_chars (a # b # c # s) =
    ((int_byte a - 224) * 4096 + (int_byte b - 128) * 64 + (int_byte c - 128)) # str_chars s"
  "240 \<le> byte a \<Longrightarrow> str_chars (a # b # c # d # s) =
    ((int_byte a - 240) * 262144 + (int_byte b - 128) * 4096 + (int_byte c - 128) * 64 +
      (int_byte d - 128)) # str_chars s"
  by (simp_all add: Let_def int_byte_byte)

lemma utf8_induct [consumes 1, case_names Nil One Two Three Four]:
  assumes "valid_utf8 s"
    and "P []"
    and "\<And>a s. byte a \<le> 127 \<Longrightarrow> P s \<Longrightarrow> P (a # s)"
    and "\<And>a b s. 194 \<le> byte a \<Longrightarrow> byte a \<le> 223 \<Longrightarrow> 128 \<le> byte b \<Longrightarrow> P s \<Longrightarrow> P (a # b # s)"
    and "\<And>a b c s. 224 \<le> byte a \<Longrightarrow> byte a \<le> 239 \<Longrightarrow> 128 \<le> byte b \<Longrightarrow> (byte a = 224 \<Longrightarrow> 160 \<le> byte b) \<Longrightarrow>
      128 \<le> byte c \<Longrightarrow> P s \<Longrightarrow> P (a # b # c # s)"
    and "\<And>a b c d s. 240 \<le> byte a \<Longrightarrow> 128 \<le> byte b \<Longrightarrow> (byte a = 240 \<Longrightarrow> 144 \<le> byte b) \<Longrightarrow>
      128 \<le> byte c \<Longrightarrow> 128 \<le> byte d \<Longrightarrow> P s \<Longrightarrow> P (a # b # c # d # s)"
  shows "P s"
  using assms(1)
proof (induction s rule: length_induct)
  case (1 s)
  show ?case
  proof (cases s)
    case Nil
    with assms(2) show ?thesis by simp
  next
    case (Cons a s1)
    show ?thesis
    proof (cases "byte a \<le> 127")
      case True
      with 1 Cons assms(3) show ?thesis by simp
    next
      case a: False
      with 1 Cons obtain b s2 where s1: "s1 = b # s2" by (auto split: list.splits)
      show ?thesis
      proof (cases "byte a \<le> 223")
        case True
        with 1 Cons a s1 assms(4) [of a b s2] show ?thesis
          by (auto simp: cont_byte_def split: if_splits list.splits)
      next
        case a2: False
        with 1 Cons a s1 obtain c s3 where s2: "s2 = c # s3" by (auto split: list.splits)
        show ?thesis
        proof (cases "byte a \<le> 239")
          case True
          with 1 Cons a a2 s1 s2 assms(5) [of a b c s3] show ?thesis
            by (auto simp: cont_byte_def split: if_splits list.splits)
        next
          case a3: False
          with 1 Cons a a2 s1 s2 obtain d s4 where "s3 = d # s4" by (auto split: list.splits)
          with 1 Cons a a2 a3 s1 s2 assms(6) [of a b c d s4] show ?thesis
            by (auto simp: cont_byte_def split: if_splits list.splits)
        qed
      qed
    qed
  qed
qed

lemma str_chars_append: "valid_utf8 s \<Longrightarrow> str_chars (s @ t) = str_chars s @ str_chars t"
  by (induction s rule: utf8_induct) (simp_all add: str_chars_chunks del: str_chars.simps(1))

lemma str_chars_byte:
  assumes "valid_utf8 s" and "k \<le> 127" and "k \<in> set (str_chars s)"
  shows "\<exists>c\<in>set s. int_byte c = k"
  using assms(1,3)
proof (induction s rule: utf8_induct)
  case (Two a b s)
  then have "128 \<le> (int_byte a - 192) * 64 + (int_byte b - 128)" by (simp add: int_byte_byte)
  with Two assms(2) show ?case by (auto simp: str_chars_chunks simp del: str_chars.simps)
next
  case (Three a b c s)
  then have "128 \<le> (int_byte a - 224) * 4096 + (int_byte b - 128) * 64 + (int_byte c - 128)"
    by (cases "byte a = 224") (auto simp: int_byte_byte)
  with Three assms(2) show ?case by (auto simp: str_chars_chunks simp del: str_chars.simps)
next
  case (Four a b c d s)
  then have "128 \<le> (int_byte a - 240) * 262144 + (int_byte b - 128) * 4096 + (int_byte c - 128) * 64 +
      (int_byte d - 128)"
    by (cases "byte a = 240") (auto simp: int_byte_byte)
  with Four assms(2) show ?case by (auto simp: str_chars_chunks simp del: str_chars.simps)
qed (auto simp: str_chars_chunks simp del: str_chars.simps(1))

lemma int_byte_inject [simp]: "int_byte a = int_byte b \<longleftrightarrow> a = b"
  by (simp add: int_byte_def)

lemma dot_name_chars:
  assumes "valid_utf8 s"
  shows "dot_name s \<longleftrightarrow> str_chars s \<noteq> [] \<and> hd (str_chars s) = 46"
proof -
  have dot: "int_byte (CHR ''.'') = 46" by (simp add: int_byte_def)
  show ?thesis using assms
  proof (induction s rule: utf8_induct)
    case (Two a b s)
    then have "128 \<le> (int_byte a - 192) * 64 + (int_byte b - 128)" "a \<noteq> CHR ''.''"
      using dot by (auto simp: int_byte_byte)
    with Two show ?case by (auto simp: dot_name_def str_chars_chunks simp del: str_chars.simps)
  next
    case (Three a b c s)
    then have "128 \<le> (int_byte a - 224) * 4096 + (int_byte b - 128) * 64 + (int_byte c - 128)" "a \<noteq> CHR ''.''"
      using dot by (cases "byte a = 224"; auto simp: int_byte_byte)+
    with Three show ?case by (auto simp: dot_name_def str_chars_chunks simp del: str_chars.simps)
  next
    case (Four a b c d s)
    then have "128 \<le> (int_byte a - 240) * 262144 + (int_byte b - 128) * 4096 + (int_byte c - 128) * 64 +
        (int_byte d - 128)" "a \<noteq> CHR ''.''"
      using dot by (cases "byte a = 240"; auto simp: int_byte_byte)+
    with Four show ?case by (auto simp: dot_name_def str_chars_chunks simp del: str_chars.simps)
  next
    case (One a s)
    then show ?case
      unfolding dot [symmetric] by (auto simp: dot_name_def str_chars_chunks simp del: str_chars.simps)
  qed (simp add: dot_name_def)
qed

lemma str_chars_ne: "valid_utf8 s \<Longrightarrow> str_chars s = [] \<longleftrightarrow> s = []"
  by (induction s rule: utf8_induct) (simp_all add: str_chars_chunks del: str_chars.simps(1))

fun join_chars :: "int list list \<Rightarrow> int list" where
  "join_chars [] = []"
| "join_chars [n] = n"
| "join_chars (n # ns) = n @ 47 # join_chars ns"

lemma join_chars_Cons: "ns \<noteq> [] \<Longrightarrow> join_chars (n # ns) = n @ 47 # join_chars ns"
  by (cases ns) auto

lemma str_chars_join:
  "\<forall>n\<in>set ns. valid_utf8 n \<Longrightarrow> str_chars (join_str ''/'' ns) = join_chars (map str_chars ns)"
proof (induction "''/''" ns rule: join_str.induct)
  case (3 w v ws)
  have "str_chars (CHR ''/'' # join_str ''/'' (v # ws)) = 47 # str_chars (join_str ''/'' (v # ws))"
    by (simp add: int_byte_def Let_def)
  with 3 show ?case by (simp add: str_chars_append del: str_chars.simps)
qed simp_all

definition file_chars :: "int list \<Rightarrow> bool" where
  "file_chars n \<longleftrightarrow> n \<noteq> [] \<and> 47 \<notin> set n"

lemma file_chars_name: "valid_name n \<Longrightarrow> valid_utf8 n \<Longrightarrow> file_chars (str_chars n)"
proof -
  assume n: "valid_name n" "valid_utf8 n"
  have "int_byte (CHR ''/'') = 47" by (simp add: int_byte_def)
  with str_chars_byte [OF n(2), of "int_byte (CHR ''/'')"] str_chars_ne [OF n(2)] n(1)
  show ?thesis by (auto simp: file_chars_def valid_name_def slash_def) (metis int_byte_inject)
qed

subsection \<open>A full-path match factors into component matches\<close>

fun flat_toks :: "pattern_component list \<Rightarrow> pattern_token list" where
  "flat_toks [] = []"
| "flat_toks (Star2 # cs) = AnyRecursiveSequence # flat_toks cs"
| "flat_toks (GlobC g # cs) = tokens g @ (if cs = [] then [] else TChar 47 # flat_toks cs)"

fun glob_comp_ok :: "pattern_component \<Rightarrow> bool" where
  "glob_comp_ok Star2 = True"
| "glob_comp_ok (GlobC g) = (AnyRecursiveSequence \<notin> set (tokens g) \<and> TChar 47 \<notin> set (tokens g))"

fun tail_ok :: "bool \<Rightarrow> pattern_component list \<Rightarrow> bool" where
  "tail_ok star [] = True"
| "tail_ok star (Star2 # cs) = tail_ok True cs"
| "tail_ok star (GlobC g # cs) = ((star \<and> cs = [] \<longrightarrow> tokens g \<noteq> []) \<and> tail_ok False cs)"

definition comps_ok :: "pattern_component list \<Rightarrow> bool" where
  "comps_ok cs \<longleftrightarrow> list_all glob_comp_ok cs"

abbreviation PO :: match_options where "PO \<equiv> pattern_match_options"

abbreviation plain_toks :: "pattern_token list \<Rightarrow> bool" where
  "plain_toks ts \<equiv> AnyRecursiveSequence \<notin> set ts"

lemma PO_simps [simp]:
  "case_sensitive PO" "require_literal_separator PO" "require_literal_leading_dot PO"
  by (simp_all add: pattern_match_options_def)

lemma wf_plain: "plain_toks ts \<Longrightarrow> wf_tokens b ts"
  by (induction ts arbitrary: b) auto

lemma matches_with_spec:
  "plain_toks (tokens g) \<Longrightarrow> matches_with g s opts \<longleftrightarrow> glob_spec opts True (tokens g) (str_chars s)"
  using matcher_ok [OF wf_plain, of "tokens g" opts] by (simp add: matches_with_def matcher_okD)

lemma token_matches_sep:
  "token_matches PO fs tok c \<Longrightarrow> is_separator c \<Longrightarrow> tok = TChar 47"
  by (cases tok) (auto simp: chars_eq_def is_separator_def)

lemma glob_spec_nosep:
  "plain_toks ts \<Longrightarrow> TChar 47 \<notin> set ts \<Longrightarrow> glob_spec PO fs ts s \<Longrightarrow> 47 \<notin> set s"
proof (induction ts arbitrary: fs s)
  case (Cons tok ts)
  show ?case
  proof (cases "tok = AnySequence")
    case True
    with Cons.prems(3) obtain n where "seq_ok PO fs (take n s)"
      "glob_spec PO (after fs (take n s)) ts (drop n s)" by auto
    with Cons.IH [of "after fs (take n s)" "drop n s"] Cons.prems
    have "47 \<notin> set (take n s) \<union> set (drop n s)"
      by (auto simp: seq_ok_def list_all_iff is_separator_def)
    moreover have "set s = set (take n s) \<union> set (drop n s)"
      by (metis append_take_drop_id set_append)
    ultimately show ?thesis by simp
  next
    case False
    with Cons.prems have "single tok" by auto
    with Cons.prems(3) obtain c s' where "s = c # s'" "token_matches PO fs tok c"
      "glob_spec PO (is_separator c) ts s'" by (auto simp: glob_spec_single split: list.splits)
    with Cons show ?thesis using token_matches_sep [of fs tok c] by (auto simp: is_separator_def)
  qed
qed simp

lemma after_append: "after fs (u @ v) = after (after fs u) v"
  by (simp add: after_def)

lemma after_Cons: "after fs (c # u) = after (is_separator c) u"
  by (simp add: after_def)

lemma glob_spec_seq:
  "glob_spec opts fs (AnySequence # ts) s \<longleftrightarrow>
    (\<exists>a b. s = a @ b \<and> seq_ok opts fs a \<and> glob_spec opts (after fs a) ts b)"
proof
  assume "glob_spec opts fs (AnySequence # ts) s"
  then obtain n where "seq_ok opts fs (take n s)" "glob_spec opts (after fs (take n s)) ts (drop n s)"
    by auto
  then show "\<exists>a b. s = a @ b \<and> seq_ok opts fs a \<and> glob_spec opts (after fs a) ts b"
    by (metis append_take_drop_id)
next
  assume "\<exists>a b. s = a @ b \<and> seq_ok opts fs a \<and> glob_spec opts (after fs a) ts b"
  then obtain a b where "s = a @ b" "seq_ok opts fs a" "glob_spec opts (after fs a) ts b" by blast
  then show "glob_spec opts fs (AnySequence # ts) s"
    by (auto intro!: bexI [of _ "length a"])
qed

lemma glob_spec_append:
  "plain_toks ts \<Longrightarrow> glob_spec opts fs (ts @ us) s \<longleftrightarrow>
    (\<exists>u v. s = u @ v \<and> glob_spec opts fs ts u \<and> glob_spec opts (after fs u) us v)"
proof (induction ts arbitrary: fs s)
  case Nil
  then show ?case by (auto simp: after_def)
next
  case (Cons tok ts)
  show ?case
  proof (cases "tok = AnySequence")
    case True
    have "glob_spec opts fs ((tok # ts) @ us) s \<longleftrightarrow>
        (\<exists>a u v. s = a @ u @ v \<and> seq_ok opts fs a \<and> glob_spec opts (after fs a) ts u \<and>
          glob_spec opts (after fs (a @ u)) us v)"
      unfolding True append_Cons glob_spec_seq after_append using Cons by auto
    moreover have "(\<exists>u v. s = u @ v \<and> glob_spec opts fs (tok # ts) u \<and> glob_spec opts (after fs u) us v) \<longleftrightarrow>
        (\<exists>a u v. s = a @ u @ v \<and> seq_ok opts fs a \<and> glob_spec opts (after fs a) ts u \<and>
          glob_spec opts (after fs (a @ u)) us v)"
      (is "?L \<longleftrightarrow> ?R")
    proof
      assume ?L then show ?R unfolding True glob_spec_seq by auto blast
    next
      assume ?R
      then obtain a u v where "s = a @ u @ v" "seq_ok opts fs a" "glob_spec opts (after fs a) ts u"
        "glob_spec opts (after fs (a @ u)) us v" by blast
      then show ?L unfolding True glob_spec_seq by (intro exI [of _ "a @ u"] exI [of _ v]) auto
    qed
    ultimately show ?thesis by blast
  next
    case False
    with Cons.prems have tok: "single tok" by auto
    show ?thesis
    proof (cases s)
      case Nil
      with tok show ?thesis by (auto simp: glob_spec_single)
    next
      case (Cons c s')
      have "glob_spec opts fs ((tok # ts) @ us) s \<longleftrightarrow> token_matches opts fs tok c \<and>
          (\<exists>u v. s' = u @ v \<and> glob_spec opts (is_separator c) ts u \<and>
            glob_spec opts (after (is_separator c) u) us v)"
        using Cons tok Cons.IH Cons.prems by (simp add: glob_spec_single)
      also have "\<dots> \<longleftrightarrow> (\<exists>u v. s = u @ v \<and> glob_spec opts fs (tok # ts) u \<and> glob_spec opts (after fs u) us v)"
        (is "?L \<longleftrightarrow> ?R")
      proof
        assume ?L
        then obtain u v where "token_matches opts fs tok c" "s' = u @ v"
          "glob_spec opts (is_separator c) ts u" "glob_spec opts (after (is_separator c) u) us v" by blast
        then show ?R using Cons tok
          by (intro exI [of _ "c # u"] exI [of _ v]) (simp add: glob_spec_single after_Cons)
      next
        assume ?R
        then obtain u v where uv: "s = u @ v" "glob_spec opts fs (tok # ts) u"
          "glob_spec opts (after fs u) us v" by blast
        with tok Cons obtain u' where "u = c # u'" by (cases u) (auto simp: glob_spec_single)
        with uv tok Cons show ?L by (auto simp: glob_spec_single after_Cons)
      qed
      finally show ?thesis .
    qed
  qed
qed

lemma first_sep_unique:
  "x \<notin> set n \<Longrightarrow> x \<notin> set u \<Longrightarrow> n @ x # s = u @ x # v \<longleftrightarrow> n = u \<and> s = v"
proof (induction n arbitrary: u)
  case Nil
  then show ?case by (cases u) auto
next
  case (Cons c n)
  then show ?case by (cases u) auto
qed

lemma split_at_sep:
  assumes "47 \<notin> set u" and "\<forall>n\<in>set (n # ns). file_chars n"
  shows "join_chars (n # ns) = u @ 47 # v \<longleftrightarrow> u = n \<and> ns \<noteq> [] \<and> v = join_chars ns"
proof (cases "ns = []")
  case True
  with assms show ?thesis by (auto simp: file_chars_def)
next
  case False
  have "47 \<notin> set n" using assms(2) by (simp add: file_chars_def)
  from first_sep_unique [OF this assms(1)] False show ?thesis by (auto simp: join_chars_Cons)
qed

lemma sep_in_join: "length ns \<ge> 2 \<Longrightarrow> 47 \<in> set (join_chars ns)"
  by (induction ns rule: join_chars.induct) auto

lemma join_chars_ne: "ns \<noteq> [] \<Longrightarrow> \<forall>n\<in>set ns. file_chars n \<Longrightarrow> join_chars ns \<noteq> []"
  by (induction ns rule: join_chars.induct) (auto simp: file_chars_def)

lemma glob_spec_last:
  assumes "plain_toks ts" and "TChar 47 \<notin> set ts" and "\<forall>m\<in>set (n # ns). file_chars m"
  shows "glob_spec PO True ts (join_chars (n # ns)) \<longleftrightarrow> ns = [] \<and> glob_spec PO True ts n"
  using glob_spec_nosep [OF assms(1,2), of True "join_chars (n # ns)"] sep_in_join [of "n # ns"]
  by (cases ns) auto

lemma glob_spec_comp:
  assumes "plain_toks ts" and "TChar 47 \<notin> set ts" and f: "\<forall>m\<in>set (n # ns). file_chars m"
  shows "glob_spec PO True (ts @ TChar 47 # us) (join_chars (n # ns)) \<longleftrightarrow>
    ns \<noteq> [] \<and> glob_spec PO True ts n \<and> glob_spec PO True us (join_chars ns)"
proof -
  have sep: "glob_spec PO f (TChar 47 # us) v \<longleftrightarrow> (\<exists>w. v = 47 # w \<and> glob_spec PO True us w)" for f v
    by (cases v) (auto simp: glob_spec_single chars_eq_def is_separator_def)
  have "glob_spec PO True (ts @ TChar 47 # us) (join_chars (n # ns)) \<longleftrightarrow>
      (\<exists>u v. join_chars (n # ns) = u @ 47 # v \<and> glob_spec PO True ts u \<and> glob_spec PO True us v)"
    unfolding glob_spec_append [OF assms(1)] sep by blast
  also have "\<dots> \<longleftrightarrow> (\<exists>u v. (47 \<notin> set u \<and> join_chars (n # ns) = u @ 47 # v) \<and> glob_spec PO True ts u \<and>
      glob_spec PO True us v)"
    using glob_spec_nosep [OF assms(1,2)] by blast
  also have "\<dots> \<longleftrightarrow> ns \<noteq> [] \<and> glob_spec PO True ts n \<and> glob_spec PO True us (join_chars ns)"
  proof -
    have "47 \<notin> set u \<and> join_chars (n # ns) = u @ 47 # v \<longleftrightarrow> u = n \<and> ns \<noteq> [] \<and> v = join_chars ns" for u v
      using split_at_sep [OF _ f, of u v] f by (auto simp: file_chars_def)
    then show ?thesis by simp
  qed
  finally show ?thesis .
qed

text \<open>A recursive wildcard consumes whole components, none of which starts with a dot.\<close>

definition dot_chars :: "int list \<Rightarrow> bool" where
  "dot_chars n \<longleftrightarrow> n \<noteq> [] \<and> hd n = 46"

lemma wild_spec_nosep:
  "47 \<notin> set n \<Longrightarrow> n \<noteq> [] \<Longrightarrow> wild_spec PO True False ts (n @ s) \<longleftrightarrow>
    (if s = [] then glob_spec PO False ts [] else wild_spec PO True False ts s)"
proof (induction n)
  case (Cons c n)
  then have "\<not> is_separator c" by (auto simp: is_separator_def)
  with Cons show ?case by (cases "n = []") (auto simp: hidden_dot_def)
qed simp

lemma wild_spec_first:
  assumes "file_chars n"
  shows "wild_spec PO True True ts (n @ s) \<longleftrightarrow>
    \<not> dot_chars n \<and> (if s = [] then glob_spec PO False ts [] else wild_spec PO True False ts s)"
proof -
  from assms obtain c m where n: "n = c # m" and c: "\<not> is_separator c" and m: "47 \<notin> set m"
    by (cases n) (auto simp: file_chars_def is_separator_def)
  show ?thesis
  proof (cases "m = []")
    case True
    with n c show ?thesis by (auto simp: dot_chars_def hidden_dot_def)
  next
    case False
    with n c wild_spec_nosep [OF m False, of ts s] show ?thesis
      by (auto simp: dot_chars_def hidden_dot_def)
  qed
qed

lemma wild_spec_join:
  assumes "\<forall>m\<in>set (n # ns). file_chars m"
  shows "wild_spec PO True True ts (join_chars (n # ns)) \<longleftrightarrow> \<not> dot_chars n \<and>
    (if ns = [] then glob_spec PO False ts []
     else glob_spec PO True (AnyRecursiveSequence # ts) (join_chars ns))"
proof (cases "ns = []")
  case True
  with wild_spec_first [of n ts "[]"] assms show ?thesis by simp
next
  case False
  then have "join_chars (n # ns) = n @ 47 # join_chars ns" by (rule join_chars_Cons)
  moreover have "wild_spec PO True False ts (47 # join_chars ns) \<longleftrightarrow>
      glob_spec PO True (AnyRecursiveSequence # ts) (join_chars ns)"
    by (simp add: glob_spec_wild_cases hidden_dot_def is_separator_def del: glob_spec.simps)
  ultimately show ?thesis
    using wild_spec_first [of n ts "47 # join_chars ns"] assms False by simp
qed

lemma glob_spec_empty: "glob_spec opts f ts [] \<longleftrightarrow> \<not> has_single ts"
proof (induction ts arbitrary: f)
  case (Cons tok ts)
  show ?case
  proof (cases "single tok")
    case True
    then show ?thesis by (simp add: glob_spec_single has_single_def)
  next
    case False
    with Cons show ?thesis
      by (auto simp: has_single_def glob_spec_wild_cases simp del: glob_spec.simps)
  qed
qed (simp add: has_single_def)

lemma dots_ok_nosep: "47 \<notin> set n \<Longrightarrow> dots_ok PO False n"
  by (induction n) (auto simp: hidden_dot_def is_separator_def)

lemma dots_ok_file: "file_chars n \<Longrightarrow> \<not> dot_chars n \<Longrightarrow> dots_ok PO True n"
  using dots_ok_nosep [of "tl n"]
  by (cases n) (auto simp: file_chars_def dot_chars_def hidden_dot_def is_separator_def)

lemma glob_spec_stars:
  assumes "ts \<noteq> []" and "plain_toks ts" and "\<not> has_single ts" and "file_chars n" and "\<not> dot_chars n"
  shows "glob_spec PO True ts n"
proof -
  obtain us where ts: "ts = AnySequence # us" "\<not> has_single us"
    using assms(1-3) by (cases ts) (auto simp: has_single_def)
  have "seq_ok PO True n"
    using assms(4,5) dots_ok_file
    by (auto simp: seq_ok_def file_chars_def list_all_iff is_separator_def)
  with ts show ?thesis
    unfolding ts(1) glob_spec_seq by (intro exI [of _ n] exI [of _ "[]"]) (simp add: glob_spec_empty)
qed

text \<open>
  \<open>comp_spec\<close> is \<open>comp_match\<close> over the characters of the names.
\<close>

fun comp_spec :: "pattern_component list \<Rightarrow> int list list \<Rightarrow> bool" where
  "comp_spec [] ns = (ns = [])"
| "comp_spec (c # cs) [] = False"
| "comp_spec (GlobC g # cs) (n # ns) = (glob_spec PO True (tokens g) n \<and> comp_spec cs ns)"
| "comp_spec (Star2 # cs) (n # ns) =
    (comp_spec cs (n # ns) \<or>
     \<not> dot_chars n \<and> (if ns = [] then all_star cs else comp_spec (Star2 # cs) ns))"

lemma flat_toks_single: "all_star cs \<Longrightarrow> \<not> has_single (flat_toks cs)"
  by (induction cs) (auto simp: all_star_def has_single_def)

lemma flat_toks_exhausted:
  "comps_ok cs \<Longrightarrow> tail_ok True cs \<Longrightarrow> \<not> has_single (flat_toks cs) \<Longrightarrow> file_chars n \<Longrightarrow>
   \<not> dot_chars n \<Longrightarrow> all_star cs \<or> comp_spec cs [n]"
proof (induction cs)
  case (Cons c cs)
  show ?case
  proof (cases c)
    case Star2
    with Cons show ?thesis by (auto simp: all_star_def comps_ok_def has_single_def)
  next
    case (GlobC g)
    with Cons.prems have "cs = []" by (auto simp: has_single_def split: if_splits)
    with GlobC Cons.prems glob_spec_stars [of "tokens g" n] show ?thesis by (simp add: comps_ok_def)
  qed
qed (simp add: all_star_def)

lemma comp_spec_Nil [simp]: "comp_spec cs [] \<longleftrightarrow> cs = []"
  by (cases cs) auto

lemma glob_spec_flat_toks:
  "comps_ok cs \<Longrightarrow> tail_ok b cs \<Longrightarrow> ns \<noteq> [] \<Longrightarrow> \<forall>n\<in>set ns. file_chars n \<Longrightarrow>
   glob_spec PO True (flat_toks cs) (join_chars ns) \<longleftrightarrow> comp_spec cs ns"
proof (induction cs arbitrary: ns b)
  case Nil
  with join_chars_ne [of ns] show ?case by auto
next
  case (Cons c cs)
  show ?case
  proof (cases c)
    case (GlobC g)
    from Cons.prems obtain n ns' where ns: "ns = n # ns'" by (cases ns) auto
    show ?thesis
    proof (cases "cs = []")
      case True
      with GlobC ns Cons.prems glob_spec_last [of "tokens g" n ns'] show ?thesis
        by (auto simp: comps_ok_def)
    next
      case False
      with GlobC ns Cons.prems glob_spec_comp [of "tokens g" n ns' "flat_toks cs"]
        Cons.IH [of False ns'] show ?thesis
        by (cases "ns' = []") (auto simp: comps_ok_def)
    qed
  next
    case Star2
    have ok: "comps_ok cs" "tail_ok True cs" using Cons.prems Star2 by (auto simp: comps_ok_def)
    note outer = Cons.IH [OF ok]
    show ?thesis using Cons.prems(3,4)
    proof (induction ns)
      case (Cons n ns)
      note first = Cons.prems(2)
      have IHcs: "glob_spec PO True (flat_toks cs) (join_chars (n # ns)) \<longleftrightarrow> comp_spec cs (n # ns)"
        using outer first by blast
      show ?case
        using glob_spec_wild_cases(2) [of PO True "flat_toks cs" "join_chars (n # ns)"]
          wild_spec_join [OF first, of "flat_toks cs"] IHcs
          Cons.IH first flat_toks_exhausted [OF ok, of n] flat_toks_single [of cs] Star2
        by (auto simp: glob_spec_empty simp del: glob_spec.simps)
    qed simp
  qed
qed

lemma flat_utf8: "utf8_obj t \<Longrightarrow> flat t p \<noteq> None \<Longrightarrow> \<forall>n\<in>set p. valid_utf8 n"
proof (induction p arbitrary: t)
  case (Cons n p)
  from Cons.prems(2) obtain es where t: "t = Tree es" by (cases t) (auto simp: flat_leaf)
  with Cons.prems obtain e where e: "reader_entry es n = Some e" "entry_view e p \<noteq> None"
    by (auto simp: flat_Cons_view split: option.splits)
  have "e \<in> set es" "e_name e = n" using reader_entry_SomeD [OF e(1)] by auto
  with Cons.prems(1) t have v: "valid_utf8 n" "utf8_obj (e_oid e)"
    by (auto simp: list_all_iff utf8_entry_iff)
  with e(2) Cons.IH [of "e_oid e"] show ?case by (auto simp: entry_view_def split: if_splits)
qed simp

subsection \<open>The components of a compiled pattern\<close>

text \<open>The split, along the tokens.\<close>

fun split_toks :: "pattern_token list \<Rightarrow> pattern_token list list" where
  "split_toks [] = [[]]"
| "split_toks (t # ts) =
    (if t = TChar 47 then [] # split_toks ts
     else if t = AnyRecursiveSequence then [t] # split_toks ts
     else (t # hd (split_toks ts)) # tl (split_toks ts))"

lemma split_toks_ne [simp]: "split_toks ts \<noteq> []"
  by (cases ts) auto

lemma foldl_split_token:
  "foldl split_token (ps @ [cur]) ts = ps @ (cur @ hd (split_toks ts)) # tl (split_toks ts)"
proof (induction ts arbitrary: ps cur)
  case (Cons t ts)
  have step: "split_token (ps @ [cur]) t =
      (if t = TChar 47 then (ps @ [cur]) @ [[]]
       else if t = AnyRecursiveSequence then (ps @ [cur @ [t]]) @ [[]] else ps @ [cur @ [t]])"
    by (simp add: split_token_def part_push_def)
  show ?case
    unfolding foldl_Cons step using Cons.IH [of "ps @ [cur]" "[]"] Cons.IH [of "ps @ [cur @ [t]]" "[]"]
      Cons.IH [of ps "cur @ [t]"] by auto
qed simp

lemma split_components_eq:
  "split_pattern_components full =
    (let parts = split_toks (tokens full) in
     if 2 \<le> length parts \<and> last parts = [] \<and> parts ! (length parts - 2) = [AnyRecursiveSequence]
     then butlast parts else parts)"
  using foldl_split_token [of "[]" "[]" "tokens full"] by (simp add: split_pattern_components_def)

text \<open>The same in one pass, which drops the empty part behind a final recursive wildcard.\<close>

fun split_comps :: "pattern_token list \<Rightarrow> pattern_token list list" where
  "split_comps [] = [[]]"
| "split_comps (t # ts) =
    (if t = TChar 47 then [] # split_comps ts
     else if t = AnyRecursiveSequence then [t] # (if ts = [] then [] else split_comps ts)
     else (t # hd (split_comps ts)) # tl (split_comps ts))"

lemma split_comps_ne [simp]: "split_comps ts \<noteq> []"
  by (cases ts) auto

definition drop_tail :: "pattern_token list list \<Rightarrow> pattern_token list list" where
  "drop_tail parts =
    (if 2 \<le> length parts \<and> last parts = [] \<and> parts ! (length parts - 2) = [AnyRecursiveSequence]
     then butlast parts else parts)"

lemma drop_tail_Cons:
  "ps \<noteq> [] \<Longrightarrow> drop_tail (x # ps) =
    x # (if x = [AnyRecursiveSequence] \<and> ps = [[]] then [] else drop_tail ps)"
  by (cases ps; cases "tl ps") (auto simp: drop_tail_def nth_Cons')

lemma split_toks_unit: "split_toks ts = [[]] \<longleftrightarrow> ts = []"
  by (cases ts) auto

lemma rec_part: "wf_tokens False ts \<Longrightarrow> hd (split_toks ts) \<noteq> [AnyRecursiveSequence]"
  by (cases ts) auto

lemma drop_tail_split: "wf_tokens b ts \<Longrightarrow> drop_tail (split_toks ts) = split_comps ts"
proof (induction ts arbitrary: b)
  case Nil
  then show ?case by (simp add: drop_tail_def)
next
  case (Cons t ts)
  let ?P = "split_toks ts"
  have IH: "drop_tail ?P = split_comps ts" using Cons by auto
  show ?case
  proof (cases "t = TChar 47 \<or> t = AnyRecursiveSequence")
    case True
    with IH show ?thesis by (auto simp: drop_tail_Cons split_toks_unit)
  next
    case False
    with Cons.prems have hd: "hd ?P \<noteq> [AnyRecursiveSequence]" by (intro rec_part) simp
    obtain p ps where P: "?P = p # ps" by (cases ?P) auto
    have "drop_tail ((t # p) # ps) = (t # p) # tl (drop_tail (p # ps))" "hd (drop_tail (p # ps)) = p"
      using False hd P by (cases "ps = []"; simp add: drop_tail_Cons; simp add: drop_tail_def)+
    with False IH P show ?thesis by simp
  qed
qed

lemma split_components: "wf_tokens b (tokens full) \<Longrightarrow>
    split_pattern_components full = split_comps (tokens full)"
  using drop_tail_split [of b "tokens full"] by (simp add: split_components_eq drop_tail_def Let_def)

abbreviation comps_of :: "pattern_token list \<Rightarrow> pattern_component list" where
  "comps_of ts \<equiv> map component_of (split_comps ts)"

lemma comps_of_plain:
  assumes "wf_tokens False ts"
  shows "comps_of ts = GlobC (from_tokens (hd (split_comps ts))) # map component_of (tl (split_comps ts))"
proof -
  have "hd (split_comps ts) \<noteq> [AnyRecursiveSequence]" using assms by (cases ts) auto
  then show ?thesis by (cases "split_comps ts") (auto simp: component_of_def)
qed

lemma comps_of_ordinary:
  assumes "wf_tokens False ts" and "t \<noteq> TChar 47" and "t \<noteq> AnyRecursiveSequence"
  shows "comps_of (t # ts) =
    GlobC (from_tokens (t # hd (split_comps ts))) # map component_of (tl (split_comps ts))"
  using assms by (simp add: component_of_def)

lemma from_tokens_simps [simp]: "tokens (from_tokens ts) = ts"
  by (simp add: from_tokens_def)

lemma comps_of_ok:
  "wf_tokens b ts \<Longrightarrow> flat_toks (comps_of ts) = ts \<and> comps_ok (comps_of ts) \<and>
    ((c \<longrightarrow> ts \<noteq> []) \<longrightarrow> tail_ok c (comps_of ts))"
proof (induction ts arbitrary: b c)
  case Nil
  then show ?case by (simp add: component_of_def comps_ok_def)
next
  case (Cons t ts)
  show ?case
  proof (cases "t = TChar 47 \<or> t = AnyRecursiveSequence")
    case True
    then show ?thesis
      using Cons.IH [of True True] Cons.IH [of True False] Cons.prems
      by (auto simp: component_of_def comps_ok_def)
  next
    case False
    with Cons.prems have wf: "wf_tokens False ts" by simp
    have eq: "comps_of (t # ts) =
        GlobC (from_tokens (t # hd (split_comps ts))) # map component_of (tl (split_comps ts))"
      using comps_of_ordinary [OF wf] False by blast
    show ?thesis
      using Cons.IH [OF wf, of False] False unfolding eq comps_of_plain [OF wf]
      by (auto simp: comps_ok_def)
  qed
qed

lemma compile_ok:
  assumes "compile pattern = Inr cp"
  shows "pattern_new pattern = Inr (cp_full cp)" and "flat_toks (components cp) = tokens (cp_full cp)"
    and "comps_ok (components cp)" and "tail_ok False (components cp)"
    and "\<not> fallback cp \<Longrightarrow> usable cp" and "components cp \<noteq> []"
proof -
  from assms obtain full where full: "pattern_new pattern = Inr full"
    and cp: "cp = (let cs = map component_of (split_pattern_components full) in
      \<lparr> cp_full = full, components = cs, suffix_all_star = all_star_suffixes cs,
        fallback = (63 < length cs) \<rparr>)"
    by (auto simp: compile_def bindR_Inr_iff Let_def)
  note wf = pattern_new_wf [OF full]
  from comps_of_ok [OF wf, of False] split_components [OF wf] cp full
  show "pattern_new pattern = Inr (cp_full cp)" "flat_toks (components cp) = tokens (cp_full cp)"
    "comps_ok (components cp)" "tail_ok False (components cp)"
    "\<not> fallback cp \<Longrightarrow> usable cp" "components cp \<noteq> []"
    by (simp_all add: Let_def usable_def)
qed

lemma comp_match_spec:
  "comps_ok cs \<Longrightarrow> \<forall>n\<in>set ns. valid_utf8 n \<Longrightarrow> comp_match cs ns \<longleftrightarrow> comp_spec cs (map str_chars ns)"
  by (induction cs ns rule: comp_match.induct)
    (auto simp: comps_ok_def matches_with_spec dot_name_chars dot_chars_def)

text \<open>Component-wise matching is matching of the full path.\<close>

lemma comp_match_full:
  assumes "compile pattern = Inr cp" and "ns \<noteq> []" and "\<forall>n\<in>set ns. valid_name n \<and> valid_utf8 n"
  shows "comp_match (components cp) ns \<longleftrightarrow> matches_with (cp_full cp) (join_str ''/'' ns) PO"
proof -
  note c = compile_ok [OF assms(1)]
  have "comp_match (components cp) ns \<longleftrightarrow> comp_spec (components cp) (map str_chars ns)"
    using comp_match_spec [OF c(3)] assms(3) by blast
  also have "\<dots> \<longleftrightarrow> glob_spec PO True (tokens (cp_full cp)) (join_chars (map str_chars ns))"
    using glob_spec_flat_toks [OF c(3,4), of "map str_chars ns"] assms(2,3) c(2)
    by (auto intro!: file_chars_name)
  also have "join_chars (map str_chars ns) = str_chars (join_str ''/'' ns)"
    using assms(3) by (simp add: str_chars_join)
  also have "glob_spec PO True (tokens (cp_full cp)) (str_chars (join_str ''/'' ns)) \<longleftrightarrow>
      matches_with (cp_full cp) (join_str ''/'' ns) PO"
    using matcher_ok [OF pattern_new_wf [OF c(1)], of PO] by (simp add: matches_with_def matcher_okD)
  finally show ?thesis .
qed

lemma remove_pattern_pred:
  assumes "compile pattern = Inr cp" and "\<not> fallback cp" and "wf_tree t" and "utf8_obj t"
  shows "remove_pattern_inner cp initial_state t =
    remove_pred_inner (\<lambda>path _. matches_with (cp_full cp) path pattern_match_options) [] t"
proof -
  note c = compile_ok [OF assms(1)]
  let ?pred = "\<lambda>path (_ :: bool). matches_with (cp_full cp) path PO"
  have b: "bounded cp initial_state" and bit: "bit initial_state p \<longleftrightarrow> p = 0" for p
    using c(6) by (auto simp: bounded_def initial_state_def bit_1_iff)
  obtain u where u: "remove_pattern_inner cp initial_state t = Inr u" "wf_tree u"
    "\<And>p. flat u p = Option.bind (flat t p) (leaf_at (pattern_down cp) (pattern_leaf cp) initial_state p)"
    using pw.walk_spec [OF assms(3,4), of cp initial_state] by blast
  obtain v where v: "remove_pred_inner ?pred [] t = Inr v" "wf_tree v"
    "\<And>p. flat v p = Option.bind (flat t p) (leaf_at push_name (pred_leaf ?pred) [] p)"
    using rp.walk_spec [OF assms(3,4), of ?pred "[]"] by blast
  have "leaf_at (pattern_down cp) (pattern_leaf cp) initial_state p x =
      leaf_at push_name (pred_leaf ?pred) [] p x" if p: "flat t p = Some x" for p x
  proof -
    from flat_names [OF assms(3), of p] p have ne: "p \<noteq> []" and names: "\<forall>n\<in>set p. valid_name n" by auto
    moreover have "\<forall>n\<in>set p. valid_utf8 n" using flat_utf8 [OF assms(4), of p] p by simp
    ultimately have "accepts cp initial_state p \<longleftrightarrow> matches_with (cp_full cp) (join_str ''/'' p) PO"
      using comp_match_full [OF assms(1) ne] by (simp add: accepts_def bit)
    with leaf_at_pattern [OF c(5) [OF assms(2)] b ne, of x] leaf_at_pred [OF names ne, of ?pred "[]" x]
    show ?thesis by (simp add: push_path_def)
  qed
  then have "flat u p = flat v p" for p
    unfolding u(3) v(3) by (cases "flat t p") auto
  then have "u = v" using flat_ext [OF u(2) v(2)] by blast
  with u(1) v(1) show ?thesis by simp
qed

text \<open>
  C19. The automaton is the full-path match: for every glob the compiler accepts (of at most 63
  components, as the code checks), the component-wise walk gives the same tree as the walk that
  matches the full path of every file.
\<close>

theorem remove_pattern_full:
  assumes "compile pattern = Inr cp" and "\<not> fallback cp" and "wf_tree t" and "utf8_obj t"
  shows "remove_pattern_inner cp initial_state t =
    remove_pred_inner (\<lambda>path _. matches_with (cp_full cp) path pattern_match_options) [] t"
  by (rule remove_pattern_pred [OF assms])

theorem remove_pattern_full_witness:
  "\<exists>cp u. compile ''**/x'' = Inr cp \<and> flat u [''d'', ''x''] = Some (mode_blob, Blob ''2'') \<and>
     remove_pred_inner (\<lambda>path _. matches_with (cp_full cp) path pattern_match_options) [] sample1 = Inr u"
proof -
  have "case compile ''**/x'' of Inl _ \<Rightarrow> False
      | Inr cp \<Rightarrow> \<not> fallback cp \<and> (case remove_pattern_inner cp initial_state sample1 of
          Inl _ \<Rightarrow> False | Inr u \<Rightarrow> flat u [''d'', ''x''] = Some (mode_blob, Blob ''2''))"
    by code_simp
  then obtain cp u where "compile ''**/x'' = Inr cp" "\<not> fallback cp"
    "remove_pattern_inner cp initial_state sample1 = Inr u"
    "flat u [''d'', ''x''] = Some (mode_blob, Blob ''2'')"
    by (auto split: sum.splits)
  moreover have "utf8_obj sample1" by code_simp
  ultimately show ?thesis
    using remove_pattern_full [of "''**/x''" cp, OF _ _ wf_samples(1)] by auto
qed

end
