(* ===== verification/Revwalk.thy ===== *)
theory Revwalk
  imports Prelude
begin

text \<open>
  The pruned topological walk \<^verbatim>\<open>RevWalk\<close> of \<^verbatim>\<open>josh-gix-ext/src/revwalk.rs\<close>.

  The object store is a finite association list from ids to stored objects, of which a walk sees the
  kind and, of a commit, the parent headers (of a malformed one, those before the defect). A node of the walk is identified with its id: interning
  gives every id one index. The explicit stack of frames is kept as the code has it.

  Shown: the walk ends; it yields exactly the commits that are reachable without passing through a
  pruned one, each once and before its parents; it fails only if it reaches an object that is not a
  readable commit; the streaming walk visits every reachable commit once.
\<close>

subsection \<open>Object store\<close>

datatype 'c stored = Commit "'c list" | Malformed "'c list" | NonCommit

type_synonym 'c odb = "('c \<times> 'c stored) list"

fun read_parent_oids :: "'c odb \<Rightarrow> 'c \<Rightarrow> 'c list result" where
  "read_parent_oids odb c =
    (case map_of odb c of
       None \<Rightarrow> Inl (Failed ''not found'')
     | Some NonCommit \<Rightarrow> Inl (Failed ''not a commit'')
     | Some (Malformed _) \<Rightarrow> Inl (Failed ''malformed commit'')
     | Some (Commit ps) \<Rightarrow> Inr ps)"

fun ensure_commit :: "'c odb \<Rightarrow> 'c \<Rightarrow> unit result" where
  "ensure_commit odb c =
    (case map_of odb c of
       None \<Rightarrow> Inl (Failed ''not found'')
     | Some NonCommit \<Rightarrow> Inl (Failed ''not a commit'')
     | Some _ \<Rightarrow> Inr ())"

declare read_parent_oids.simps [simp del] ensure_commit.simps [simp del]

definition edge :: "'c odb \<Rightarrow> 'c \<Rightarrow> 'c \<Rightarrow> bool" where
  "edge odb c p \<longleftrightarrow> (\<exists>ps. read_parent_oids odb c = Inr ps \<and> p \<in> set ps)"

text \<open>A commit graph has no cycles, because an id is a hash over the parent ids: a rank exists.\<close>

definition ranked :: "'c odb \<Rightarrow> ('c \<Rightarrow> nat) \<Rightarrow> bool" where
  "ranked odb rank \<longleftrightarrow> (\<forall>c p. edge odb c p \<longrightarrow> rank p < rank c)"

lemma rankedD: "ranked odb rank \<Longrightarrow> edge odb c p \<Longrightarrow> rank p < rank c"
  by (simp add: ranked_def)

definition in_odb :: "'c odb \<Rightarrow> 'c list" where
  "in_odb odb = remdups (map fst odb)"

lemma read_parent_oids_in_odb: "read_parent_oids odb c = Inr ps \<Longrightarrow> c \<in> set (in_odb odb)"
  by (auto simp: read_parent_oids.simps in_odb_def split: option.splits stored.splits
      dest!: map_of_SomeD intro: rev_image_eqI)

subsection \<open>The walk\<close>

datatype 'c frame = Explore 'c | Emit 'c

type_synonym ('s, 'c) visit = "'s \<Rightarrow> 'c \<Rightarrow> ('s \<times> bool) result"

fun run_visit :: "('s, 'c) visit option \<Rightarrow> 's \<Rightarrow> 'c \<Rightarrow> ('s \<times> bool) result" where
  "run_visit None s c = Inr (s, False)"
| "run_visit (Some v) s c = v s c"

definition explored :: "bool \<Rightarrow> 'c list \<Rightarrow> 'c list" where
  "explored first_parent ps = (if first_parent then take (min (length ps) 1) ps else ps)"

definition unvisited :: "'c odb \<Rightarrow> 'c list \<Rightarrow> nat" where
  "unvisited odb visited = card (set (in_odb odb) - set visited)"

lemma unvisited_less:
  "c \<in> set (in_odb odb) \<Longrightarrow> c \<notin> set visited \<Longrightarrow> unvisited odb (c # visited) < unvisited odb visited"
  unfolding unvisited_def by (rule psubset_card_mono) auto

lemma unvisited_le: "unvisited odb (c # visited) \<le> unvisited odb visited"
  unfolding unvisited_def by (rule card_mono) auto

function (sequential) dfs ::
  "'c odb \<Rightarrow> bool \<Rightarrow> ('c \<Rightarrow> bool) \<Rightarrow> ('s, 'c) visit option \<Rightarrow> 's \<Rightarrow> 'c list \<Rightarrow> 'c list \<Rightarrow> 'c frame list \<Rightarrow>
    ('c list \<times> 's) result" where
  "dfs odb fp prune visit s visited post [] = Inr (post, s)"
| "dfs odb fp prune visit s visited post (Emit c # stack) =
    dfs odb fp prune visit s visited (post @ [c]) stack"
| "dfs odb fp prune visit s visited post (Explore c # stack) =
    (if c \<in> set visited then dfs odb fp prune visit s visited post stack
     else if prune c then dfs odb fp prune visit s (c # visited) post stack
     else
       case run_visit visit s c of
         Inl e \<Rightarrow> Inl e
       | Inr (s', brk) \<Rightarrow>
           if brk then Inr (post, s')
           else
             case read_parent_oids odb c of
               Inl e \<Rightarrow> Inl e
             | Inr ps \<Rightarrow>
                 dfs odb fp prune visit s' (c # visited) post
                   (map Explore (explored fp ps) @ Emit c # stack))"
  by pat_completeness auto

termination
  by (relation "measures [\<lambda>(odb, fp, prune, visit, s, visited, post, stack). unvisited odb visited,
        \<lambda>(odb, fp, prune, visit, s, visited, post, stack). length stack]")
    (auto simp: less_Suc_eq_le intro: unvisited_less read_parent_oids_in_odb
      dest!: le_neq_implies_less [OF unvisited_le])

record 'c rev_walk =
  tips :: "'c list"
  first_parent :: bool

definition new_walk :: "'c rev_walk" where
  "new_walk = \<lparr> tips = [], first_parent = False \<rparr>"

definition push :: "'c odb \<Rightarrow> 'c rev_walk \<Rightarrow> 'c \<Rightarrow> 'c rev_walk result" where
  "push odb w tip = bindR (ensure_commit odb tip) (\<lambda>_. Inr (w\<lparr> tips := tips w @ [tip] \<rparr>))"

definition simplify_first_parent :: "'c rev_walk \<Rightarrow> 'c rev_walk" where
  "simplify_first_parent w = w\<lparr> first_parent := True \<rparr>"

definition into_topo_vec :: "'c odb \<Rightarrow> 'c rev_walk \<Rightarrow> ('c \<Rightarrow> bool) \<Rightarrow> 'c list result" where
  "into_topo_vec odb w prune =
    bindR (dfs odb (first_parent w) prune None () [] [] (map Explore (tips w))) (\<lambda>(post, _). Inr (rev post))"

definition discover :: "'c odb \<Rightarrow> 'c rev_walk \<Rightarrow> ('s, 'c) visit \<Rightarrow> 's \<Rightarrow> 's result" where
  "discover odb w visit s =
    bindR (dfs odb (first_parent w) (\<lambda>_. False) (Some visit) s [] [] (map Explore (tips w)))
      (\<lambda>(_, s). Inr s)"

subsection \<open>What the walk reaches\<close>

definition steps_to :: "'c odb \<Rightarrow> bool \<Rightarrow> ('c \<Rightarrow> bool) \<Rightarrow> 'c \<Rightarrow> 'c \<Rightarrow> bool" where
  "steps_to odb fp prune c p \<longleftrightarrow>
    \<not> prune c \<and> (\<exists>ps. read_parent_oids odb c = Inr ps \<and> p \<in> set (explored fp ps))"

text \<open>Reached from the tips through commits that are not pruned.\<close>

definition reached :: "'c odb \<Rightarrow> bool \<Rightarrow> ('c \<Rightarrow> bool) \<Rightarrow> 'c set \<Rightarrow> 'c set" where
  "reached odb fp prune ts = {c. \<exists>t\<in>ts. (steps_to odb fp prune)\<^sup>*\<^sup>* t c}"

lemma explored_subset: "set (explored fp ps) \<subseteq> set ps"
  by (auto simp: explored_def dest: in_set_takeD)

lemma explored_all [simp]: "explored False ps = ps"
  by (simp add: explored_def)

lemma steps_to_edge: "steps_to odb fp prune c p \<Longrightarrow> edge odb c p"
  using explored_subset by (fastforce simp: steps_to_def edge_def)

lemma not_stepping: "prune c \<Longrightarrow> \<not> steps_to odb fp prune c p"
  by (simp add: steps_to_def)

lemma reached_tip: "t \<in> ts \<Longrightarrow> t \<in> reached odb fp prune ts"
  by (auto simp: reached_def)

lemma reached_step: "c \<in> reached odb fp prune ts \<Longrightarrow> steps_to odb fp prune c p \<Longrightarrow> p \<in> reached odb fp prune ts"
  by (auto simp: reached_def intro: rtranclp.rtrancl_into_rtrancl)

lemma reached_least:
  assumes "ts \<subseteq> V" "\<And>c p. c \<in> V \<Longrightarrow> steps_to odb fp prune c p \<Longrightarrow> p \<in> V"
  shows "reached odb fp prune ts \<subseteq> V"
proof
  fix c assume "c \<in> reached odb fp prune ts"
  then obtain t where "t \<in> ts" "(steps_to odb fp prune)\<^sup>*\<^sup>* t c" by (auto simp: reached_def)
  from this(2,1) show "c \<in> V" by (induction rule: rtranclp_induct) (use assms in auto)
qed

subsection \<open>Invariant\<close>

fun on_frame :: "'c frame \<Rightarrow> 'c" where
  "on_frame (Explore c) = c"
| "on_frame (Emit c) = c"

text \<open>
  The commits with a pending \<open>Emit\<close> are being explored; every frame above such a commit belongs to an
  ancestor of it. A finished commit has its explored parents finished before it.
\<close>

definition open_commits :: "'c frame list \<Rightarrow> 'c list" where
  "open_commits stack = List.map_filter (\<lambda>f. case f of Emit c \<Rightarrow> Some c | Explore _ \<Rightarrow> None) stack"

lemma open_commits_simps [simp]:
  "open_commits [] = []"
  "open_commits (Emit c # st) = c # open_commits st"
  "open_commits (Explore c # st) = open_commits st"
  "open_commits (map Explore cs @ st) = open_commits st"
  by (induction cs) (simp_all add: open_commits_def List.map_filter_simps)

definition pending :: "'c frame list \<Rightarrow> 'c set" where
  "pending stack = {c. Explore c \<in> set stack}"

lemma pending_simps [simp]:
  "pending [] = {}"
  "pending (Explore c # st) = insert c (pending st)"
  "pending (Emit c # st) = pending st"
  "pending (map Explore cs @ st) = set cs \<union> pending st"
  by (auto simp: pending_def)

fun nested :: "('c \<Rightarrow> nat) \<Rightarrow> 'c frame list \<Rightarrow> bool" where
  "nested rank [] = True"
| "nested rank (f # st) = ((\<forall>d \<in> set (open_commits st). rank (on_frame f) < rank d) \<and> nested rank st)"

fun parents_first :: "('c \<Rightarrow> 'c \<Rightarrow> bool) \<Rightarrow> ('c \<Rightarrow> bool) \<Rightarrow> 'c list \<Rightarrow> bool" where
  "parents_first step prune [] = True"
| "parents_first step prune (c # cs) = ((\<forall>p. step c p \<and> \<not> prune p \<longrightarrow> p \<in> set cs) \<and> parents_first step prune cs)"

lemma nested_append:
  "(\<And>c d. c \<in> set cs \<Longrightarrow> d \<in> set (open_commits st) \<Longrightarrow> rank c < rank d) \<Longrightarrow> nested rank st \<Longrightarrow>
    nested rank (map Explore cs @ st)"
  by (induction cs) auto

definition walk_inv ::
  "'c odb \<Rightarrow> bool \<Rightarrow> ('c \<Rightarrow> bool) \<Rightarrow> 'c set \<Rightarrow> 'c list \<Rightarrow> 'c list \<Rightarrow> 'c frame list \<Rightarrow> bool" where
  "walk_inv odb fp prune ts visited post stack \<longleftrightarrow>
    (set visited \<union> on_frame ` set stack \<subseteq> reached odb fp prune ts \<and>
     ts \<subseteq> set visited \<union> pending stack \<and>
     (\<forall>c p. c \<in> set visited \<and> steps_to odb fp prune c p \<longrightarrow> p \<in> set visited \<union> pending stack) \<and>
     distinct (post @ open_commits stack) \<and>
     set (post @ open_commits stack) = {c \<in> set visited. \<not> prune c})"

lemma walk_inv_start: "walk_inv odb fp prune (set ts) [] [] (map Explore ts)"
  using reached_tip [of _ "set ts" odb fp prune] open_commits_simps(4) [of ts "[]"] pending_simps(4) [of ts "[]"]
  by (auto simp: walk_inv_def)

lemma walk_inv_emit:
  "walk_inv odb fp prune ts visited post (Emit c # st) \<Longrightarrow> walk_inv odb fp prune ts visited (post @ [c]) st"
  by (auto simp: walk_inv_def)

lemma walk_inv_seen:
  "walk_inv odb fp prune ts visited post (Explore c # st) \<Longrightarrow> c \<in> set visited \<Longrightarrow>
    walk_inv odb fp prune ts visited post st"
  by (auto simp: walk_inv_def)

lemma walk_inv_prune:
  "walk_inv odb fp prune ts visited post (Explore c # st) \<Longrightarrow> prune c \<Longrightarrow>
    walk_inv odb fp prune ts (c # visited) post st"
  using not_stepping [of prune c odb fp] by (auto simp: walk_inv_def)

lemma walk_inv_explore:
  assumes inv: "walk_inv odb fp prune ts visited post (Explore c # st)" and c: "c \<notin> set visited" "\<not> prune c"
    and ps: "read_parent_oids odb c = Inr ps"
  shows "walk_inv odb fp prune ts (c # visited) post (map Explore (explored fp ps) @ Emit c # st)"
proof -
  let ?E = "set (explored fp ps)" let ?R = "reached odb fp prune ts"
  have c_in: "c \<in> ?R" using inv by (simp add: walk_inv_def)
  have "steps_to odb fp prune c p \<longleftrightarrow> p \<in> ?E" for p
    using c ps by (simp add: steps_to_def)
  then have E: "?E \<subseteq> ?R" and step: "\<And>p. steps_to odb fp prune c p \<Longrightarrow> p \<in> ?E"
    using reached_step [OF c_in] by blast+
  have "q \<in> set (c # visited) \<union> (?E \<union> pending st)"
    if "d \<in> set (c # visited)" "steps_to odb fp prune d q" for d q
    using that inv step by (auto simp: walk_inv_def)
  moreover have "on_frame ` set (map Explore (explored fp ps) @ Emit c # st) \<subseteq> ?R"
    using inv E c_in by (auto simp: walk_inv_def)
  moreover have "set (post @ c # open_commits st) = {d \<in> set (c # visited). \<not> prune d}"
    and "distinct (post @ c # open_commits st)"
    using inv c by (simp_all add: walk_inv_def) blast+
  ultimately show ?thesis
    using inv c_in by (simp add: walk_inv_def) blast
qed

text \<open>A visitor that neither fails nor asks to stop.\<close>

definition quiet :: "('s, 'c) visit option \<Rightarrow> bool" where
  "quiet visit \<longleftrightarrow> (\<forall>s c. \<exists>s'. run_visit visit s c = Inr (s', False))"

lemma quiet_None [simp]: "quiet None"
  by (simp add: quiet_def)

lemma quietD: "quiet visit \<Longrightarrow> run_visit visit s c = Inr (s', brk) \<Longrightarrow> \<not> brk"
  by (auto simp: quiet_def) (metis Inr_inject Pair_inject)

lemma quiet_no_error: "quiet visit \<Longrightarrow> run_visit visit s c \<noteq> Inl e"
  by (auto simp: quiet_def) (metis Inr_not_Inl)

lemma dfs_reaches:
  assumes "dfs odb fp prune visit s visited post stack = Inr (out, s')"
    and "walk_inv odb fp prune ts visited post stack"
    and "quiet visit"
  shows "distinct out \<and> set out = {c \<in> reached odb fp prune ts. \<not> prune c}"
  using assms
proof (induction odb fp prune visit s visited post stack rule: dfs.induct)
  case (1 odb fp prune visit s visited post)
  then have "reached odb fp prune ts = set visited"
    by (intro equalityI reached_least) (auto simp: walk_inv_def)
  then show ?case using 1 by (auto simp: walk_inv_def)
next
  case (2 odb fp prune visit s visited post c stack)
  then show ?case by (simp add: walk_inv_emit)
next
  case (3 odb fp prune visit s visited post c stack)
  then show ?case
    using 3 by (auto split: if_splits sum.splits prod.splits simp del: set_append
        dest: quietD walk_inv_seen walk_inv_prune walk_inv_explore)
qed

subsection \<open>Order\<close>

fun covered :: "('c \<Rightarrow> 'c \<Rightarrow> bool) \<Rightarrow> 'c set \<Rightarrow> 'c frame list \<Rightarrow> bool" where
  "covered step A [] = True"
| "covered step A (Explore c # st) = covered step (insert c A) st"
| "covered step A (Emit c # st) = ((\<forall>p. step c p \<longrightarrow> p \<in> A) \<and> covered step A st)"

lemma covered_mono: "covered step A st \<Longrightarrow> A \<subseteq> B \<Longrightarrow> covered step B st"
proof (induction step A st arbitrary: B rule: covered.induct)
  case (2 step A c st)
  then show ?case using insert_mono [of A B c] by simp
qed auto

lemma covered_Explores: "covered step A (map Explore cs @ st) = covered step (A \<union> set cs) st"
  by (induction cs arbitrary: A) (simp_all add: insert_commute Un_commute)

definition order_inv ::
  "'c odb \<Rightarrow> bool \<Rightarrow> ('c \<Rightarrow> bool) \<Rightarrow> ('c \<Rightarrow> nat) \<Rightarrow> 'c list \<Rightarrow> 'c list \<Rightarrow> 'c frame list \<Rightarrow> bool" where
  "order_inv odb fp prune rank visited post stack \<longleftrightarrow>
    nested rank stack \<and> covered (steps_to odb fp prune) (set visited) stack \<and>
    parents_first (steps_to odb fp prune) prune (rev post)"

lemma order_inv_emit:
  assumes inv: "order_inv odb fp prune rank visited post (Emit c # st)"
    and opened: "set (post @ open_commits (Emit c # st)) = {c \<in> set visited. \<not> prune c}"
    and rank: "ranked odb rank"
  shows "order_inv odb fp prune rank visited (post @ [c]) st"
proof -
  have "p \<in> set post" if p: "steps_to odb fp prune c p" "\<not> prune p" for p
  proof -
    have "p \<in> set visited" using inv p by (simp add: order_inv_def)
    then have "p \<in> set post \<or> p = c \<or> p \<in> set (open_commits st)" using opened p(2) by auto
    moreover have "rank p < rank c" by (rule rankedD [OF rank steps_to_edge [OF p(1)]])
    ultimately show ?thesis using inv by (auto simp: order_inv_def)
  qed
  then show ?thesis using inv by (simp add: order_inv_def)
qed

lemma order_inv_explore:
  assumes inv: "order_inv odb fp prune rank visited post (Explore c # st)" "\<not> prune c"
    and ps: "read_parent_oids odb c = Inr ps"
    and rank: "ranked odb rank"
  shows "order_inv odb fp prune rank (c # visited) post (map Explore (explored fp ps) @ Emit c # st)"
proof -
  have less: "rank p < rank c" if "p \<in> set (explored fp ps)" for p
    using that ps explored_subset [of fp ps] by (intro rankedD [OF rank]) (auto simp: edge_def)
  have step: "steps_to odb fp prune c p \<longleftrightarrow> p \<in> set (explored fp ps)" for p
    using ps inv(2) by (simp add: steps_to_def)
  have "nested rank (map Explore (explored fp ps) @ Emit c # st)"
    using inv less by (intro nested_append) (auto simp: order_inv_def dest!: less)
  moreover have "covered (steps_to odb fp prune) (set (c # visited) \<union> set (explored fp ps)) st"
    by (rule covered_mono [of _ "insert c (set visited)"]) (use inv in \<open>auto simp: order_inv_def\<close>)
  ultimately show ?thesis
    using inv step by (simp add: order_inv_def covered_Explores)
qed

lemma dfs_order:
  assumes "dfs odb fp prune visit s visited post stack = Inr (out, s')"
    and "walk_inv odb fp prune ts visited post stack" "quiet visit"
    and "order_inv odb fp prune rank visited post stack" "ranked odb rank"
  shows "parents_first (steps_to odb fp prune) prune (rev out)"
  using assms
proof (induction odb fp prune visit s visited post stack rule: dfs.induct)
  case (1 odb fp prune visit s visited post)
  then show ?case by (auto simp: order_inv_def)
next
  case (2 odb fp prune visit s visited post c stack)
  then have "order_inv odb fp prune rank visited (post @ [c]) stack"
    by (intro order_inv_emit) (auto simp: walk_inv_def)
  then show ?case using 2 by (simp add: walk_inv_emit)
next
  case (3 odb fp prune visit s visited post c stack)
  show ?case
  proof (cases "c \<in> set visited \<or> prune c")
    case True
    have "order_inv odb fp prune rank visited post stack" if "c \<in> set visited"
      using 3(7) that by (simp add: order_inv_def insert_absorb)
    moreover have "order_inv odb fp prune rank (c # visited) post stack"
      using 3(7) by (simp add: order_inv_def)
    ultimately show ?thesis
      using True 3 by (auto split: if_splits dest: walk_inv_seen walk_inv_prune)
  next
    case False
    with 3(4,6) obtain s'' ps where rd: "run_visit visit s c = Inr (s'', False)" "read_parent_oids odb c = Inr ps"
      by (fastforce split: if_splits sum.splits prod.splits dest: quietD)
    show ?thesis
      by (rule "3.IH"(3) [OF _ _ rd(1) refl _ rd(2)])
        (use False rd 3(4-8) in \<open>auto intro!: walk_inv_explore order_inv_explore\<close>)
  qed
qed

subsection \<open>Failure\<close>

lemma dfs_fails:
  assumes "dfs odb fp prune visit s visited post stack = Inl e"
    and "walk_inv odb fp prune ts visited post stack" "quiet visit"
  shows "\<exists>c \<in> reached odb fp prune ts. \<not> prune c \<and> \<not> ok (read_parent_oids odb c)"
  using assms
proof (induction odb fp prune visit s visited post stack rule: dfs.induct)
  case (3 odb fp prune visit s visited post c stack)
  have "\<exists>c \<in> reached odb fp prune ts. \<not> prune c \<and> \<not> ok (read_parent_oids odb c)"
    if "\<not> prune c" "read_parent_oids odb c = Inl e"
    using 3(5) that by (intro bexI [of _ c]) (simp_all add: walk_inv_def)
  then show ?case
    using 3 by (auto split: if_splits sum.splits prod.splits
        dest: quietD quiet_no_error walk_inv_seen walk_inv_prune walk_inv_explore)
qed (auto dest: walk_inv_emit)

lemma dfs_readable:
  assumes "dfs odb fp prune visit s visited post stack = Inr (out, s')"
    and "\<forall>c \<in> set (post @ open_commits stack). ok (read_parent_oids odb c)" "quiet visit"
  shows "\<forall>c \<in> set out. ok (read_parent_oids odb c)"
  using assms
  by (induction odb fp prune visit s visited post stack rule: dfs.induct)
    (auto split: if_splits sum.splits prod.splits dest: quietD)

subsection \<open>The walk yields a topological order of the reachable commits\<close>

lemma into_topo_vec_correct:
  assumes "ranked odb rank"
  shows "case into_topo_vec odb w prune of
      Inr out \<Rightarrow>
        (\<forall>c \<in> set out. ok (read_parent_oids odb c)) \<and> distinct out \<and>
        set out = {c \<in> reached odb (first_parent w) prune (set (tips w)). \<not> prune c} \<and>
        parents_first (steps_to odb (first_parent w) prune) prune out
    | Inl e \<Rightarrow>
        (\<exists>c \<in> reached odb (first_parent w) prune (set (tips w)). \<not> prune c \<and> \<not> ok (read_parent_oids odb c))"
proof -
  have start: "walk_inv odb (first_parent w) prune (set (tips w)) [] [] (map Explore (tips w))"
    by (rule walk_inv_start)
  have order: "order_inv odb (first_parent w) prune rank [] [] (map Explore (tips w))"
    using nested_append [of "tips w" "[]" rank] covered_Explores [of _ "{}" "tips w" "[]"]
    by (simp add: order_inv_def)
  show ?thesis
  proof (cases "dfs odb (first_parent w) prune None () [] [] (map Explore (tips w))")
    case (Inl e)
    then show ?thesis using dfs_fails [OF Inl start quiet_None] by (simp add: into_topo_vec_def)
  next
    case (Inr r)
    then obtain post where run: "dfs odb (first_parent w) prune None () [] [] (map Explore (tips w)) = Inr (post, ())"
      by (cases r) auto
    show ?thesis
      using dfs_reaches [OF run start quiet_None] dfs_order [OF run start quiet_None order assms]
        dfs_readable [OF run _ quiet_None] open_commits_simps(4) [of "tips w" "[]"] run
      by (simp add: into_topo_vec_def)
  qed
qed

text \<open>
  C27. The pruned walk of an acyclic commit graph. Either every commit that is reached from the pushed
  tips without passing through a pruned commit, and is not pruned itself, is readable, and the walk
  yields these commits, each exactly once and before every explored parent of it that is not pruned;
  or one of them is not readable, and the walk fails.
\<close>

theorem into_topo_vec_spec:
  assumes "ranked odb rank"
  shows "case into_topo_vec odb w prune of
      Inr out \<Rightarrow>
        (\<forall>c \<in> set out. ok (read_parent_oids odb c)) \<and> distinct out \<and>
        set out = {c \<in> reached odb (first_parent w) prune (set (tips w)). \<not> prune c} \<and>
        parents_first (steps_to odb (first_parent w) prune) prune out
    | Inl e \<Rightarrow>
        (\<exists>c \<in> reached odb (first_parent w) prune (set (tips w)). \<not> prune c \<and> \<not> ok (read_parent_oids odb c))"
  by (rule into_topo_vec_correct [OF assms])

definition diamond :: "nat odb" where
  "diamond = [(1, Commit []), (2, Commit [1]), (3, Commit [1]), (4, Commit [2, 3]), (5, Commit [4]), (9, NonCommit)]"

lemma diamond_ranked: "ranked diamond (\<lambda>c. c)"
  by (auto simp: ranked_def edge_def diamond_def read_parent_oids.simps split: if_splits)

theorem into_topo_vec_spec_witness:
  "into_topo_vec diamond \<lparr> tips = [5], first_parent = False \<rparr> (\<lambda>c. c = 1) = Inr [5, 4, 3, 2] \<and>
   set [5, 4, 3, 2] = {c \<in> reached diamond False (\<lambda>c. c = 1) {5}. c \<noteq> 1}"
proof -
  have run: "into_topo_vec diamond \<lparr> tips = [5], first_parent = False \<rparr> (\<lambda>c. c = 1) = Inr [5, 4, 3, 2]"
    by (simp add: into_topo_vec_def diamond_def read_parent_oids.simps)
  show ?thesis
    using into_topo_vec_spec [OF diamond_ranked, of "\<lparr> tips = [5], first_parent = False \<rparr>" "\<lambda>c. c = 1"] run
    by (simp del: parents_first.simps)
qed

subsection \<open>The streaming walk\<close>

definition collect :: "('c list, 'c) visit" where
  "collect s c = Inr (s @ [c], False)"

lemma quiet_collect [simp]: "quiet (Some collect)"
  by (simp add: quiet_def collect_def)

lemma dfs_collects:
  assumes "dfs odb fp prune visit s visited post stack = Inr (out, s')"
    and "walk_inv odb fp prune ts visited post stack"
    and "visit = Some collect" "prune = (\<lambda>_. False)" "s = rev visited" "distinct visited"
  shows "distinct s' \<and> set s' = reached odb fp prune ts"
  using assms
proof (induction odb fp prune visit s visited post stack rule: dfs.induct)
  case (1 odb fp prune visit s visited post)
  from 1(2) have "reached odb fp prune ts = set visited"
    by (intro equalityI reached_least) (auto simp: walk_inv_def)
  moreover have "s' = rev visited" using 1(1,5) by simp
  ultimately show ?case using 1(6) by simp
next
  case (2 odb fp prune visit s visited post c stack)
  then show ?case by (simp add: walk_inv_emit)
next
  case (3 odb fp prune visit s visited post c stack)
  show ?case
  proof (cases "c \<in> set visited")
    case True
    then show ?thesis using 3 walk_inv_seen [OF 3(5)] by simp
  next
    case False
    with 3(4,6,7) obtain ps where ps: "read_parent_oids odb c = Inr ps"
      by (auto simp: collect_def split: sum.splits)
    have "run_visit visit s c = Inr (s @ [c], False)" using 3(6) by (simp add: collect_def)
    from "3.IH"(3) [OF False _ this refl _ ps] show ?thesis
      using False 3(4,6-9) ps walk_inv_explore [OF 3(5) False _ ps] by (simp add: collect_def)
  qed
qed

text \<open>
  C28. The streaming walk visits every commit reachable from the pushed tips exactly once.
\<close>

theorem discover_spec:
  assumes "discover odb w collect [] = Inr seen"
  shows "distinct seen \<and> set seen = reached odb (first_parent w) (\<lambda>_. False) (set (tips w))"
proof -
  obtain out where "dfs odb (first_parent w) (\<lambda>_. False) (Some collect) [] [] [] (map Explore (tips w)) = Inr (out, seen)"
    using assms by (auto simp: discover_def bindR_Inr_iff)
  from dfs_collects [OF this walk_inv_start] show ?thesis by simp
qed

theorem discover_spec_witness:
  "discover diamond \<lparr> tips = [5], first_parent = True \<rparr> collect [] = Inr [5, 4, 2, 1] \<and>
   set [5, 4, 2, 1] = reached diamond True (\<lambda>_. False) {5}"
proof -
  have run: "discover diamond \<lparr> tips = [5], first_parent = True \<rparr> collect [] = Inr [5, 4, 2, 1]"
    by (simp add: discover_def diamond_def read_parent_oids.simps explored_def collect_def)
  show ?thesis using discover_spec [OF run] run by simp
qed

end
