(* ===== verification/Rangewalk.thy ===== *)
theory Rangewalk
  imports Revwalk
begin

text \<open>
  The range walk \<^verbatim>\<open>RangeWalk\<close> of \<^verbatim>\<open>josh-gix-ext/src/revwalk.rs\<close>: the commits reachable from a tip
  but not from a base, by following a chain of single-parent commits where that leads to the base, and
  by a frontier ordered by sequence number otherwise.

  The per-node flags are sets of commits; the priority queue is the bag of its elements, of which the
  greatest is popped. Sequence numbers and the insertion counter are unsigned 64 bit numbers that only
  ever count commits, so they are natural numbers here.

  Shown: the walk ends, and it yields exactly the range, each commit once and before its parents; the
  counter of pending visible entries never drops below zero.
\<close>

definition FAST_FORWARD_PROBE_LIMIT :: nat where
  "FAST_FORWARD_PROBE_LIMIT = 1000"

primrec fast_forward_walk :: "'c odb \<Rightarrow> 'c \<Rightarrow> nat \<Rightarrow> 'c list \<Rightarrow> 'c \<Rightarrow> 'c list option result" where
  "fast_forward_walk odb base 0 out c = Inr None"
| "fast_forward_walk odb base (Suc n) out c =
    (if c = base then Inr (Some out)
     else bindR (read_parent_oids odb c) (\<lambda>ps.
       case ps of
         [p] \<Rightarrow> fast_forward_walk odb base n (out @ [c]) p
       | _ \<Rightarrow> Inr None))"

subsection \<open>The ranked walk\<close>

record 'c range_state =
  hidden :: "'c set"
  enqueued :: "'c set"
  queued_visible :: "'c set"
  visible_pending :: nat
  heap :: "(nat \<times> nat \<times> 'c) list"
  next_seq :: nat
  range_out :: "'c list"

fun pops_before :: "nat \<times> nat \<times> 'c \<Rightarrow> nat \<times> nat \<times> 'c \<Rightarrow> bool" where
  "pops_before (r, k, _) (r', k', _) = (r > r' \<or> (r = r' \<and> k < k'))"

fun heap_top :: "(nat \<times> nat \<times> 'c) list \<Rightarrow> (nat \<times> nat \<times> 'c) option" where
  "heap_top [] = None"
| "heap_top (x # xs) =
    (case heap_top xs of None \<Rightarrow> Some x | Some y \<Rightarrow> Some (if pops_before y x then y else x))"

definition heap_pop :: "(nat \<times> nat \<times> 'c) list \<Rightarrow> ((nat \<times> nat \<times> 'c) \<times> (nat \<times> nat \<times> 'c) list) option" where
  "heap_pop h = map_option (\<lambda>x. (x, remove1 x h)) (heap_top h)"

definition heap_push :: "('c \<Rightarrow> nat result) \<Rightarrow> 'c range_state \<Rightarrow> 'c \<Rightarrow> 'c range_state result" where
  "heap_push seq_of st c =
    bindR (seq_of c) (\<lambda>r. Inr (st\<lparr> heap := (r, next_seq st, c) # heap st, next_seq := next_seq st + 1 \<rparr>))"

text \<open>Enter the frontier; a commit that is not hidden is counted.\<close>

definition enqueue :: "('c \<Rightarrow> nat result) \<Rightarrow> 'c range_state \<Rightarrow> 'c \<Rightarrow> 'c range_state result" where
  "enqueue seq_of st c =
    (let st = st\<lparr> enqueued := insert c (enqueued st) \<rparr>;
         st = (if c \<notin> hidden st
               then st\<lparr> queued_visible := insert c (queued_visible st), visible_pending := visible_pending st + 1 \<rparr>
               else st)
     in heap_push seq_of st c)"

definition show_parent :: "('c \<Rightarrow> nat result) \<Rightarrow> 'c range_state \<Rightarrow> 'c \<Rightarrow> 'c range_state result" where
  "show_parent seq_of st p = (if p \<notin> enqueued st then enqueue seq_of st p else Inr st)"

definition hide_parent :: "('c \<Rightarrow> nat result) \<Rightarrow> 'c range_state \<Rightarrow> 'c \<Rightarrow> 'c range_state result" where
  "hide_parent seq_of st p =
    (let st = (if p \<notin> hidden st
               then (let st = st\<lparr> hidden := insert p (hidden st) \<rparr>
                     in if p \<in> queued_visible st
                        then st\<lparr> queued_visible := queued_visible st - {p}, visible_pending := visible_pending st - 1 \<rparr>
                        else st)
               else st)
     in if p \<notin> enqueued st
        then heap_push seq_of (st\<lparr> enqueued := insert p (enqueued st) \<rparr>) p
        else Inr st)"

definition range_step :: "'c odb \<Rightarrow> ('c \<Rightarrow> nat result) \<Rightarrow> 'c \<Rightarrow> 'c range_state \<Rightarrow> 'c range_state result" where
  "range_step odb seq_of c st =
    (if c \<in> hidden st
     then bindR (read_parent_oids odb c) (foldR (hide_parent seq_of) st)
     else
       (let st = st\<lparr> queued_visible := queued_visible st - {c}, visible_pending := visible_pending st - 1,
                     range_out := range_out st @ [c] \<rparr>
        in bindR (read_parent_oids odb c) (foldR (show_parent seq_of) st)))"

subsection \<open>Termination\<close>

definition universe :: "'c odb \<Rightarrow> 'c set" where
  "universe odb = (\<Union>(c, s) \<in> set odb. insert c (case s of Commit ps \<Rightarrow> set ps | Malformed ps \<Rightarrow> set ps | NonCommit \<Rightarrow> {}))"

lemma finite_universe [simp]: "finite (universe odb)"
  by (auto simp: universe_def split: stored.split)

lemma read_parents_universe: "read_parent_oids odb c = Inr ps \<Longrightarrow> set ps \<subseteq> universe odb"
  by (force simp: read_parent_oids.simps universe_def split: option.splits stored.splits dest!: map_of_SomeD)

definition range_measure :: "'c odb \<Rightarrow> 'c range_state \<Rightarrow> nat" where
  "range_measure odb st = 2 * card (universe odb - enqueued st) + length (heap st)"

lemma card_universe_insert:
  assumes "p \<in> universe odb" "p \<notin> E"
  shows "Suc (card (universe odb - insert p E)) = card (universe odb - E)"
proof -
  have "universe odb - insert p E = (universe odb - E) - {p}" by auto
  then show ?thesis using assms card_Suc_Diff1 [of "universe odb - E" p] by simp
qed

lemma measure_parent:
  assumes "p \<in> universe odb"
  shows "show_parent seq_of st p = Inr st' \<Longrightarrow> range_measure odb st' \<le> range_measure odb st"
    and "hide_parent seq_of st p = Inr st' \<Longrightarrow> range_measure odb st' \<le> range_measure odb st"
  using assms card_universe_insert [of p odb "enqueued st"]
  by (auto simp: show_parent_def hide_parent_def enqueue_def heap_push_def Let_def bindR_Inr_iff
      range_measure_def split: if_splits)

lemma measure_fold:
  assumes "set ps \<subseteq> universe odb" "foldR f st ps = Inr st'"
    and "\<And>p st st'. p \<in> universe odb \<Longrightarrow> f st p = Inr st' \<Longrightarrow> range_measure odb st' \<le> range_measure odb st"
  shows "range_measure odb st' \<le> range_measure odb st"
  using assms(1,2)
proof (induction ps arbitrary: st)
  case (Cons p ps)
  then show ?case using assms(3) by (fastforce simp: bindR_Inr_iff)
qed simp

lemmas measure_folds =
  measure_fold [OF read_parents_universe _ measure_parent(1)]
  measure_fold [OF read_parents_universe _ measure_parent(2)]

lemma measure_step:
  assumes "range_step odb seq_of c st = Inr st'"
  shows "range_measure odb st' \<le> range_measure odb st"
proof (cases "c \<in> hidden st")
  case True
  with assms show ?thesis
    using measure_folds(2) by (fastforce simp: range_step_def bindR_Inr_iff)
next
  case False
  let ?st = "st\<lparr> queued_visible := queued_visible st - {c}, visible_pending := visible_pending st - 1,
      range_out := range_out st @ [c] \<rparr>"
  from False assms obtain ps where "read_parent_oids odb c = Inr ps" "foldR (show_parent seq_of) ?st ps = Inr st'"
    by (auto simp: range_step_def bindR_Inr_iff Let_def)
  then have "range_measure odb st' \<le> range_measure odb ?st" by (rule measure_folds(1))
  then show ?thesis by (simp add: range_measure_def)
qed

lemma heap_top_in: "heap_top h = Some x \<Longrightarrow> x \<in> set h"
  by (induction h arbitrary: x) (auto split: option.splits if_splits)

lemma heap_pop_less: "heap_pop h = Some (x, h') \<Longrightarrow> length h' < length h"
  using heap_top_in [of h] length_pos_if_in_set [of _ h]
  by (auto simp: heap_pop_def length_remove1)

lemma measure_pop:
  "heap_pop (heap st) = Some (x, h) \<Longrightarrow> range_step odb seq_of c (st\<lparr> heap := h \<rparr>) = Inr st' \<Longrightarrow>
    range_measure odb st' < range_measure odb st"
  using measure_step [of odb seq_of c "st\<lparr> heap := h \<rparr>" st'] heap_pop_less [of "heap st" x h]
  by (simp add: range_measure_def)

function ranked_loop :: "'c odb \<Rightarrow> ('c \<Rightarrow> nat result) \<Rightarrow> 'c range_state \<Rightarrow> 'c list result" where
  "ranked_loop odb seq_of st =
    (if visible_pending st = 0 then Inr (range_out st)
     else
       case heap_pop (heap st) of
         None \<Rightarrow> Inr (range_out st)
       | Some ((_, _, c), h) \<Rightarrow>
           bindR (range_step odb seq_of c (st\<lparr> heap := h \<rparr>)) (ranked_loop odb seq_of))"
  by pat_completeness auto

termination
  by (relation "measure (\<lambda>(odb, seq_of, st). range_measure odb st)") (auto dest: measure_pop)

declare ranked_loop.simps [simp del]

definition range_start :: "'c \<Rightarrow> 'c range_state" where
  "range_start base =
    \<lparr> hidden = {base}, enqueued = {}, queued_visible = {}, visible_pending = 0, heap = [], next_seq = 0, range_out = [] \<rparr>"

definition ranked_walk :: "'c odb \<Rightarrow> ('c \<Rightarrow> nat result) \<Rightarrow> 'c \<Rightarrow> 'c \<Rightarrow> 'c list result" where
  "ranked_walk odb seq_of tip base =
    bindR (foldR (enqueue seq_of) (range_start base) [tip, base]) (ranked_loop odb seq_of)"

definition range_topo_vec :: "'c odb \<Rightarrow> ('c \<Rightarrow> nat result) \<Rightarrow> 'c \<Rightarrow> 'c \<Rightarrow> 'c list result" where
  "range_topo_vec odb seq_of tip base =
    bindR (ensure_commit odb tip) (\<lambda>_.
    bindR (ensure_commit odb base) (\<lambda>_.
      if tip = base then Inr []
      else bindR (fast_forward_walk odb base FAST_FORWARD_PROBE_LIMIT [] tip) (\<lambda>chain.
        case chain of
          Some out \<Rightarrow> Inr out
        | None \<Rightarrow> ranked_walk odb seq_of tip base)))"

subsection \<open>The frontier\<close>

definition frontier :: "'c range_state \<Rightarrow> 'c list" where
  "frontier st = map (\<lambda>(r, k, c). c) (heap st)"

definition sound_seq :: "('c \<Rightarrow> nat result) \<Rightarrow> ('c \<Rightarrow> nat) \<Rightarrow> bool" where
  "sound_seq seq_of rank \<longleftrightarrow> (\<forall>c r. seq_of c = Inr r \<longrightarrow> r = rank c)"

text \<open>The frontier holds a commit once, under its rank, and the counter counts its visible commits.\<close>

definition heap_inv :: "('c \<Rightarrow> nat) \<Rightarrow> 'c range_state \<Rightarrow> bool" where
  "heap_inv rank st \<longleftrightarrow>
    distinct (frontier st) \<and> set (frontier st) \<subseteq> enqueued st \<and> (\<forall>(r, k, c) \<in> set (heap st). r = rank c) \<and>
    queued_visible st = set (frontier st) - hidden st \<and> visible_pending st = card (queued_visible st)"

text \<open>Effect of entering parents into the frontier, \<open>H\<close> being the commits marked hidden on the way.\<close>

definition enters :: "('c \<Rightarrow> nat) \<Rightarrow> 'c set \<Rightarrow> 'c set \<Rightarrow> 'c range_state \<Rightarrow> 'c range_state \<Rightarrow> bool" where
  "enters rank H P st st' \<longleftrightarrow>
    heap_inv rank st' \<and> hidden st' = hidden st \<union> H \<and> enqueued st' = enqueued st \<union> P \<and>
    range_out st' = range_out st \<and> set (frontier st') = set (frontier st) \<union> (P - enqueued st)"

lemma finite_queued: "heap_inv rank st \<Longrightarrow> finite (queued_visible st)"
  by (simp add: heap_inv_def)

lemma enters_new:
  assumes inv: "heap_inv rank st" and p: "p \<notin> enqueued st"
    and st': "hidden st' = hidden st \<union> H" "enqueued st' = insert p (enqueued st)" "range_out st' = range_out st"
      "heap st' = (rank p, k, p) # heap st" "H \<subseteq> {p}"
      "queued_visible st' = (if p \<in> hidden st' then queued_visible st else insert p (queued_visible st))"
      "visible_pending st' = (if p \<in> hidden st' then visible_pending st else visible_pending st + 1)"
  shows "enters rank H {p} st st'"
proof -
  have new: "p \<notin> set (frontier st)" "p \<notin> queued_visible st" using p inv by (auto simp: heap_inv_def)
  have frontier: "frontier st' = p # frontier st" using st' by (simp add: frontier_def)
  have "queued_visible st' = set (frontier st') - hidden st'"
    using inv st' new frontier by (auto simp: heap_inv_def)
  moreover have "visible_pending st' = card (queued_visible st')"
    using inv st'(6,7) new finite_queued [OF inv] by (simp add: heap_inv_def)
  moreover have "(\<forall>(r, k, c) \<in> set (heap st'). r = rank c)" "distinct (frontier st')" "set (frontier st') \<subseteq> enqueued st'"
    using inv st' new frontier by (auto simp: heap_inv_def)
  moreover have "set (frontier st') = set (frontier st) \<union> ({p} - enqueued st)" using frontier p by auto
  ultimately show ?thesis
    using st' by (simp add: enters_def heap_inv_def)
qed

lemma show_parent_enters:
  assumes inv: "heap_inv rank st" and "sound_seq seq_of rank" and run: "show_parent seq_of st p = Inr st'"
  shows "enters rank {} {p} st st'"
proof (cases "p \<in> enqueued st")
  case True
  then show ?thesis using inv run by (auto simp: show_parent_def enters_def insert_absorb)
next
  case False
  with run obtain r where "seq_of p = Inr r"
    by (auto simp: show_parent_def enqueue_def heap_push_def bindR_Inr_iff Let_def split: if_splits)
  then have r: "seq_of p = Inr (rank p)" using assms(2) by (simp add: sound_seq_def)
  have st': "st' = (st\<lparr> enqueued := insert p (enqueued st),
      queued_visible := (if p \<in> hidden st then queued_visible st else insert p (queued_visible st)),
      visible_pending := (if p \<in> hidden st then visible_pending st else visible_pending st + 1),
      heap := (rank p, next_seq st, p) # heap st, next_seq := next_seq st + 1 \<rparr>)"
    using run False r by (cases st) (auto simp: show_parent_def enqueue_def heap_push_def Let_def split: if_splits)
  show ?thesis by (rule enters_new [OF inv False]) (simp_all add: st')
qed

definition marked :: "'c range_state \<Rightarrow> 'c \<Rightarrow> 'c range_state" where
  "marked st p = st\<lparr> hidden := insert p (hidden st), queued_visible := queued_visible st - {p},
     visible_pending := (if p \<in> queued_visible st then visible_pending st - 1 else visible_pending st) \<rparr>"

lemma marked_simps [simp]:
  "hidden (marked st p) = insert p (hidden st)" "enqueued (marked st p) = enqueued st"
  "range_out (marked st p) = range_out st" "heap (marked st p) = heap st" "frontier (marked st p) = frontier st"
  "next_seq (marked st p) = next_seq st"
  by (simp_all add: marked_def frontier_def)

lemma heap_inv_marked: "heap_inv rank st \<Longrightarrow> heap_inv rank (marked st p)"
proof -
  assume inv: "heap_inv rank st"
  then have "queued_visible (marked st p) = set (frontier st) - hidden (marked st p)"
    by (auto simp: heap_inv_def marked_def)
  moreover have "visible_pending (marked st p) = card (queued_visible (marked st p))"
    using inv by (simp add: heap_inv_def marked_def)
  ultimately show ?thesis using inv by (simp add: heap_inv_def)
qed

lemma hide_parent_marked:
  assumes "heap_inv rank st"
  shows "hide_parent seq_of st p =
    (if p \<notin> enqueued st
     then heap_push seq_of ((marked st p)\<lparr> enqueued := insert p (enqueued st) \<rparr>) p
     else Inr (marked st p))"
proof -
  have "p \<in> hidden st \<Longrightarrow> p \<notin> queued_visible st" using assms by (simp add: heap_inv_def)
  then show ?thesis
    by (cases st) (auto simp: hide_parent_def marked_def Let_def insert_absorb)
qed

lemma hide_parent_enters:
  assumes inv: "heap_inv rank st" and "sound_seq seq_of rank" and run: "hide_parent seq_of st p = Inr st'"
  shows "enters rank {p} {p} st st'"
proof (cases "p \<in> enqueued st")
  case True
  then show ?thesis using inv run heap_inv_marked [OF inv, of p]
    by (auto simp: hide_parent_marked [OF inv] enters_def insert_absorb)
next
  case False
  with run obtain r where "seq_of p = Inr r" by (auto simp: hide_parent_marked [OF inv] heap_push_def bindR_Inr_iff)
  then have "seq_of p = Inr (rank p)" using assms(2) by (simp add: sound_seq_def)
  with run False have "enters rank {} {p} (marked st p) st'"
    by (intro enters_new [OF heap_inv_marked [OF inv]]) (auto simp: hide_parent_marked [OF inv] heap_push_def)
  then show ?thesis by (simp add: enters_def)
qed

lemma enters_trans:
  "enters rank H P st st' \<Longrightarrow> enters rank H' P' st' st'' \<Longrightarrow> enters rank (H \<union> H') (P \<union> P') st st''"
  by (auto simp: enters_def)

lemma fold_enters:
  assumes "heap_inv rank st" "foldR f st ps = Inr st'"
    and "\<And>p st st'. heap_inv rank st \<Longrightarrow> f st p = Inr st' \<Longrightarrow> enters rank (h p) {p} st st'"
  shows "enters rank (\<Union>(h ` set ps)) (set ps) st st'"
  using assms(1,2)
proof (induction ps arbitrary: st)
  case Nil
  then show ?case by (auto simp: enters_def)
next
  case (Cons p ps)
  then obtain st1 where 1: "f st p = Inr st1" "foldR f st1 ps = Inr st'" by (auto simp: bindR_Inr_iff)
  then have e: "enters rank (h p) {p} st st1" using Cons.prems assms(3) by blast
  then have "heap_inv rank st1" by (simp add: enters_def)
  from enters_trans [OF e Cons.IH [OF this 1(2)]] show ?case by simp
qed

lemma show_parents_enter:
  "heap_inv rank st \<Longrightarrow> sound_seq seq_of rank \<Longrightarrow> foldR (show_parent seq_of) st ps = Inr st' \<Longrightarrow>
    enters rank {} (set ps) st st'"
  using fold_enters [of rank st "show_parent seq_of" ps st' "\<lambda>_. {}"] show_parent_enters by fastforce

lemma hide_parents_enter:
  "heap_inv rank st \<Longrightarrow> sound_seq seq_of rank \<Longrightarrow> foldR (hide_parent seq_of) st ps = Inr st' \<Longrightarrow>
    enters rank (set ps) (set ps) st st'"
  using fold_enters [of rank st "hide_parent seq_of" ps st' "\<lambda>p. {p}"] hide_parent_enters by fastforce

lemma heap_inv_card: "heap_inv rank st \<Longrightarrow> visible_pending st = card (queued_visible st)"
  unfolding heap_inv_def by (elim conjE)

subsection \<open>Ancestors\<close>

definition ancestors :: "'c odb \<Rightarrow> 'c \<Rightarrow> 'c set" where
  "ancestors odb t = {c. (edge odb)\<^sup>*\<^sup>* t c}"

lemma ancestors_self [simp]: "t \<in> ancestors odb t"
  by (simp add: ancestors_def)

lemma ancestors_edge: "c \<in> ancestors odb t \<Longrightarrow> edge odb c p \<Longrightarrow> p \<in> ancestors odb t"
  by (simp add: ancestors_def)

lemma ancestors_trans: "b \<in> ancestors odb t \<Longrightarrow> c \<in> ancestors odb b \<Longrightarrow> c \<in> ancestors odb t"
  by (simp add: ancestors_def)

lemma ancestors_rank:
  assumes "ranked odb rank" "c \<in> ancestors odb t"
  shows "c = t \<or> rank c < rank t"
proof -
  from assms(2) have "(edge odb)\<^sup>*\<^sup>* t c" by (simp add: ancestors_def)
  then show ?thesis
    by (induction rule: rtranclp_induct) (auto dest: rankedD [OF assms(1)])
qed

lemma ancestors_unfold:
  assumes "read_parent_oids odb c = Inr ps"
  shows "ancestors odb c = insert c (\<Union>(ancestors odb ` set ps))"
proof -
  have "edge odb c p \<longleftrightarrow> p \<in> set ps" for p using assms by (simp add: edge_def)
  then show ?thesis
    by (auto simp: ancestors_def intro: converse_rtranclp_into_rtranclp elim: converse_rtranclpE)
qed

lemma parents_first_by_rank:
  assumes "ranked odb rank" "sorted_wrt (\<lambda>a b. rank b \<le> rank a) xs"
    and "\<And>c p. c \<in> set xs \<Longrightarrow> edge odb c p \<Longrightarrow> \<not> stop p \<Longrightarrow> p \<in> set xs"
  shows "parents_first (edge odb) stop xs"
  using assms(2,3)
proof (induction xs)
  case (Cons c cs)
  have "p \<in> set cs" if "d \<in> set (c # cs)" "edge odb d p" "\<not> stop p" for d p
    using Cons.prems that rankedD [OF assms(1) that(2)] by fastforce
  then show ?case using Cons by auto
qed simp

subsection \<open>Invariant of the ranked walk\<close>

definition popped :: "'c range_state \<Rightarrow> 'c set" where
  "popped st = enqueued st - set (frontier st)"

text \<open>The commits of the frontier rank below the popped ones, and a popped commit knows whether it is hidden.\<close>

definition range_inv :: "'c odb \<Rightarrow> ('c \<Rightarrow> nat) \<Rightarrow> 'c \<Rightarrow> 'c \<Rightarrow> 'c range_state \<Rightarrow> bool" where
  "range_inv odb rank tip base st \<longleftrightarrow>
    heap_inv rank st \<and> {tip, base} \<subseteq> enqueued st \<and> enqueued st \<subseteq> ancestors odb tip \<union> ancestors odb base \<and>
    base \<in> hidden st \<and> hidden st \<subseteq> ancestors odb base \<and>
    (\<forall>d \<in> popped st. \<forall>n \<in> set (frontier st). rank n \<le> rank d) \<and>
    (\<forall>d \<in> popped st. \<forall>p. edge odb d p \<longrightarrow> p \<in> enqueued st \<and> (d \<in> hidden st \<longrightarrow> p \<in> hidden st)) \<and>
    popped st \<inter> ancestors odb base \<subseteq> hidden st \<and>
    set (range_out st) = popped st - hidden st \<and> distinct (range_out st) \<and>
    sorted_wrt (\<lambda>a b. rank b \<le> rank a) (range_out st)"

lemma heap_top_max: "heap_top h = Some x \<Longrightarrow> y \<in> set h \<Longrightarrow> fst y \<le> fst x"
proof (induction h arbitrary: x y)
  case (Cons z h)
  have fst_le: "pops_before a b \<Longrightarrow> fst b \<le> fst a" "\<not> pops_before a b \<Longrightarrow> fst a \<le> fst b"
    for a b :: "nat \<times> nat \<times> 'a"
    by (cases a; cases b; auto)+
  show ?case
  proof (cases "heap_top h")
    case None
    then have "h = []" by (cases h) (auto split: option.splits)
    then show ?thesis using Cons.prems by simp
  next
    case (Some t)
    then show ?thesis
      using Cons.prems Cons.IH [OF Some, of y] fst_le [of t z] by (auto split: if_splits intro: order_trans)
  qed
qed simp

lemma heap_pop_frontier:
  assumes "heap_inv rank st" "heap_pop (heap st) = Some ((r, k, c), h)"
  shows "c \<in> set (frontier st)" "set (frontier (st\<lparr> heap := h \<rparr>)) = set (frontier st) - {c}"
    and "distinct (frontier (st\<lparr> heap := h \<rparr>))" "set h \<subseteq> set (heap st)"
    and "\<And>n. n \<in> set (frontier st) \<Longrightarrow> rank n \<le> rank c"
proof -
  have top: "heap_top (heap st) = Some (r, k, c)" and h: "h = remove1 (r, k, c) (heap st)"
    using assms(2) by (auto simp: heap_pop_def)
  have mem: "(r, k, c) \<in> set (heap st)" by (rule heap_top_in [OF top])
  then obtain xs ys where split: "heap st = xs @ (r, k, c) # ys" "(r, k, c) \<notin> set xs"
    by (meson split_list_first)
  have dist: "distinct (frontier st)" using assms(1) by (simp add: heap_inv_def)
  then show "c \<in> set (frontier st)" "set (frontier (st\<lparr> heap := h \<rparr>)) = set (frontier st) - {c}"
    and "distinct (frontier (st\<lparr> heap := h \<rparr>))" "set h \<subseteq> set (heap st)"
    using split by (auto simp: frontier_def h remove1_append)
  show "rank n \<le> rank c" if "n \<in> set (frontier st)" for n
  proof -
    from that obtain r' k' where n: "(r', k', n) \<in> set (heap st)" by (auto simp: frontier_def)
    then have "r' = rank n" "r = rank c" using mem assms(1) by (auto simp: heap_inv_def)
    then show ?thesis using heap_top_max [OF top n] by simp
  qed
qed

lemma hidden_on_pop:
  assumes inv: "range_inv odb rank tip base st" and rank: "ranked odb rank"
    and max: "\<And>n. n \<in> set (frontier st) \<Longrightarrow> rank n \<le> rank c" and c: "c \<in> ancestors odb base"
  shows "c \<in> hidden st"
proof -
  have "c \<in> ancestors odb x \<Longrightarrow> x \<in> hidden st \<and> x \<in> enqueued st \<and> (x = c \<or> x \<in> popped st)"
    if "(edge odb)\<^sup>*\<^sup>* base x" for x
    using that
  proof (induction rule: rtranclp_induct)
    case base
    have "base = c \<or> rank c < rank base" using ancestors_rank [OF rank c] by auto
    then show ?case using inv max [of base] by (auto simp: range_inv_def popped_def)
  next
    case (step x y)
    have x: "c \<in> ancestors odb x"
      by (rule ancestors_trans [OF ancestors_edge [OF ancestors_self step(2)] step(4)])
    have less: "y = c \<or> rank c < rank y" using ancestors_rank [OF rank step(4)] by auto
    then have "x \<noteq> c" using rankedD [OF rank step(2)] by auto
    then have "x \<in> hidden st" "x \<in> popped st" using step.IH [OF x] by auto
    then have "y \<in> hidden st" "y \<in> enqueued st" using inv step(2) by (auto simp: range_inv_def)
    then show ?case using less max [of y] by (auto simp: popped_def)
  qed
  from this [of c] c show ?thesis by (simp add: ancestors_def)
qed


lemma range_inv_pop:
  assumes inv: "range_inv odb rank tip base st" and rank: "ranked odb rank"
    and c: "c \<in> set (frontier st)" "\<And>n. n \<in> set (frontier st) \<Longrightarrow> rank n \<le> rank c"
    and ps: "read_parent_oids odb c = Inr ps"
    and st1: "set (frontier st1) = set (frontier st) - {c}" "enqueued st1 = enqueued st" "hidden st1 = hidden st"
      "range_out st1 = (if c \<in> hidden st then range_out st else range_out st @ [c])"
    and enters: "enters rank (if c \<in> hidden st then set ps else {}) (set ps) st1 st'"
  shows "range_inv odb rank tip base st'"
proof -
  let ?H = "if c \<in> hidden st then set ps else {}"
  note inv' = inv [unfolded range_inv_def]
  have e: "\<And>p. edge odb c p \<longleftrightarrow> p \<in> set ps" using ps by (simp add: edge_def)
  then have less: "rank p < rank c" if "p \<in> set ps" for p using rankedD [OF rank] that by blast
  have nE: "set (frontier st) \<subseteq> enqueued st" "c \<in> enqueued st" using inv' c(1) by (auto simp: heap_inv_def)
  have st': "heap_inv rank st'" "hidden st' = hidden st \<union> ?H" "enqueued st' = enqueued st \<union> set ps"
    "range_out st' = range_out st1" "set (frontier st') = (set (frontier st) - {c}) \<union> (set ps - enqueued st)"
    using enters st1 by (auto simp: enters_def)
  have pop: "popped st' = insert c (popped st)"
    using st' nE by (auto simp: popped_def)
  have below: "rank c \<le> rank d" if "d \<in> popped st" for d using inv' c(1) that by auto
  have old: "d \<notin> set ps" if "d \<in> insert c (popped st)" for d using that below less by force
  have hid: "d \<in> hidden st' \<longleftrightarrow> d \<in> hidden st" if "d \<in> insert c (popped st)" for d
    using old [OF that] st'(2) by auto
  have cb: "c \<in> hidden st \<longleftrightarrow> c \<in> ancestors odb base"
    using hidden_on_pop [OF inv rank c(2)] inv' by blast
  have anc: "set ps \<subseteq> ancestors odb tip \<union> ancestors odb base" "?H \<subseteq> ancestors odb base"
    using e nE(2) inv' cb by (auto intro: ancestors_edge)
  have "rank n \<le> rank c" if "n \<in> set (frontier st')" for n
    using that c(2) less unfolding st'(5) by (auto intro: less_imp_le)
  moreover have "rank c \<le> rank d" if "d \<in> popped st'" for d
    using that below unfolding pop by auto
  ultimately have "\<forall>d \<in> popped st'. \<forall>n \<in> set (frontier st'). rank n \<le> rank d" by (blast intro: order_trans)
  moreover have "\<forall>d \<in> popped st'. \<forall>p. edge odb d p \<longrightarrow> p \<in> enqueued st' \<and> (d \<in> hidden st' \<longrightarrow> p \<in> hidden st')"
    using inv' e hid unfolding pop st'(2,3) by auto
  moreover have "popped st' \<inter> ancestors odb base \<subseteq> hidden st'"
    using inv' cb unfolding pop st'(2) by auto
  moreover have "c \<notin> popped st" using c(1) by (simp add: popped_def)
  then have "set (range_out st') = popped st' - hidden st'" "distinct (range_out st')"
    "sorted_wrt (\<lambda>a b. rank b \<le> rank a) (range_out st')"
    using inv' hid below unfolding pop st'(4) st1(4) by (auto simp: sorted_wrt_append)
  ultimately show ?thesis
    using inv' st' anc by (auto simp: range_inv_def)
qed


lemma range_step_inv:
  assumes inv: "range_inv odb rank tip base st" and rank: "ranked odb rank" "sound_seq seq_of rank"
    and popd: "heap_pop (heap st) = Some ((r, k, c), h)"
    and run: "range_step odb seq_of c (st\<lparr> heap := h \<rparr>) = Inr st'"
  shows "range_inv odb rank tip base st'"
proof -
  let ?st = "st\<lparr> heap := h \<rparr>"
  have hi: "heap_inv rank st" using inv by (simp add: range_inv_def)
  note pop = heap_pop_frontier [OF hi popd]
  have rk: "\<forall>(r, k, c) \<in> set h. r = rank c" using hi pop(4) by (auto simp: heap_inv_def)
  show ?thesis
  proof (cases "c \<in> hidden st")
    case True
    with run obtain ps where ps: "read_parent_oids odb c = Inr ps" "foldR (hide_parent seq_of) ?st ps = Inr st'"
      by (auto simp: range_step_def bindR_Inr_iff)
    have "heap_inv rank ?st" using hi pop(2,3) rk True by (auto simp: heap_inv_def)
    from hide_parents_enter [OF this rank(2) ps(2)] show ?thesis
      using True pop(2) by (intro range_inv_pop [OF inv rank(1) pop(1,5) ps(1), of ?st]) simp_all
  next
    case False
    let ?st1 = "?st\<lparr> queued_visible := queued_visible st - {c}, visible_pending := visible_pending st - 1,
      range_out := range_out st @ [c] \<rparr>"
    from False run obtain ps where ps: "read_parent_oids odb c = Inr ps" "foldR (show_parent seq_of) ?st1 ps = Inr st'"
      by (auto simp: range_step_def bindR_Inr_iff Let_def)
    have frontier: "frontier ?st1 = frontier ?st" by (simp add: frontier_def)
    have "c \<in> queued_visible st" using hi pop(1) False by (simp add: heap_inv_def)
    then have "heap_inv rank ?st1" using hi pop(2,3) rk frontier by (auto simp: heap_inv_def)
    from show_parents_enter [OF this rank(2) ps(2)] show ?thesis
      using False pop(2) frontier by (intro range_inv_pop [OF inv rank(1) pop(1,5) ps(1), of ?st1]) simp_all
  qed
qed

text \<open>Once only hidden commits are pending, what was popped in the open is the range.\<close>

lemma range_inv_done:
  assumes inv: "range_inv odb rank tip base st" and rank: "ranked odb rank" and fin: "queued_visible st = {}"
  shows "set (range_out st) = ancestors odb tip - ancestors odb base"
    and "parents_first (edge odb) (\<lambda>c. c \<in> ancestors odb base) (range_out st)"
proof -
  note inv' = inv [unfolded range_inv_def]
  have hid: "set (frontier st) \<subseteq> hidden st" using inv' fin by (auto simp: heap_inv_def)
  have "x \<notin> ancestors odb base \<Longrightarrow> x \<in> popped st" if "(edge odb)\<^sup>*\<^sup>* tip x" for x
    using that
  proof (induction rule: rtranclp_induct)
    case base
    then show ?case using inv' hid by (auto simp: popped_def)
  next
    case (step x y)
    then have "x \<in> popped st" using ancestors_edge [of x odb base y] by blast
    then have "y \<in> enqueued st" using inv' step(2) by blast
    then show ?case using inv' hid step(4) by (auto simp: popped_def)
  qed
  then have "ancestors odb tip - ancestors odb base \<subseteq> popped st - hidden st"
    using inv' by (auto simp: ancestors_def)
  moreover have "popped st - hidden st \<subseteq> ancestors odb tip - ancestors odb base"
    using inv' by (auto simp: popped_def)
  moreover have "set (range_out st) = popped st - hidden st" using inv' by (elim conjE)
  ultimately show out: "set (range_out st) = ancestors odb tip - ancestors odb base" by simp
  show "parents_first (edge odb) (\<lambda>c. c \<in> ancestors odb base) (range_out st)"
  proof (rule parents_first_by_rank [OF rank])
    show "sorted_wrt (\<lambda>a b. rank b \<le> rank a) (range_out st)" using inv' by simp
    show "p \<in> set (range_out st)" if "c \<in> set (range_out st)" "edge odb c p" "p \<notin> ancestors odb base" for c p
      using that ancestors_edge [of c odb tip p] by (simp add: out)
  qed
qed

definition range_result :: "'c odb \<Rightarrow> 'c \<Rightarrow> 'c \<Rightarrow> 'c list \<Rightarrow> bool" where
  "range_result odb tip base out \<longleftrightarrow>
    distinct out \<and> set out = ancestors odb tip - ancestors odb base \<and>
    parents_first (edge odb) (\<lambda>c. c \<in> ancestors odb base) out"

lemma ranked_loop_result:
  assumes "range_inv odb rank tip base st" "ranked odb rank" "sound_seq seq_of rank"
    and "ranked_loop odb seq_of st = Inr out"
  shows "range_result odb tip base out"
  using assms
proof (induction odb seq_of st rule: ranked_loop.induct)
  case (1 odb seq_of st)
  have hi: "heap_inv rank st" using 1(2) by (simp add: range_inv_def)
  show ?case
  proof (cases "visible_pending st = 0 \<or> heap_pop (heap st) = None")
    case True
    then have "queued_visible st = {}"
    proof
      assume "visible_pending st = 0"
      then have "card (queued_visible st) = 0" using heap_inv_card [OF hi] by simp
      then show ?thesis using finite_queued [OF hi] by simp
    next
      assume "heap_pop (heap st) = None"
      then have "heap st = []" by (cases "heap st") (auto simp: heap_pop_def split: option.splits)
      then show ?thesis using hi by (simp add: heap_inv_def frontier_def)
    qed
    moreover have "out = range_out st" using 1(5) True by (auto simp: ranked_loop.simps split: if_splits)
    ultimately show ?thesis
      using range_inv_done [OF 1(2,3)] 1(2) by (simp add: range_result_def range_inv_def)
  next
    case False
    then obtain r k c h where pop: "heap_pop (heap st) = Some ((r, k, c), h)" by auto
    with False 1(5) obtain st' where run: "range_step odb seq_of c (st\<lparr> heap := h \<rparr>) = Inr st'"
      "ranked_loop odb seq_of st' = Inr out"
      by (auto simp: ranked_loop.simps [of odb seq_of st] bindR_Inr_iff)
    show ?thesis
      using False pop range_step_inv [OF 1(2-4) pop run(1)] run 1(3,4)
      by (intro "1.IH" [OF _ pop refl refl refl run(1)]) auto
  qed
qed


lemma range_inv_start:
  assumes "foldR (enqueue seq_of) (range_start base) [tip, base] = Inr st" "tip \<noteq> base" "sound_seq seq_of rank"
  shows "range_inv odb rank tip base st"
proof -
  from assms(1) obtain r r' where "seq_of tip = Inr r" "seq_of base = Inr r'"
    by (auto simp: bindR_Inr_iff enqueue_def heap_push_def range_start_def Let_def split: if_splits)
  with assms(3) have "seq_of tip = Inr (rank tip)" "seq_of base = Inr (rank base)" by (auto simp: sound_seq_def)
  with assms(1,2) have "st = \<lparr> hidden = {base}, enqueued = {base, tip}, queued_visible = {tip}, visible_pending = 1,
      heap = [(rank base, 1, base), (rank tip, 0, tip)], next_seq = 2, range_out = [] \<rparr>"
    by (auto simp: enqueue_def heap_push_def range_start_def Let_def)
  with assms(2) show ?thesis by (auto simp: range_inv_def heap_inv_def frontier_def popped_def)
qed

lemma fast_forward_result:
  assumes "fast_forward_walk odb base n out c = Inr (Some res)" "ranked odb rank"
  shows "base \<in> ancestors odb c \<and> (\<exists>chain. res = out @ chain \<and> range_result odb c base chain)"
  using assms(1)
proof (induction n arbitrary: out c)
  case (Suc n)
  show ?case
  proof (cases "c = base")
    case True
    then show ?thesis using Suc.prems by (auto simp: range_result_def)
  next
    case False
    with Suc.prems obtain p where p: "read_parent_oids odb c = Inr [p]"
      and run: "fast_forward_walk odb base n (out @ [c]) p = Inr (Some res)"
      by (cases "read_parent_oids odb c") (auto split: list.splits)
    from Suc.IH [OF run] obtain chain where chain: "res = out @ c # chain" "range_result odb p base chain"
      and b: "base \<in> ancestors odb p" by auto
    have anc: "ancestors odb c = insert c (ancestors odb p)" using ancestors_unfold [OF p] by simp
    have "rank p < rank c" using p by (intro rankedD [OF assms(2)]) (simp add: edge_def)
    then have "c \<notin> ancestors odb p" "c \<notin> ancestors odb base"
      using ancestors_rank [OF assms(2), of c p] ancestors_rank [OF assms(2), of c base]
        ancestors_rank [OF assms(2) b] False by auto
    moreover have "edge odb c q \<longleftrightarrow> q = p" for q using p by (simp add: edge_def)
    ultimately have "range_result odb c base (c # chain)"
      using chain(2) anc by (auto simp: range_result_def)
    then show ?thesis using chain(1) b anc by blast
  qed
qed simp

subsection \<open>Failure\<close>

definition unreadable :: "'c odb \<Rightarrow> ('c \<Rightarrow> nat result) \<Rightarrow> 'c \<Rightarrow> bool" where
  "unreadable odb seq_of c \<longleftrightarrow> \<not> ok (read_parent_oids odb c) \<or> \<not> ok (seq_of c)"

lemma fast_forward_fails:
  "fast_forward_walk odb base n out c = Inl e \<Longrightarrow> \<exists>d \<in> ancestors odb c. \<not> ok (read_parent_oids odb d)"
proof (induction n arbitrary: out c)
  case (Suc n)
  show ?case
  proof (cases "read_parent_oids odb c")
    case (Inl _)
    then show ?thesis by (intro bexI [of _ c]) simp_all
  next
    case (Inr ps)
    with Suc.prems obtain p where p: "ps = [p]" "fast_forward_walk odb base n (out @ [c]) p = Inl e"
      by (auto split: if_splits list.splits)
    with Inr have "ancestors odb p \<subseteq> ancestors odb c" using ancestors_unfold [OF Inr] by auto
    then show ?thesis using Suc.IH [OF p(2)] by blast
  qed
qed simp

lemma push_fails: "heap_push seq_of st p = Inl e \<Longrightarrow> \<not> ok (seq_of p)"
  by (auto simp: heap_push_def bindR_Inl_iff)

lemma parent_fails:
  "show_parent seq_of st p = Inl e \<Longrightarrow> \<not> ok (seq_of p)"
  "hide_parent seq_of st p = Inl e \<Longrightarrow> \<not> ok (seq_of p)"
  "enqueue seq_of st p = Inl e \<Longrightarrow> \<not> ok (seq_of p)"
  by (auto simp: show_parent_def hide_parent_def enqueue_def Let_def split: if_splits dest: push_fails)

lemma parents_fail:
  "foldR (show_parent seq_of) st ps = Inl e \<Longrightarrow> \<exists>p \<in> set ps. \<not> ok (seq_of p)"
  "foldR (hide_parent seq_of) st ps = Inl e \<Longrightarrow> \<exists>p \<in> set ps. \<not> ok (seq_of p)"
  "foldR (enqueue seq_of) st ps = Inl e \<Longrightarrow> \<exists>p \<in> set ps. \<not> ok (seq_of p)"
  by (induction ps arbitrary: st) (auto simp: bindR_Inl_iff dest: parent_fails)

lemma range_step_fails:
  assumes "range_step odb seq_of c st = Inl e"
  shows "unreadable odb seq_of c \<or> (\<exists>p. edge odb c p \<and> unreadable odb seq_of p)"
proof (cases "read_parent_oids odb c")
  case (Inl _)
  then show ?thesis by (simp add: unreadable_def)
next
  case (Inr ps)
  with assms have "\<exists>p \<in> set ps. \<not> ok (seq_of p)"
    by (auto simp: range_step_def Let_def split: if_splits dest: parents_fail)
  then show ?thesis using Inr by (auto simp: unreadable_def edge_def)
qed

lemma ranked_loop_fails:
  assumes "ranked_loop odb seq_of st = Inl e" "range_inv odb rank tip base st"
    and "ranked odb rank" "sound_seq seq_of rank"
  shows "\<exists>c \<in> ancestors odb tip \<union> ancestors odb base. unreadable odb seq_of c"
  using assms
proof (induction odb seq_of st rule: ranked_loop.induct)
  case (1 odb seq_of st)
  from 1(2) obtain r k c h where vp: "visible_pending st \<noteq> 0" and pop: "heap_pop (heap st) = Some ((r, k, c), h)"
    and run: "bindR (range_step odb seq_of c (st\<lparr> heap := h \<rparr>)) (ranked_loop odb seq_of) = Inl e"
    by (auto simp: ranked_loop.simps [of odb seq_of st] split: if_splits option.splits)
  show ?case
  proof (cases "range_step odb seq_of c (st\<lparr> heap := h \<rparr>)")
    case (Inl _)
    have hi: "heap_inv rank st" using 1(3) by (simp add: range_inv_def)
    have "c \<in> ancestors odb tip \<union> ancestors odb base"
      using heap_pop_frontier(1) [OF hi pop] 1(3) hi by (auto simp: range_inv_def heap_inv_def)
    then show ?thesis using range_step_fails [OF Inl] by (auto dest: ancestors_edge)
  next
    case (Inr st')
    then show ?thesis
      using run range_step_inv [OF 1(3-5) pop Inr] 1(4,5) vp
      by (intro "1.IH" [OF vp pop refl refl refl Inr]) auto
  qed
qed


subsection \<open>The range walk yields exactly the range\<close>

lemma range_topo_vec_exact:
  assumes "ranked odb rank" "sound_seq seq_of rank"
  shows "case range_topo_vec odb seq_of tip base of
      Inr out \<Rightarrow>
        distinct out \<and> set out = ancestors odb tip - ancestors odb base \<and>
        parents_first (edge odb) (\<lambda>c. c \<in> ancestors odb base) out
    | Inl e \<Rightarrow>
        \<not> ok (ensure_commit odb tip) \<or> \<not> ok (ensure_commit odb base) \<or>
        (\<exists>c \<in> ancestors odb tip \<union> ancestors odb base. unreadable odb seq_of c)"
proof (cases "range_topo_vec odb seq_of tip base")
  case (Inl e)
  have "\<exists>c \<in> ancestors odb tip \<union> ancestors odb base. unreadable odb seq_of c"
    if run: "ranked_walk odb seq_of tip base = Inl e" and "tip \<noteq> base"
  proof (cases "foldR (enqueue seq_of) (range_start base) [tip, base]")
    case (Inl e')
    from parents_fail(3) [OF this] show ?thesis by (auto simp: unreadable_def)
  next
    case (Inr st)
    with run have "ranked_loop odb seq_of st = Inl e" by (simp add: ranked_walk_def)
    from ranked_loop_fails [OF this range_inv_start [OF Inr that(2) assms(2)] assms] show ?thesis .
  qed
  moreover have "\<exists>c \<in> ancestors odb tip \<union> ancestors odb base. unreadable odb seq_of c"
    if "fast_forward_walk odb base FAST_FORWARD_PROBE_LIMIT [] tip = Inl e"
    using fast_forward_fails [OF that] by (auto simp: unreadable_def)
  ultimately show ?thesis
    using Inl by (auto simp: range_topo_vec_def bindR_Inl_iff split: if_splits option.splits)
next
  case (Inr out)
  have "range_result odb tip base out" if "ranked_walk odb seq_of tip base = Inr out" "tip \<noteq> base"
  proof -
    from that(1) obtain st where st: "foldR (enqueue seq_of) (range_start base) [tip, base] = Inr st"
      "ranked_loop odb seq_of st = Inr out"
      by (auto simp: ranked_walk_def bindR_Inr_iff simp del: foldR.simps)
    show ?thesis by (rule ranked_loop_result [OF range_inv_start [OF st(1) that(2) assms(2)] assms st(2)])
  qed
  then have "range_result odb tip base out"
    using Inr fast_forward_result [OF _ assms(1), of base FAST_FORWARD_PROBE_LIMIT "[]" tip out]
    by (auto simp: range_topo_vec_def bindR_Inr_iff range_result_def split: if_splits option.splits)
  then show ?thesis by (simp add: Inr range_result_def)
qed


text \<open>
  C29. The range walk between two commits of an acyclic graph, where the sequence numbers that the
  lookup returns strictly decrease from a commit to its parents. Either it yields exactly the commits
  reachable from the tip and not from the base, each once and before every parent of it that is in the
  range, whichever of the two strategies runs; or an end is not a commit, or an ancestor of one of the
  ends cannot be read or has no sequence number.
\<close>

theorem range_topo_vec_spec:
  assumes "ranked odb rank" "sound_seq seq_of rank"
  shows "case range_topo_vec odb seq_of tip base of
      Inr out \<Rightarrow>
        distinct out \<and> set out = ancestors odb tip - ancestors odb base \<and>
        parents_first (edge odb) (\<lambda>c. c \<in> ancestors odb base) out
    | Inl e \<Rightarrow>
        \<not> ok (ensure_commit odb tip) \<or> \<not> ok (ensure_commit odb base) \<or>
        (\<exists>c \<in> ancestors odb tip \<union> ancestors odb base. unreadable odb seq_of c)"
  by (rule range_topo_vec_exact [OF assms])

theorem range_topo_vec_spec_witness:
  "range_topo_vec diamond (\<lambda>c. Inr c) 5 2 = Inr [5, 4, 3] \<and>
   set [5, 4, 3] = ancestors diamond 5 - ancestors diamond 2"
proof -
  have run: "range_topo_vec diamond (\<lambda>c. Inr c) 5 2 = Inr [5, 4, 3]"
    by (simp add: range_topo_vec_def FAST_FORWARD_PROBE_LIMIT_def ranked_walk_def range_start_def enqueue_def
        heap_push_def ranked_loop.simps heap_pop_def range_step_def show_parent_def hide_parent_def Let_def
        diamond_def read_parent_oids.simps ensure_commit.simps numeral_eq_Suc)
  have "sound_seq (\<lambda>c. Inr c) (\<lambda>c. c)" by (simp add: sound_seq_def)
  from range_topo_vec_spec [OF diamond_ranked this, of 5 2] show ?thesis
    by (simp add: run del: parents_first.simps)
qed

end
