(* ===== verification/History_Graph.thy ===== *)
theory History_Graph
  imports Rangewalk "HOL-Library.Word"
begin

text \<open>
  The history graph of \<^verbatim>\<open>josh-core/src/cache/history_graph.rs\<close> and \<^verbatim>\<open>backend.rs\<close>: the sequence
  number of a commit, the facts about its parents packed beside it, and the root commits it reaches,
  computed by one walk and cached per commit.

  An object id is its twenty bytes. A blob is identified with its content, so the id of a roots blob is
  its bytes. The cache is what \<^verbatim>\<open>Transaction::get\<close> finds under the two keys
  \<^verbatim>\<open>sequence_number()\<close> and \<^verbatim>\<open>reachable_roots()\<close>.
\<close>

unbundle bit_operations_syntax

type_synonym oid = "8 word list"

definition zero_sha1 :: oid where
  "zero_sha1 = replicate 20 0"

subsection \<open>Hints\<close>

record graph_hint =
  sequence_number :: "64 word"
  parent_count :: "8 word"
  jump_delta :: "8 word"
  jump_is_second :: bool

definition SAMPLE_INTERVAL :: "64 word" where
  "SAMPLE_INTERVAL = 100"

definition saturating_sub :: "64 word \<Rightarrow> 64 word \<Rightarrow> 64 word" where
  "saturating_sub a b = (if b \<le> a then a - b else 0)"

definition crosses_sample_boundary :: "64 word \<Rightarrow> 8 word \<Rightarrow> bool" where
  "crosses_sample_boundary seq delta \<longleftrightarrow>
    saturating_sub seq (ucast delta) div SAMPLE_INTERVAL < seq div SAMPLE_INTERVAL"

definition is_sample_point :: "graph_hint \<Rightarrow> bool" where
  "is_sample_point h =
    (if sequence_number h mod SAMPLE_INTERVAL = 0 then True
     else if parent_count h = 1 then False
     else if parent_count h = 2 then crosses_sample_boundary (sequence_number h) (jump_delta h)
     else True)"

definition to_be_bytes :: "64 word \<Rightarrow> 8 word list" where
  "to_be_bytes w = map (\<lambda>i. ucast (drop_bit (8 * (7 - i)) w)) [0..<8]"

definition from_be_bytes :: "8 word list \<Rightarrow> 64 word" where
  "from_be_bytes bs = foldl (\<lambda>acc b. push_bit 8 acc OR ucast b) 0 bs"

definition oid_from_hint :: "graph_hint \<Rightarrow> oid" where
  "oid_from_hint h =
    replicate 10 0 @
    [push_bit 7 (if jump_is_second h then 1 else 0) OR jump_delta h, parent_count h] @
    to_be_bytes (sequence_number h)"

definition hint_from_oid :: "oid \<Rightarrow> graph_hint" where
  "hint_from_oid b =
    \<lparr> sequence_number = from_be_bytes (drop (20 - 8) b), parent_count = b ! 11,
      jump_delta = (b ! 10) AND 0x7f, jump_is_second = (b ! 10) AND 0x80 \<noteq> 0 \<rparr>"

subsection \<open>Root blobs\<close>

definition write_roots_blob :: "oid list \<Rightarrow> 8 word list" where
  "write_roots_blob roots = concat roots"

function chunks_exact :: "nat \<Rightarrow> 'a list \<Rightarrow> 'a list list" where
  "chunks_exact n xs = (if n = 0 \<or> length xs < n then [] else take n xs # chunks_exact n (drop n xs))"
  by pat_completeness auto

termination
  by (relation "measure (\<lambda>(n, xs). length xs)") auto

declare chunks_exact.simps [simp del]

definition read_roots_blob :: "8 word list \<Rightarrow> oid list result" where
  "read_roots_blob content =
    (if length content mod 20 \<noteq> 0 then Inl (Failed ''malformed reachable_roots blob'')
     else Inr (chunks_exact 20 content))"

subsection \<open>The cache\<close>

record graph_cache =
  seq_hints :: "oid \<rightharpoonup> oid"
  root_blobs :: "oid \<rightharpoonup> 8 word list"

definition try_read_cached_hint :: "graph_cache \<Rightarrow> oid \<Rightarrow> (graph_hint \<times> 8 word list) option" where
  "try_read_cached_hint gc c =
    (case seq_hints gc c of
       None \<Rightarrow> None
     | Some s \<Rightarrow>
        (case root_blobs gc c of
           None \<Rightarrow> None
         | Some b \<Rightarrow> Some (hint_from_oid s, b)))"

definition store_hint :: "graph_cache \<Rightarrow> oid \<Rightarrow> graph_hint \<times> 8 word list \<Rightarrow> graph_cache" where
  "store_hint gc c hint =
    gc\<lparr> seq_hints := (seq_hints gc)(c \<mapsto> oid_from_hint (fst hint)),
        root_blobs := (root_blobs gc)(c \<mapsto> snd hint) \<rparr>"

definition derive_from_parents ::
  "oid \<Rightarrow> (64 word \<times> 8 word list) list \<Rightarrow> (graph_hint \<times> 8 word list) result" where
  "derive_from_parents self parents_hint =
    (case parents_hint of
       [] \<Rightarrow> Inr (\<lparr> sequence_number = 0, parent_count = 0, jump_delta = 0, jump_is_second = False \<rparr>,
               write_roots_blob [self])
     | (s0, first_blob) # others \<Rightarrow>
        let seq = foldl max s0 (map fst others) + 1;
            d0 = seq - s0;
            (delta, second) =
              (case others of
                 (s1, _) # _ \<Rightarrow> if seq - s1 > d0 then (ucast (min (seq - s1) 127), True) else (ucast (min d0 127), False)
               | [] \<Rightarrow> (ucast (min d0 127), False));
            hint = \<lparr> sequence_number = seq, parent_count = word_of_nat (min (length parents_hint) 255),
              jump_delta = delta, jump_is_second = second \<rparr>
        in if list_all (\<lambda>(_, b). b = first_blob) parents_hint then Inr (hint, first_blob)
           else bindR (mapR (\<lambda>(_, b). read_roots_blob b) parents_hint) (\<lambda>rss.
             Inr (hint, write_roots_blob (sort (remdups (concat rss))))))"

fun read_parent_ids :: "'c odb \<Rightarrow> 'c \<Rightarrow> 'c list result" where
  "read_parent_ids odb c =
    (case map_of odb c of
       None \<Rightarrow> Inl (Failed ''not found'')
     | Some NonCommit \<Rightarrow> Inl (Failed ''not a commit'')
     | Some (Malformed ps) \<Rightarrow> Inr ps
     | Some (Commit ps) \<Rightarrow> Inr ps)"

declare read_parent_ids.simps [simp del]

fun cached_parents :: "graph_cache \<Rightarrow> oid list \<Rightarrow> (64 word \<times> 8 word list) list option" where
  "cached_parents gc [] = Some []"
| "cached_parents gc (p # ps) =
    (case try_read_cached_hint gc p of
       None \<Rightarrow> None
     | Some (h, b) \<Rightarrow> map_option (\<lambda>hs. (sequence_number h, b) # hs) (cached_parents gc ps))"

text \<open>One round of the loop over the walk, and the loop: the cache is written as it goes.\<close>

definition derive_and_store :: "oid odb \<Rightarrow> graph_cache \<Rightarrow> oid \<Rightarrow> unit result \<times> graph_cache" where
  "derive_and_store odb gc c =
    (case read_parent_ids odb c of
       Inl e \<Rightarrow> (Inl e, gc)
     | Inr ps \<Rightarrow>
        (case cached_parents gc ps of
           None \<Rightarrow> (Inl (Failed ''parent hint missing''), gc)
         | Some hs \<Rightarrow>
            (case derive_from_parents c hs of
               Inl e \<Rightarrow> (Inl e, gc)
             | Inr hint \<Rightarrow> (Inr (), store_hint gc c hint))))"

fun derive_all :: "oid odb \<Rightarrow> graph_cache \<Rightarrow> oid list \<Rightarrow> unit result \<times> graph_cache" where
  "derive_all odb gc [] = (Inr (), gc)"
| "derive_all odb gc (c # cs) =
    (case derive_and_store odb gc c of
       (Inl e, gc') \<Rightarrow> (Inl e, gc')
     | (Inr _, gc') \<Rightarrow> derive_all odb gc' cs)"

definition fully_known :: "graph_cache \<Rightarrow> oid \<Rightarrow> bool" where
  "fully_known gc c \<longleftrightarrow> seq_hints gc c \<noteq> None \<and> root_blobs gc c \<noteq> None"

definition walk_and_store :: "oid odb \<Rightarrow> oid \<Rightarrow> graph_cache \<Rightarrow> (graph_hint \<times> 8 word list) result \<times> graph_cache" where
  "walk_and_store odb input gc =
    (case bindR (push odb new_walk input) (\<lambda>w. into_topo_vec odb w (fully_known gc)) of
       Inl e \<Rightarrow> (Inl e, gc)
     | Inr topo \<Rightarrow>
        (case derive_all odb gc (rev topo) of
           (Inl e, gc') \<Rightarrow> (Inl e, gc')
         | (Inr _, gc') \<Rightarrow> (of_option (Failed ''missing graph info'') (try_read_cached_hint gc' input), gc')))"

definition ensure_hint_cached ::
  "oid odb \<Rightarrow> oid \<Rightarrow> graph_cache \<Rightarrow> (graph_hint \<times> 8 word list) result \<times> graph_cache" where
  "ensure_hint_cached odb input gc =
    (case try_read_cached_hint gc input of
       Some hint \<Rightarrow> (Inr hint, gc)
     | None \<Rightarrow>
        if map_of odb input = None then (Inl (Failed ''input does not exist''), gc)
        else
          case read_parent_ids odb input of
            Inl e \<Rightarrow> (Inl e, gc)
          | Inr ps \<Rightarrow>
             (case cached_parents gc ps of
                Some hs \<Rightarrow>
                  (case derive_from_parents input hs of
                     Inl e \<Rightarrow> (Inl e, gc)
                   | Inr hint \<Rightarrow> (Inr hint, store_hint gc input hint))
              | None \<Rightarrow> walk_and_store odb input gc))"

definition compute_sequence_number :: "oid odb \<Rightarrow> oid \<Rightarrow> graph_cache \<Rightarrow> 64 word result \<times> graph_cache" where
  "compute_sequence_number odb input gc =
    (case ensure_hint_cached odb input gc of
       (Inl e, gc') \<Rightarrow> (Inl e, gc')
     | (Inr (h, _), gc') \<Rightarrow> (Inr (sequence_number h), gc'))"

definition compute_history_hint :: "oid odb \<Rightarrow> oid \<Rightarrow> graph_cache \<Rightarrow> graph_hint result \<times> graph_cache" where
  "compute_history_hint odb input gc =
    (case ensure_hint_cached odb input gc of
       (Inl e, gc') \<Rightarrow> (Inl e, gc')
     | (Inr (h, _), gc') \<Rightarrow> (Inr h, gc'))"

record history_graph_info =
  info_sequence_number :: "64 word"
  reachable_roots :: "oid list"

definition collect_history_graph_info ::
  "oid odb \<Rightarrow> oid \<Rightarrow> graph_cache \<Rightarrow> history_graph_info result \<times> graph_cache" where
  "collect_history_graph_info odb input gc =
    (case ensure_hint_cached odb input gc of
       (Inl e, gc') \<Rightarrow> (Inl e, gc')
     | (Inr (h, b), gc') \<Rightarrow>
        (bindR (read_roots_blob b) (\<lambda>rs.
           Inr \<lparr> info_sequence_number = sequence_number h, reachable_roots = rs \<rparr>), gc'))"

fun parent_blobs :: "oid odb \<Rightarrow> graph_cache \<Rightarrow> oid list \<Rightarrow> 8 word list list result \<times> graph_cache" where
  "parent_blobs odb gc [] = (Inr [], gc)"
| "parent_blobs odb gc (p # ps) =
    (case ensure_hint_cached odb p gc of
       (Inl e, gc') \<Rightarrow> (Inl e, gc')
     | (Inr (_, b), gc') \<Rightarrow>
        (case parent_blobs odb gc' ps of
           (Inl e, gc'') \<Rightarrow> (Inl e, gc'')
         | (Inr bs, gc'') \<Rightarrow> (Inr (b # bs), gc'')))"

fun intersect_roots :: "oid set \<Rightarrow> 8 word list list \<Rightarrow> bool result" where
  "intersect_roots common [] = Inr (common \<noteq> {})"
| "intersect_roots common (b # bs) =
    (if common = {} then Inr False
     else bindR (read_roots_blob b) (\<lambda>rs. intersect_roots (common \<inter> set rs) bs))"

definition parents_share_root :: "oid odb \<Rightarrow> oid list \<Rightarrow> graph_cache \<Rightarrow> bool result \<times> graph_cache" where
  "parents_share_root odb parent_ids gc =
    (if parent_ids = [] \<or> zero_sha1 \<in> set parent_ids then (Inr False, gc)
     else
       case parent_blobs odb gc parent_ids of
         (Inl e, gc') \<Rightarrow> (Inl e, gc')
       | (Inr blobs, gc') \<Rightarrow>
          (if list_all (\<lambda>b. b = hd blobs) blobs then (Inr True, gc')
           else (bindR (read_roots_blob (hd blobs)) (\<lambda>rs. intersect_roots (set rs) (tl blobs)), gc')))"

subsection \<open>Round trips\<close>

lemma be_bytes_take:
  "foldl (\<lambda>acc b. push_bit 8 acc OR ucast b) 0 (map (\<lambda>i. ucast (drop_bit (8 * (k - Suc i)) w) :: 8 word) [0..<k])
    = take_bit (8 * k) (w :: 64 word)"
proof (induction k arbitrary: w)
  case (Suc k)
  have "map (\<lambda>i. ucast (drop_bit (8 * (Suc k - Suc i)) w) :: 8 word) [0..<k] =
    map (\<lambda>i. ucast (drop_bit (8 * (k - Suc i)) (drop_bit 8 w))) [0..<k]"
    by (intro map_cong refl) (auto simp: drop_bit_drop_bit Suc_diff_Suc [symmetric] add.commute simp del: diff_Suc_Suc)
  then have "map (\<lambda>i. ucast (drop_bit (8 * (Suc k - Suc i)) w) :: 8 word) [0..<Suc k] =
    map (\<lambda>i. ucast (drop_bit (8 * (k - Suc i)) (drop_bit 8 w))) [0..<k] @ [ucast w]"
    by (simp only: upt_Suc_append zero_le map_append) simp
  then have "foldl (\<lambda>acc b. push_bit 8 acc OR ucast b) 0 (map (\<lambda>i. ucast (drop_bit (8 * (Suc k - Suc i)) w) :: 8 word) [0..<Suc k])
    = push_bit 8 (take_bit (8 * k) (drop_bit 8 w)) OR ucast (ucast w :: 8 word)"
    by (simp only: foldl_append Suc) simp
  also have "\<dots> = take_bit (8 * Suc k) w"
    by (rule bit_word_eqI) (auto simp: bit_or_iff bit_push_bit_iff bit_ucast_iff bit_take_bit_iff bit_drop_bit_eq not_less)
  finally show ?case .
qed simp

lemma be_bytes_roundtrip: "from_be_bytes (to_be_bytes w) = w"
  using be_bytes_take [of 8 w]
  by (simp add: from_be_bytes_def to_be_bytes_def take_bit_word_eq_self del: upt_Suc)

lemma length_be_bytes [simp]: "length (to_be_bytes w) = 8"
  by (simp add: to_be_bytes_def)

lemma small_delta_bit: "d < 128 \<Longrightarrow> \<not> bit (d :: 8 word) n \<or> n < 7"
proof -
  assume "d < 128"
  then have "take_bit 7 d = d" by (simp add: take_bit_eq_mod word_less_nat_alt word_arith_nat_mod flip: word_unat_eq_iff)
  then show ?thesis by (metis bit_take_bit_iff)
qed

lemma jump_byte:
  fixes d :: "8 word"
  assumes "d < 128"
  shows "(push_bit 7 (if b then 1 else 0) OR d) AND 0x7f = d"
    and "(push_bit 7 (if b then 1 else 0) OR d) AND 0x80 \<noteq> 0 \<longleftrightarrow> b"
proof -
  have mask: "(0x7f :: 8 word) = mask 7" by (simp add: mask_eq_exp_minus_1)
  have bit7: "bit (0x80 :: int) n \<longleftrightarrow> n = 7" for n
    using bit_exp_iff [of 7 n, where ?'a = int] by auto
  show "(push_bit 7 (if b then 1 else 0) OR d) AND 0x7f = d"
    unfolding mask by (rule bit_word_eqI)
      (use small_delta_bit [OF assms] in \<open>auto simp: bit_and_iff bit_or_iff bit_push_bit_iff bit_mask_iff bit7\<close>)
  have "(push_bit 7 (if b then 1 else 0) OR d) AND 0x80 = (if b then 0x80 else 0)"
    by (rule bit_word_eqI) (use small_delta_bit [OF assms] in \<open>auto simp: bit_and_iff bit_or_iff bit_push_bit_iff bit7\<close>)
  then show "(push_bit 7 (if b then 1 else 0) OR d) AND 0x80 \<noteq> 0 \<longleftrightarrow> b" by simp
qed

lemma hint_roundtrip:
  assumes "jump_delta h < 128"
  shows "hint_from_oid (oid_from_hint h) = h"
proof -
  let ?j = "push_bit 7 (if jump_is_second h then 1 else 0) OR jump_delta h"
  have "oid_from_hint h ! 10 = ?j" "oid_from_hint h ! 11 = parent_count h"
    "drop 12 (oid_from_hint h) = to_be_bytes (sequence_number h)"
    by (simp_all add: oid_from_hint_def nth_append)
  then show ?thesis
    using jump_byte [OF assms, of "jump_is_second h"] by (simp only: hint_from_oid_def) (simp add: be_bytes_roundtrip)
qed

end
