(* ===== verification/History_Spec.thy ===== *)
theory History_Spec
  imports History_Graph
begin

text \<open>
  Correctness of the history graph: the sequence number of a commit is the length of the longest chain
  of parents below it, the roots blob lists exactly the parentless commits it reaches, and the cache
  only ever holds such entries.
\<close>

subsection \<open>Depth\<close>

definition depth :: "'c odb \<Rightarrow> 'c \<Rightarrow> nat" where
  "depth odb c = Max {n. \<exists>p. (edge odb ^^ n) c p}"

definition complete :: "'c odb \<Rightarrow> 'c \<Rightarrow> bool" where
  "complete odb c \<longleftrightarrow> (\<forall>a \<in> ancestors odb c. ok (read_parent_oids odb a))"

definition roots :: "'c odb \<Rightarrow> 'c \<Rightarrow> 'c set" where
  "roots odb c = {r \<in> ancestors odb c. read_parent_oids odb r = Inr []}"

lemma edge_in_odb: "edge odb c p \<Longrightarrow> c \<in> set (in_odb odb)"
  by (auto simp: edge_def intro: read_parent_oids_in_odb)

lemma ancestors_of_edge: "edge odb c p \<Longrightarrow> ancestors odb p \<subseteq> ancestors odb c"
  by (auto simp: ancestors_def intro: converse_rtranclp_into_rtranclp)

lemma path_card:
  assumes "ranked odb rank" "(edge odb ^^ n) c p"
  shows "n \<le> card (ancestors odb c \<inter> set (in_odb odb))"
  using assms(2)
proof (induction n arbitrary: c)
  case (Suc n)
  then obtain d where d: "edge odb c d" "(edge odb ^^ n) d p" by (meson relpowp_Suc_D2)
  have "c \<notin> ancestors odb d"
    using ancestors_rank [OF assms(1), of c d] rankedD [OF assms(1) d(1)] by auto
  then have "Suc (card (ancestors odb d \<inter> set (in_odb odb)))
      = card (insert c (ancestors odb d \<inter> set (in_odb odb)))" by simp
  also have "\<dots> \<le> card (ancestors odb c \<inter> set (in_odb odb))"
    using ancestors_of_edge [OF d(1)] edge_in_odb [OF d(1)] by (intro card_mono) auto
  finally show ?case using Suc.IH [OF d(2)] by simp
qed simp

lemma paths_finite: "ranked odb rank \<Longrightarrow> finite {n. \<exists>p. (edge odb ^^ n) c p}"
  using path_card [of odb rank _ c] by (intro finite_subset [OF _ finite_atMost [of "card (ancestors odb c \<inter> set (in_odb odb))"]]) auto

lemma depth_bound: "ranked odb rank \<Longrightarrow> depth odb c \<le> length odb"
proof -
  assume r: "ranked odb rank"
  have "(edge odb ^^ 0) c c" by simp
  then have "{n. \<exists>p. (edge odb ^^ n) c p} \<noteq> {}" by blast
  from Max_in [OF paths_finite [OF r] this] obtain p where "(edge odb ^^ depth odb c) c p"
    by (auto simp: depth_def)
  then have "depth odb c \<le> card (ancestors odb c \<inter> set (in_odb odb))" by (rule path_card [OF r])
  also have "\<dots> \<le> card (set (in_odb odb))" by (rule card_mono) auto
  also have "\<dots> \<le> length odb" by (simp add: in_odb_def) (metis card_length length_map list.set_map)
  finally show ?thesis .
qed

lemma depth_edge: "ranked odb rank \<Longrightarrow> edge odb c p \<Longrightarrow> depth odb p < depth odb c"
proof -
  assume r: "ranked odb rank" and e: "edge odb c p"
  have "(edge odb ^^ 0) p p" by simp
  then have "{n. \<exists>q. (edge odb ^^ n) p q} \<noteq> {}" by blast
  from Max_in [OF paths_finite [OF r] this] obtain q where "(edge odb ^^ depth odb p) p q"
    by (auto simp: depth_def)
  then have "(edge odb ^^ Suc (depth odb p)) c q" using e by (meson relpowp_Suc_I2)
  then have "Suc (depth odb p) \<le> depth odb c"
    unfolding depth_def [of odb c] by (intro Max_ge [OF paths_finite [OF r]]) auto
  then show ?thesis by simp
qed

lemma depth_parents:
  assumes "ranked odb rank" "read_parent_oids odb c = Inr ps"
  shows "depth odb c = (if ps = [] then 0 else Suc (Max (depth odb ` set ps)))"
proof -
  have e: "edge odb c p \<longleftrightarrow> p \<in> set ps" for p using assms(2) by (simp add: edge_def)
  have "(edge odb ^^ 0) c c" by simp
  then have "{n. \<exists>p. (edge odb ^^ n) c p} \<noteq> {}" by blast
  from Max_in [OF paths_finite [OF assms(1)] this] obtain q where q: "(edge odb ^^ depth odb c) c q"
    by (auto simp: depth_def)
  show ?thesis
  proof (cases "depth odb c")
    case 0
    have "ps = []"
    proof (rule ccontr)
      assume "ps \<noteq> []"
      then have "edge odb c (hd ps)" using e by simp
      then show False using depth_edge [OF assms(1)] 0 by fastforce
    qed
    then show ?thesis using 0 by simp
  next
    case (Suc n)
    with q obtain p where p: "edge odb c p" "(edge odb ^^ n) p q" by (metis relpowp_Suc_D2)
    then have "n \<le> depth odb p" unfolding depth_def by (intro Max_ge [OF paths_finite [OF assms(1)]]) auto
    then have "n \<le> Max (depth odb ` set ps)" using p(1) e by (meson Max_ge finite_imageI finite_set image_eqI order_trans)
    moreover have "Max (depth odb ` set ps) < depth odb c"
      using p(1) e depth_edge [OF assms(1)] by (subst Max_less_iff) auto
    ultimately show ?thesis using Suc p(1) e by auto
  qed
qed

lemma roots_parents:
  assumes "ranked odb rank" "read_parent_oids odb c = Inr ps"
  shows "roots odb c = (if ps = [] then {c} else \<Union>(roots odb ` set ps))"
  using assms(2) unfolding roots_def ancestors_unfold [OF assms(2)] by auto

lemma complete_parents:
  assumes "read_parent_oids odb c = Inr ps"
  shows "complete odb c \<longleftrightarrow> (\<forall>p \<in> set ps. complete odb p)"
  using assms unfolding complete_def ancestors_unfold [OF assms] by auto

lemma roots_nonempty:
  assumes "ranked odb rank" "complete odb c"
  shows "roots odb c \<noteq> {}"
  using assms(2)
proof (induction "rank c" arbitrary: c rule: less_induct)
  case less
  then obtain ps where ps: "read_parent_oids odb c = Inr ps" by (auto simp: complete_def ok_iff dest: bspec [of _ _ c])
  show ?case
  proof (cases ps)
    case Nil
    then show ?thesis using roots_parents [OF assms(1) ps] by simp
  next
    case (Cons p ps')
    then have "rank p < rank c" "complete odb p"
      using ps less.prems complete_parents [OF ps] by (auto intro: rankedD [OF assms(1)] simp: edge_def)
    then show ?thesis using less.hyps [of p] roots_parents [OF assms(1) ps] Cons by auto
  qed
qed

subsection \<open>Words\<close>

abbreviation w64 :: "nat \<Rightarrow> 64 word" where
  "w64 n \<equiv> word_of_nat n"

lemma unat_w64: "n < 2 ^ 64 \<Longrightarrow> unat (w64 n) = n"
  by (simp add: unat_of_nat take_bit_nat_eq_self)

lemma w64_le: "m < 2 ^ 64 \<Longrightarrow> n < 2 ^ 64 \<Longrightarrow> w64 m \<le> w64 n \<longleftrightarrow> m \<le> n"
  by (simp add: word_le_nat_alt unat_w64)

lemma w64_less: "m < 2 ^ 64 \<Longrightarrow> n < 2 ^ 64 \<Longrightarrow> w64 m < w64 n \<longleftrightarrow> m < n"
  by (simp add: word_less_nat_alt unat_w64)

lemma w64_diff: "m \<le> n \<Longrightarrow> w64 n - w64 m = w64 (n - m)"
  by (simp add: of_nat_diff)

lemma foldl_max_w64:
  "a < 2 ^ 64 \<Longrightarrow> (\<And>n. n \<in> set ns \<Longrightarrow> n < 2 ^ 64) \<Longrightarrow> foldl max (w64 a) (map w64 ns) = w64 (foldl max a ns)"
proof (induction ns arbitrary: a)
  case (Cons n ns)
  have "max (w64 a) (w64 n) = w64 (max a n)" using Cons.prems by (simp add: max_def w64_le)
  then show ?case using Cons by simp
qed simp

lemma foldl_max_Max: "foldl max (a :: nat) ns = Max (set (a # ns))"
proof (induction ns arbitrary: a)
  case (Cons n ns)
  have "Max (set (max a n # ns)) = Max (set (a # n # ns))"
    by (cases "ns = []") (simp_all add: max.assoc)
  then show ?case using Cons [of "max a n"] by simp
qed simp

lemma saturated_byte: "n < 2 ^ 64 \<Longrightarrow> ucast (min (w64 n) 127) = (word_of_nat (min n 127) :: 8 word)"
proof -
  assume n: "n < 2 ^ 64"
  have "min (w64 n) 127 = w64 (min n 127)"
    using w64_le [OF n, of 127] by (simp add: min_def)
  then show ?thesis by (simp add: word_eq_iff_unsigned unsigned_ucast_eq unsigned_of_nat take_bit_nat_eq_self min_def)
qed

subsection \<open>Root blobs\<close>

lemma chunks_concat:
  "0 < n \<Longrightarrow> (\<And>x. x \<in> set xs \<Longrightarrow> length x = n) \<Longrightarrow> chunks_exact n (concat xs) = xs"
proof (induction xs)
  case Nil
  then show ?case by (simp add: chunks_exact.simps)
next
  case (Cons x xs)
  then show ?case by (subst chunks_exact.simps) simp
qed

lemma length_concat_same: "(\<And>x. x \<in> set xs \<Longrightarrow> length x = n) \<Longrightarrow> length (concat xs) = n * length xs"
  by (induction xs) auto

lemma roots_blob_roundtrip:
  "(\<And>r. r \<in> set rs \<Longrightarrow> length r = 20) \<Longrightarrow> read_roots_blob (write_roots_blob rs) = Inr rs"
  using length_concat_same [of rs 20] chunks_concat [of 20 rs]
  by (simp add: read_roots_blob_def write_roots_blob_def)

subsection \<open>What the cache must hold\<close>

definition parents_of :: "'c odb \<Rightarrow> 'c \<Rightarrow> 'c list" where
  "parents_of odb c = (case read_parent_oids odb c of Inr ps \<Rightarrow> ps | Inl _ \<Rightarrow> [])"

text \<open>The distance to the farther of the first two parents, and whether that is the second.\<close>

definition jump :: "'c odb \<Rightarrow> 'c \<Rightarrow> nat \<times> bool" where
  "jump odb c =
    (case parents_of odb c of
       [] \<Rightarrow> (0, False)
     | [p] \<Rightarrow> (depth odb c - depth odb p, False)
     | p # q # _ \<Rightarrow>
        if depth odb q < depth odb p then (depth odb c - depth odb q, True) else (depth odb c - depth odb p, False))"

definition hint_of :: "'c odb \<Rightarrow> 'c \<Rightarrow> graph_hint" where
  "hint_of odb c =
    \<lparr> sequence_number = word_of_nat (depth odb c),
      parent_count = word_of_nat (min (length (parents_of odb c)) 255),
      jump_delta = word_of_nat (min (fst (jump odb c)) 127), jump_is_second = snd (jump odb c) \<rparr>"

definition roots_blob :: "oid odb \<Rightarrow> oid \<Rightarrow> 8 word list" where
  "roots_blob odb c = write_roots_blob (sorted_list_of_set (roots odb c))"

text \<open>
  A store of fewer than \<open>2^64\<close> objects whose ids have twenty bytes, whose commits are well formed, and
  whose commit graph is acyclic.
\<close>

definition sane :: "oid odb \<Rightarrow> bool" where
  "sane odb \<longleftrightarrow> length odb < 2 ^ 64 \<and> (\<forall>c \<in> universe odb. length c = 20) \<and>
    (\<forall>c s. (c, s) \<in> set odb \<longrightarrow> (\<forall>ps. s \<noteq> Malformed ps)) \<and> (\<exists>rank. ranked odb rank)"

definition cache_ok :: "oid odb \<Rightarrow> graph_cache \<Rightarrow> bool" where
  "cache_ok odb gc \<longleftrightarrow>
    (\<forall>c h b. try_read_cached_hint gc c = Some (h, b) \<longrightarrow>
      complete odb c \<and> h = hint_of odb c \<and> b = roots_blob odb c)"

lemma sane_depth: "sane odb \<Longrightarrow> depth odb c < 2 ^ 64"
  by (auto simp: sane_def dest: depth_bound [of odb _ c])

lemma sane_read: "sane odb \<Longrightarrow> read_parent_ids odb c = read_parent_oids odb c"
  by (auto simp: sane_def read_parent_ids.simps read_parent_oids.simps split: option.split stored.split dest!: map_of_SomeD)

lemma in_odb_universe: "set (in_odb odb) \<subseteq> universe odb"
  by (force simp: in_odb_def universe_def)

lemma roots_in_odb: "roots odb c \<subseteq> set (in_odb odb)"
  by (auto simp: roots_def intro: read_parent_oids_in_odb)

lemma finite_roots [simp]: "finite (roots odb c)"
  using finite_subset [OF roots_in_odb] by auto

lemma read_roots: "sane odb \<Longrightarrow> read_roots_blob (roots_blob odb c) = Inr (sorted_list_of_set (roots odb c))"
  unfolding roots_blob_def using roots_in_odb [of odb c] in_odb_universe [of odb]
  by (intro roots_blob_roundtrip) (auto simp: sane_def)

lemma roots_blob_inj: "sane odb \<Longrightarrow> roots_blob odb c = roots_blob odb d \<longleftrightarrow> roots odb c = roots odb d"
proof
  assume s: "sane odb" and "roots_blob odb c = roots_blob odb d"
  then have "sorted_list_of_set (roots odb c) = sorted_list_of_set (roots odb d)"
    using read_roots [OF s, of c] read_roots [OF s, of d] by simp
  then show "roots odb c = roots odb d" by (rule sorted_list_of_set_inject) simp_all
qed (simp add: roots_blob_def)

lemma hint_of_delta: "jump_delta (hint_of odb c) < 128"
  by (simp add: hint_of_def word_less_nat_alt unat_of_nat take_bit_nat_eq_self)

lemma stored_hint: "try_read_cached_hint (store_hint gc c (hint_of odb c, b)) d =
    (if d = c then Some (hint_of odb c, b) else try_read_cached_hint gc d)"
  by (simp add: try_read_cached_hint_def store_hint_def hint_roundtrip [OF hint_of_delta] split: option.split)

lemma mapR_read_roots:
  "sane odb \<Longrightarrow> mapR (\<lambda>(_, b). read_roots_blob b) (map (\<lambda>p. (s p, roots_blob odb p)) ps) =
    Inr (map (\<lambda>p. sorted_list_of_set (roots odb p)) ps)"
  by (induction ps) (simp_all add: read_roots)

text \<open>The facts of a commit follow from those of its parents, as the code derives them.\<close>

lemma derive_correct:
  assumes sane: "sane odb" and ps: "read_parent_oids odb c = Inr ps"
  shows "derive_from_parents c (map (\<lambda>p. (w64 (depth odb p), roots_blob odb p)) ps) = Inr (hint_of odb c, roots_blob odb c)"
proof -
  obtain rank where rank: "ranked odb rank" using sane by (auto simp: sane_def)
  note depth = depth_parents [OF rank ps] and rts = roots_parents [OF rank ps]
  have par: "parents_of odb c = ps" using ps by (simp add: parents_of_def)
  show ?thesis
  proof (cases ps)
    case Nil
    then show ?thesis
      using depth rts par by (simp add: derive_from_parents_def hint_of_def jump_def roots_blob_def)
  next
    case (Cons p0 qs)
    let ?d = "depth odb"
    have less: "?d p < ?d c" if "p \<in> set ps" for p
      using that ps by (intro depth_edge [OF rank]) (simp add: edge_def)
    have bound: "?d p < 2 ^ 64" for p by (rule sane_depth [OF sane])
    have "foldl max (w64 (?d p0)) (map fst (map (\<lambda>p. (w64 (?d p), roots_blob odb p)) qs)) + 1 = w64 (?d c)"
    proof -
      have "foldl max (w64 (?d p0)) (map w64 (map ?d qs)) = w64 (Max (set (?d p0 # map ?d qs)))"
        using bound by (subst foldl_max_w64) (auto simp: foldl_max_Max simp del: set_simps)
      then show ?thesis using depth Cons by (simp add: comp_def)
    qed
    moreover have "w64 (?d c) - w64 (?d p) = w64 (?d c - ?d p)" if "p \<in> set ps" for p
      using less [OF that] by (intro w64_diff) simp
    moreover have "w64 (?d c - ?d p) > w64 (?d c - ?d q) \<longleftrightarrow> ?d p < ?d q" if "p \<in> set ps" "q \<in> set ps" for p q
      using less that bound [of c] by (subst w64_less) (auto intro: diff_less_mono2 le_less_trans [OF diff_le_self])
    moreover have "ucast (min (w64 (?d c - ?d p)) 127) = (word_of_nat (min (?d c - ?d p) 127) :: 8 word)" for p
      using bound [of c] by (intro saturated_byte) (auto intro: le_less_trans [OF diff_le_self])
    ultimately have hint: "derive_from_parents c (map (\<lambda>p. (w64 (?d p), roots_blob odb p)) ps) =
      (if list_all (\<lambda>p. roots_blob odb p = roots_blob odb p0) ps then Inr (hint_of odb c, roots_blob odb p0)
       else Inr (hint_of odb c, write_roots_blob (sort (remdups (concat (map (\<lambda>p. sorted_list_of_set (roots odb p)) ps))))))"
      using mapR_read_roots [OF sane, of "\<lambda>p. w64 (?d p)" ps] Cons par
      by (cases qs) (auto simp: derive_from_parents_def Let_def hint_of_def jump_def list_all_iff)
    show ?thesis
    proof (cases "list_all (\<lambda>p. roots_blob odb p = roots_blob odb p0) ps")
      case True
      then have "\<Union>(roots odb ` set ps) = roots odb p0"
        using Cons by (auto simp: list_all_iff roots_blob_inj [OF sane])
      then have "roots_blob odb c = roots_blob odb p0" using rts Cons by (simp add: roots_blob_def)
      then show ?thesis using hint True by simp
    next
      case False
      have "set (concat (map (\<lambda>p. sorted_list_of_set (roots odb p)) ps)) = roots odb c"
        using rts Cons by auto
      then have "sorted_list_of_set (roots odb c) =
          sort (remdups (concat (map (\<lambda>p. sorted_list_of_set (roots odb p)) ps)))"
        by (metis sorted_list_of_set_sort_remdups)
      then show ?thesis using hint False by (simp add: roots_blob_def)
    qed
  qed
qed

subsection \<open>The walk fills the cache\<close>

lemma fully_known_iff: "fully_known gc c \<longleftrightarrow> try_read_cached_hint gc c \<noteq> None"
  by (auto simp: fully_known_def try_read_cached_hint_def split: option.split)

lemma known_cases:
  "cache_ok odb gc \<Longrightarrow> fully_known gc c \<Longrightarrow>
    try_read_cached_hint gc c = Some (hint_of odb c, roots_blob odb c) \<and> complete odb c"
  by (cases "try_read_cached_hint gc c") (auto simp: fully_known_iff cache_ok_def)

lemma cached_parents_correct:
  assumes "cache_ok odb gc"
  shows "cached_parents gc ps =
    (if \<forall>p \<in> set ps. fully_known gc p then Some (map (\<lambda>p. (w64 (depth odb p), roots_blob odb p)) ps) else None)"
proof (induction ps)
  case (Cons p ps)
  show ?case
  proof (cases "fully_known gc p")
    case True
    then show ?thesis using known_cases [OF assms True] Cons by (simp add: hint_of_def)
  next
    case False
    then have "try_read_cached_hint gc p = None" by (cases "try_read_cached_hint gc p") (auto simp: fully_known_iff)
    then show ?thesis using False by simp
  qed
qed simp

definition grows :: "graph_cache \<Rightarrow> graph_cache \<Rightarrow> bool" where
  "grows gc gc' \<longleftrightarrow> (\<forall>c. fully_known gc c \<longrightarrow> fully_known gc' c)"

lemma store_correct:
  assumes "sane odb" "cache_ok odb gc" "read_parent_oids odb c = Inr ps" "\<forall>p \<in> set ps. fully_known gc p"
  defines "gc' \<equiv> store_hint gc c (hint_of odb c, roots_blob odb c)"
  shows "cache_ok odb gc'" "fully_known gc' c" "grows gc gc'"
proof -
  have "complete odb c"
    using complete_parents [OF assms(3)] assms(4) known_cases [OF assms(2)] by blast
  then show "cache_ok odb gc'" using assms(2) by (auto simp: cache_ok_def gc'_def stored_hint)
  show "fully_known gc' c" "grows gc gc'" by (auto simp: gc'_def fully_known_iff stored_hint grows_def)
qed

lemma derive_and_store_correct:
  assumes "sane odb" "cache_ok odb gc" "read_parent_oids odb c = Inr ps" "\<forall>p \<in> set ps. fully_known gc p"
  shows "derive_and_store odb gc c = (Inr (), store_hint gc c (hint_of odb c, roots_blob odb c))"
  using assms derive_correct [OF assms(1,3)]
  by (simp add: derive_and_store_def sane_read cached_parents_correct)

lemma derive_all_append:
  "derive_all odb gc (xs @ ys) =
    (case derive_all odb gc xs of (Inl e, gc') \<Rightarrow> (Inl e, gc') | (Inr _, gc') \<Rightarrow> derive_all odb gc' ys)"
  by (induction xs arbitrary: gc) (auto split: prod.split sum.split)

lemma derive_all_correct:
  assumes "sane odb" "cache_ok odb gc" "\<forall>c \<in> set out. ok (read_parent_oids odb c)"
    and "parents_first (edge odb) (fully_known gc) out"
  shows "\<exists>gc'. derive_all odb gc (rev out) = (Inr (), gc') \<and> cache_ok odb gc' \<and> grows gc gc' \<and>
    (\<forall>c \<in> set out. fully_known gc' c)"
  using assms(3,4)
proof (induction out)
  case Nil
  then show ?case using assms(2) by (simp add: grows_def)
next
  case (Cons c cs)
  then obtain gc1 where gc1: "derive_all odb gc (rev cs) = (Inr (), gc1)" "cache_ok odb gc1" "grows gc gc1"
    "\<forall>d \<in> set cs. fully_known gc1 d" by auto
  from Cons.prems obtain ps where ps: "read_parent_oids odb c = Inr ps" by (auto simp: ok_iff)
  then have "\<forall>p \<in> set ps. fully_known gc1 p"
    using Cons.prems(2) gc1(3,4) by (auto simp: edge_def grows_def)
  note step = derive_and_store_correct [OF assms(1) gc1(2) ps this] store_correct [OF assms(1) gc1(2) ps this]
  show ?case
    using gc1 step by (auto simp: derive_all_append grows_def)
qed

lemma steps_to_unpruned: "\<not> prune c \<Longrightarrow> steps_to odb False prune c p \<longleftrightarrow> edge odb c p"
  by (simp add: steps_to_def edge_def)

lemma parents_first_edges:
  "parents_first (steps_to odb False prune) prune out \<Longrightarrow> \<forall>c \<in> set out. \<not> prune c \<Longrightarrow>
    parents_first (edge odb) prune out"
  by (induction out) (auto simp: steps_to_unpruned)

lemma reached_ancestors: "reached odb fp prune {t} \<subseteq> ancestors odb t"
  by (rule reached_least) (auto intro: ancestors_edge dest: steps_to_edge)

lemma walk_and_store_correct:
  assumes sane: "sane odb" and gc: "cache_ok odb gc" and c: "ok (read_parent_oids odb c)" "\<not> fully_known gc c"
  shows "case walk_and_store odb c gc of
      (Inr hb, gc') \<Rightarrow> hb = (hint_of odb c, roots_blob odb c) \<and> complete odb c \<and> cache_ok odb gc'
    | (Inl e, gc') \<Rightarrow> \<not> complete odb c \<and> cache_ok odb gc'"
proof -
  let ?w = "new_walk\<lparr> tips := [c] \<rparr>"
  obtain rank where rank: "ranked odb rank" using sane by (auto simp: sane_def)
  have push: "push odb new_walk c = Inr ?w"
    using c(1) by (auto simp: push_def new_walk_def ensure_commit.simps read_parent_oids.simps
        split: option.splits stored.splits)
  show ?thesis
  proof (cases "into_topo_vec odb ?w (fully_known gc)")
    case (Inl e)
    then have "\<exists>d \<in> reached odb False (fully_known gc) {c}. \<not> ok (read_parent_oids odb d)"
      using into_topo_vec_correct [OF rank, of ?w "fully_known gc"] by (auto simp: new_walk_def)
    then have "\<not> complete odb c" using reached_ancestors by (fastforce simp: complete_def)
    then show ?thesis using Inl gc by (simp add: walk_and_store_def push)
  next
    case (Inr out)
    have spec: "\<forall>d \<in> set out. ok (read_parent_oids odb d)"
      "set out = {d \<in> reached odb False (fully_known gc) {c}. \<not> fully_known gc d}"
      "parents_first (steps_to odb False (fully_known gc)) (fully_known gc) out"
      using into_topo_vec_correct [OF rank, of ?w "fully_known gc"] Inr by (simp_all add: new_walk_def)
    have "parents_first (edge odb) (fully_known gc) out" using spec(2,3) by (intro parents_first_edges) auto
    from derive_all_correct [OF sane gc spec(1) this] obtain gc' where
      gc': "derive_all odb gc (rev out) = (Inr (), gc')" "cache_ok odb gc'" "\<forall>d \<in> set out. fully_known gc' d" by blast
    have "c \<in> set out" using spec(2) c(2) reached_tip by fastforce
    then show ?thesis
      using gc' known_cases [OF gc'(2), of c] Inr by (simp add: walk_and_store_def push)
  qed
qed

lemma ensure_correct:
  assumes sane: "sane odb" and gc: "cache_ok odb gc"
  shows "case ensure_hint_cached odb c gc of
      (Inr hb, gc') \<Rightarrow> hb = (hint_of odb c, roots_blob odb c) \<and> complete odb c \<and> cache_ok odb gc'
    | (Inl e, gc') \<Rightarrow> \<not> complete odb c \<and> cache_ok odb gc'"
proof (cases "fully_known gc c")
  case True
  then show ?thesis using known_cases [OF gc True] gc by (simp add: ensure_hint_cached_def)
next
  case False
  then have unknown: "try_read_cached_hint gc c = None"
    by (cases "try_read_cached_hint gc c") (auto simp: fully_known_iff)
  show ?thesis
  proof (cases "read_parent_oids odb c")
    case (Inl e)
    then have "\<not> complete odb c" by (auto simp: complete_def intro!: bexI [of _ c])
    then show ?thesis using gc unknown Inl by (simp add: ensure_hint_cached_def sane_read [OF sane])
  next
    case (Inr ps)
    then have "map_of odb c \<noteq> None" by (auto simp: read_parent_oids.simps split: option.splits)
    show ?thesis
    proof (cases "\<forall>p \<in> set ps. fully_known gc p")
      case True
      then show ?thesis
        using unknown Inr store_correct [OF sane gc Inr True] derive_correct [OF sane Inr]
          known_cases [OF gc] complete_parents [OF Inr] \<open>map_of odb c \<noteq> None\<close>
        by (auto simp: ensure_hint_cached_def sane_read [OF sane] cached_parents_correct [OF gc])
    next
      case missing: False
      then show ?thesis
        using unknown Inr walk_and_store_correct [OF sane gc _ False] \<open>map_of odb c \<noteq> None\<close>
        by (auto simp: ensure_hint_cached_def sane_read [OF sane] cached_parents_correct [OF gc] split: if_splits)
    qed
  qed
qed

end
