(* ===== verification/History_Query.thy ===== *)
theory History_Query
  imports History_Spec
begin

text \<open>
  What the history graph promises its callers: the answers of the cached queries, the spacing of the
  sample points that bound the walks over filtered histories, and the exactness of the range walk with
  josh's own sequence numbers. The queries of \<^verbatim>\<open>is_ancestor_of\<close>
  (\<^verbatim>\<open>josh-core/src/filter/mod.rs\<close>) are here too.
\<close>

text \<open>
  C30. The history graph cache, on a sane object store. If every cached entry is right, then asking for
  a commit leaves every cached entry right; it succeeds exactly if the whole history of the commit is
  readable; and the answer is the commit's sequence number, which is the length of the longest chain of
  parents below it, together with its parent count, its jump, and the sorted list of all root commits
  it reaches.
\<close>

theorem ensure_hint_cached_correct:
  assumes "sane odb" "cache_ok odb gc"
  shows "case ensure_hint_cached odb c gc of (r, gc') \<Rightarrow>
    cache_ok odb gc' \<and>
    (case r of
       Inr (h, b) \<Rightarrow> complete odb c \<and> h = hint_of odb c \<and> read_roots_blob b = Inr (sorted_list_of_set (roots odb c))
     | Inl e \<Rightarrow> \<not> complete odb c)"
  using ensure_correct [OF assms, of c] read_roots [OF assms(1), of c]
  by (auto split: prod.splits sum.splits)

subsection \<open>Common roots\<close>

lemma parent_blobs_correct:
  assumes "sane odb" "cache_ok odb gc"
  shows "case parent_blobs odb gc ps of (r, gc') \<Rightarrow>
    cache_ok odb gc' \<and>
    (case r of
       Inr bs \<Rightarrow> (\<forall>p \<in> set ps. complete odb p) \<and> bs = map (roots_blob odb) ps
     | Inl e \<Rightarrow> \<exists>p \<in> set ps. \<not> complete odb p)"
  using assms(2)
proof (induction ps arbitrary: gc)
  case (Cons p ps)
  obtain r gc' where run: "ensure_hint_cached odb p gc = (r, gc')" by fastforce
  note ok = ensure_correct [OF assms(1) Cons.prems, of p, unfolded run]
  show ?case
  proof (cases r)
    case (Inl e)
    then show ?thesis using run ok by simp
  next
    case (Inr hb)
    then have "cache_ok odb gc'" using ok by simp
    from Cons.IH [OF this] show ?thesis using run ok Inr by (auto split: prod.splits sum.splits)
  qed
qed simp

lemma intersect_roots_correct:
  assumes "sane odb"
  shows "intersect_roots C (map (roots_blob odb) ps) = Inr (C \<inter> (\<Inter>p \<in> set ps. roots odb p) \<noteq> {})"
proof (induction ps arbitrary: C)
  case (Cons p ps)
  show ?case
  proof (cases "C = {}")
    case False
    then show ?thesis using Cons [of "C \<inter> roots odb p"] by (simp add: read_roots [OF assms] Int_assoc)
  qed simp
qed simp

lemma common_root_iff:
  assumes "sane odb" "ps \<noteq> []" "\<forall>p \<in> set ps. complete odb p"
  shows "(\<Inter>p \<in> set ps. roots odb p) \<noteq> {} \<longleftrightarrow> (\<exists>a. \<forall>p \<in> set ps. a \<in> ancestors odb p)"
proof
  assume "(\<Inter>p \<in> set ps. roots odb p) \<noteq> {}"
  then show "\<exists>a. \<forall>p \<in> set ps. a \<in> ancestors odb p" by (auto simp: roots_def)
next
  assume "\<exists>a. \<forall>p \<in> set ps. a \<in> ancestors odb p"
  then obtain a where a: "\<forall>p \<in> set ps. a \<in> ancestors odb p" ..
  obtain rank where rank: "ranked odb rank" using assms(1) by (auto simp: sane_def)
  have "complete odb a"
    using a assms(2,3) by (cases ps) (auto simp: complete_def intro: ancestors_trans)
  from roots_nonempty [OF rank this] obtain r where "r \<in> roots odb a" by auto
  then have "\<forall>p \<in> set ps. r \<in> roots odb p" using a by (auto simp: roots_def intro: ancestors_trans)
  then show "(\<Inter>p \<in> set ps. roots odb p) \<noteq> {}" by auto
qed

lemma share_root_step:
  assumes "sane odb" "cache_ok odb gc" "\<forall>p \<in> set ps. complete odb p" "ps \<noteq> []" "zero_sha1 \<notin> set ps"
  shows "\<exists>gc'. parents_share_root odb ps gc = (Inr ((\<Inter>p \<in> set ps. roots odb p) \<noteq> {}), gc') \<and> cache_ok odb gc'"
proof -
  obtain p qs where ps: "ps = p # qs" using assms(4) by (cases ps) auto
  obtain gc' where run: "parent_blobs odb gc ps = (Inr (map (roots_blob odb) ps), gc')" and gc': "cache_ok odb gc'"
    using parent_blobs_correct [OF assms(1,2), of ps] assms(3) by (fastforce split: prod.splits sum.splits)
  show ?thesis
  proof (cases "list_all (\<lambda>q. roots odb q = roots odb p) ps")
    case same: True
    then have "(\<Inter>q \<in> set ps. roots odb q) = roots odb p" using ps by (auto simp: list_all_iff)
    moreover have "roots odb p \<noteq> {}" using assms(1,3) ps by (auto simp: sane_def dest: roots_nonempty)
    ultimately show ?thesis
      using assms(5) run gc' same ps by (auto simp: parents_share_root_def list_all_iff roots_blob_inj [OF assms(1)])
  next
    case differ: False
    then show ?thesis
      using assms(5) run gc' ps intersect_roots_correct [OF assms(1), of "roots odb p" qs]
      by (auto simp: parents_share_root_def list_all_iff roots_blob_inj [OF assms(1)] read_roots [OF assms(1)])
  qed
qed

text \<open>
  C31. \<^verbatim>\<open>parents_share_root\<close> on commits with readable histories answers whether the commits have a
  common ancestor; it never reads a commit of the histories for that beyond filling the cache. On an
  empty list, and on a list with the zero id, it answers no.
\<close>

theorem parents_share_root_correct:
  assumes "sane odb" "cache_ok odb gc" "\<forall>p \<in> set ps. complete odb p"
  shows "fst (parents_share_root odb ps gc) =
    Inr (ps \<noteq> [] \<and> zero_sha1 \<notin> set ps \<and> (\<exists>a. \<forall>p \<in> set ps. a \<in> ancestors odb p))"
proof (cases "ps = [] \<or> zero_sha1 \<in> set ps")
  case False
  then show ?thesis using share_root_step [OF assms] common_root_iff [OF assms(1) _ assms(3)] by auto
qed (auto simp: parents_share_root_def)

subsection \<open>Sample points\<close>

lemma depth_same_block:
  assumes "\<not> (s - d) div 100 < s div (100 :: nat)" "d' \<le> d"
  shows "(s - d') div 100 = s div 100"
proof -
  have "(s - d) div 100 \<le> (s - d') div 100" "(s - d') div 100 \<le> s div 100"
    using assms(2) by (auto intro: div_le_mono)
  then show ?thesis using assms(1) by simp
qed

lemma byte_eq: "m < 256 \<Longrightarrow> n < 256 \<Longrightarrow> (word_of_nat m :: 8 word) = word_of_nat n \<longleftrightarrow> m = n"
proof -
  assume "m < 256" "n < 256"
  then have "unat (word_of_nat m :: 8 word) = m" "unat (word_of_nat n :: 8 word) = n"
    by (simp_all add: unat_of_nat take_bit_nat_eq_self)
  then show ?thesis by metis
qed

lemma w64_div: "m < 2 ^ 64 \<Longrightarrow> unat (w64 m div SAMPLE_INTERVAL) = m div 100"
  by (simp add: SAMPLE_INTERVAL_def unat_div unat_w64)

lemma saturating_sub_w64:
  assumes "s < 2 ^ 64" "d < 128"
  shows "saturating_sub (w64 s) (ucast (word_of_nat d :: 8 word)) = w64 (s - d)"
proof -
  have d: "ucast (word_of_nat d :: 8 word) = w64 d"
    using assms(2) by (simp add: word_eq_iff_unsigned unsigned_ucast_eq unsigned_of_nat take_bit_nat_eq_self)
  have "d < 2 ^ 64" using assms(2) by simp
  then have le: "w64 d \<le> w64 s \<longleftrightarrow> d \<le> s" using assms(1) by (rule w64_le)
  show ?thesis
  proof (cases "d \<le> s")
    case True
    then show ?thesis using le d w64_diff [OF True] by (simp only: saturating_sub_def if_True)
  next
    case False
    then show ?thesis using le d by (simp only: saturating_sub_def if_False) simp
  qed
qed

lemma is_sample_iff:
  fixes c
  assumes "sane odb"
  defines "n \<equiv> min (length (parents_of odb c)) 255"
  shows "is_sample_point (hint_of odb c) \<longleftrightarrow>
    depth odb c mod 100 = 0 \<or>
    (n \<noteq> 1 \<and> (n = 2 \<longrightarrow> (depth odb c - min (fst (jump odb c)) 127) div 100 < depth odb c div 100))"
proof -
  have s: "depth odb c < 2 ^ 64" by (rule sane_depth [OF assms(1)])
  have "n < 256" by (simp add: n_def)
  then have count: "parent_count (hint_of odb c) = 1 \<longleftrightarrow> n = 1" "parent_count (hint_of odb c) = 2 \<longleftrightarrow> n = 2"
    using byte_eq [of n 1] byte_eq [of n 2] by (simp_all add: hint_of_def n_def)
  have "unat (w64 (depth odb c) mod SAMPLE_INTERVAL) = depth odb c mod 100"
    using s by (simp add: SAMPLE_INTERVAL_def unat_mod unat_w64)
  then have seq: "sequence_number (hint_of odb c) mod SAMPLE_INTERVAL = 0 \<longleftrightarrow> depth odb c mod 100 = 0"
    by (simp add: hint_of_def unat_eq_zero [symmetric] del: unat_eq_zero)
  have "depth odb c - min (fst (jump odb c)) 127 < 2 ^ 64" using s by (auto intro: le_less_trans [OF diff_le_self])
  then have "crosses_sample_boundary (sequence_number (hint_of odb c)) (jump_delta (hint_of odb c)) \<longleftrightarrow>
      (depth odb c - min (fst (jump odb c)) 127) div 100 < depth odb c div 100"
    using s by (simp add: crosses_sample_boundary_def hint_of_def saturating_sub_w64 word_less_nat_alt w64_div)
  then show ?thesis using count seq by (auto simp: is_sample_point_def)
qed

lemma mod_same_block: "Suc m mod 100 \<noteq> 0 \<Longrightarrow> m div 100 = Suc m div (100 :: nat)"
  by (simp add: div_Suc)

text \<open>Between sample points a step to a parent stays in the same block of one hundred numbers.\<close>

lemma step_in_block:
  assumes sane: "sane odb" and c: "\<not> is_sample_point (hint_of odb c)" and e: "edge odb c p"
  shows "depth odb p div 100 = depth odb c div 100"
proof -
  let ?d = "depth odb"
  obtain rank where rank: "ranked odb rank" using sane by (auto simp: sane_def)
  obtain ps where ps: "read_parent_oids odb c = Inr ps" "p \<in> set ps" using e by (auto simp: edge_def)
  then have par: "parents_of odb c = ps" by (simp add: parents_of_def)
  note not = c [unfolded is_sample_iff [OF sane] par]
  then have mod: "?d c mod 100 \<noteq> 0" and n: "min (length ps) 255 = 1 \<or> min (length ps) 255 = 2" by auto
  note depth = depth_parents [OF rank ps(1)]
  from n consider "length ps = 1" | "length ps = 2" by (auto simp: min_def split: if_splits)
  then show ?thesis
  proof cases
    case 1
    then have "ps = [p]" using ps(2) by (cases ps) auto
    then show ?thesis using depth mod mod_same_block [of "?d p"] by simp
  next
    case 2
    then obtain a b where ab: "ps = [a, b]" by (auto simp: numeral_2_eq_2 length_Suc_conv)
    then have dc: "?d c = Suc (max (?d a) (?d b))" using depth by simp
    let ?j = "fst (jump odb c)"
    have j: "?j = ?d c - min (?d a) (?d b)" using par ab by (simp add: jump_def min_def)
    have stay: "\<not> (?d c - min ?j 127) div 100 < ?d c div 100" using not 2 by auto
    have "?j \<le> 127"
    proof (rule ccontr)
      assume "\<not> ?j \<le> 127"
      then have "127 \<le> ?d c" "min ?j 127 = 127" using j by simp_all
      then have "((?d c - 127) + 100) div 100 \<le> ?d c div 100" by (intro div_le_mono) simp
      then have "(?d c - 127) div 100 < ?d c div 100" by simp
      then show False using stay \<open>min ?j 127 = 127\<close> by simp
    qed
    moreover have "?d c - ?d p \<le> ?j" "?d p \<le> ?d c" using j ps(2) ab dc by (auto simp: min_def max_def)
    ultimately show ?thesis using depth_same_block [of "?d c" ?j "?d c - ?d p"] stay by simp
  qed
qed

lemma walk_in_block:
  assumes "sane odb" "successively (edge odb) (c # cs)" "\<forall>d \<in> set (c # cs). \<not> is_sample_point (hint_of odb d)"
  shows "depth odb (last (c # cs)) + length cs \<le> depth odb c \<and>
    depth odb (last (c # cs)) div 100 = depth odb c div 100"
  using assms(2,3)
proof (induction cs arbitrary: c)
  case (Cons d cs)
  obtain rank where "ranked odb rank" using assms(1) by (auto simp: sane_def)
  then have "depth odb d < depth odb c" using Cons.prems(1) by (intro depth_edge) simp_all
  moreover have "depth odb d div 100 = depth odb c div 100"
    using Cons.prems by (intro step_in_block [OF assms(1)]) simp_all
  ultimately show ?case using Cons by fastforce
qed simp

text \<open>
  C32. Every walk to parents meets a sample point within a hundred commits, however it branches at
  merges, although the stored jump saturates at 127 and a merge with more than two parents is not
  measured: among any hundred successive commits of a walk on a sane store, one has a hint that
  \<^verbatim>\<open>is_sample_point\<close> accepts.
\<close>

theorem sample_point_within_interval:
  assumes "sane odb" "length cs = 100" "successively (edge odb) cs"
  shows "\<exists>c \<in> set cs. is_sample_point (hint_of odb c)"
proof (rule ccontr)
  assume none: "\<not> ?thesis"
  obtain c ds where cs: "cs = c # ds" "length ds = 99" using assms(2) by (cases cs) auto
  have "depth odb (last cs) + 99 \<le> depth odb c" "depth odb (last cs) div 100 = depth odb c div 100"
    using walk_in_block [OF assms(1), of c ds] assms(3) none cs by auto
  then have "depth odb (last cs) mod 100 = 0"
    using mult_div_mod_eq [of 100 "depth odb (last cs)"] mult_div_mod_eq [of 100 "depth odb c"]
      mod_less_divisor [of 100 "depth odb c"] by linarith
  then have "is_sample_point (hint_of odb (last cs))" by (simp add: is_sample_iff [OF assms(1)])
  then show False using none cs by (metis last_in_set list.distinct(1))
qed

subsection \<open>Ancestor queries\<close>

text \<open>The loop of \<^verbatim>\<open>is_ancestor_of\<close>: everything in the work list is also in the set.\<close>

fun add_ancestor :: "'c set \<times> 'c list \<Rightarrow> 'c \<Rightarrow> 'c set \<times> 'c list" where
  "add_ancestor (anc, todo) p = (if p \<in> anc then (anc, todo) else (insert p anc, p # todo))"

lemma add_ancestors:
  "foldl add_ancestor (anc, todo) ps = (anc', todo') \<Longrightarrow>
    anc' = anc \<union> set ps \<and> set todo' = set todo \<union> (set ps - anc)"
  by (induction ps arbitrary: anc todo) (auto split: if_splits)

lemma read_parent_ids_universe: "read_parent_ids odb c = Inr ps \<Longrightarrow> set ps \<subseteq> universe odb"
  by (force simp: read_parent_ids.simps universe_def split: option.splits stored.splits dest!: map_of_SomeD)

lemma add_ancestors_measure:
  "foldl add_ancestor (anc, todo) ps = (anc', todo') \<Longrightarrow> set ps \<subseteq> universe odb \<Longrightarrow>
    2 * card (universe odb - anc') + length todo' \<le> 2 * card (universe odb - anc) + length todo"
proof (induction ps arbitrary: anc todo)
  case (Cons p ps)
  show ?case
  proof (cases "p \<in> anc")
    case False
    then show ?thesis
      using Cons.prems Cons.IH [of "insert p anc" "p # todo"] card_universe_insert [of p odb anc] by simp
  qed (use Cons in simp)
qed simp

function ancestors_loop :: "'c odb \<Rightarrow> 'c set \<times> 'c list \<Rightarrow> 'c set result" where
  "ancestors_loop odb st =
    (case snd st of
       [] \<Rightarrow> Inr (fst st)
     | c # todo \<Rightarrow>
         bindR (read_parent_ids odb c) (\<lambda>ps. ancestors_loop odb (foldl add_ancestor (fst st, todo) ps)))"
  by pat_completeness auto

termination
proof (relation "measure (\<lambda>(odb, anc, todo). 2 * card (universe odb - anc) + length todo)", simp)
  fix odb :: "'c odb" and st :: "'c set \<times> 'c list" and c todo ps
  assume st: "snd st = c # todo" and ps: "read_parent_ids odb c = Inr ps"
  obtain anc' todo' where run: "foldl add_ancestor (fst st, todo) ps = (anc', todo')" by fastforce
  show "((odb, foldl add_ancestor (fst st, todo) ps), odb, st)
    \<in> measure (\<lambda>(odb, anc, todo). 2 * card (universe odb - anc) + length todo)"
    using add_ancestors_measure [OF run read_parent_ids_universe [OF ps]] run st by (cases st) simp
qed

declare ancestors_loop.simps [simp del]

definition is_ancestor_of :: "oid odb \<Rightarrow> oid \<Rightarrow> oid \<Rightarrow> graph_cache \<Rightarrow> bool result \<times> graph_cache" where
  "is_ancestor_of odb commit tip gc =
    (let search = bindR (ancestors_loop odb ({tip}, [tip])) (\<lambda>anc. Inr (commit \<in> anc)) in
     case compute_sequence_number odb tip gc of
       (Inl _, gc') \<Rightarrow> (search, gc')
     | (Inr tip_sequence_number, gc') \<Rightarrow>
        (case compute_sequence_number odb commit gc' of
           (Inl e, gc'') \<Rightarrow> (Inl e, gc'')
         | (Inr n, gc'') \<Rightarrow> if n > tip_sequence_number then (Inr False, gc'') else (search, gc'')))"

lemma ancestors_loop_correct:
  assumes "sane odb" "complete odb tip" "anc \<subseteq> ancestors odb tip" "tip \<in> anc" "set todo \<subseteq> anc"
    and "\<forall>c p. c \<in> anc - set todo \<and> edge odb c p \<longrightarrow> p \<in> anc"
  shows "ancestors_loop odb (anc, todo) = Inr (ancestors odb tip)"
  using assms
proof (induction odb "(anc, todo)" arbitrary: anc todo rule: ancestors_loop.induct)
  case (1 odb anc todo)
  show ?case
  proof (cases todo)
    case Nil
    have "ancestors odb tip \<subseteq> anc"
    proof
      fix c assume "c \<in> ancestors odb tip"
      then have "(edge odb)\<^sup>*\<^sup>* tip c" by (simp add: ancestors_def)
      then show "c \<in> anc"
      proof (induction rule: rtranclp_induct)
        case base
        show ?case by (rule 1(5))
      next
        case (step y z)
        then show ?case using 1(7) Nil by simp
      qed
    qed
    with 1(4) have "anc = ancestors odb tip" by blast
    then show ?thesis using Nil by (simp add: ancestors_loop.simps)
  next
    case (Cons c rest)
    then have c: "c \<in> anc" "c \<in> ancestors odb tip" using 1(4,6) by auto
    then obtain ps where ps: "read_parent_oids odb c = Inr ps" using 1(3) by (auto simp: complete_def ok_iff)
    then have rd: "read_parent_ids odb c = Inr ps" by (simp add: sane_read [OF 1(2)])
    obtain anc' todo' where run: "foldl add_ancestor (anc, rest) ps = (anc', todo')" by fastforce
    have e: "edge odb c p \<longleftrightarrow> p \<in> set ps" for p using ps by (simp add: edge_def)
    have "ancestors_loop odb (anc', todo') = Inr (ancestors odb tip)"
    proof (rule 1(1) [of c rest ps])
      show "\<forall>d p. d \<in> anc' - set todo' \<and> edge odb d p \<longrightarrow> p \<in> anc'"
        using 1(7) add_ancestors [OF run] Cons e by auto
      show "anc' \<subseteq> ancestors odb tip" using add_ancestors [OF run] 1(4) c e by (auto intro: ancestors_edge)
    qed (use 1(2,3,5,6) Cons rd run add_ancestors [OF run] in auto)
    then show ?thesis using Cons rd run by (subst ancestors_loop.simps) simp
  qed
qed

lemma compute_sequence_number_correct:
  assumes "sane odb" "cache_ok odb gc"
  shows "case compute_sequence_number odb c gc of (r, gc') \<Rightarrow>
    cache_ok odb gc' \<and> (case r of Inr n \<Rightarrow> complete odb c \<and> n = w64 (depth odb c) | Inl e \<Rightarrow> \<not> complete odb c)"
  using ensure_correct [OF assms, of c]
  by (auto simp: compute_sequence_number_def hint_of_def split: prod.splits sum.splits)

text \<open>
  C33. \<^verbatim>\<open>is_ancestor_of\<close> on commits with readable histories answers whether the commit is reachable from
  the tip by parents; the shortcut by sequence numbers never changes the answer.
\<close>

theorem is_ancestor_of_correct:
  assumes "sane odb" "cache_ok odb gc" "complete odb tip" "complete odb commit"
  shows "fst (is_ancestor_of odb commit tip gc) = Inr (commit \<in> ancestors odb tip)"
proof -
  obtain rank where rank: "ranked odb rank" using assms(1) by (auto simp: sane_def)
  have search: "ancestors_loop odb ({tip}, [tip]) = Inr (ancestors odb tip)"
    using assms(1,3) by (intro ancestors_loop_correct) auto
  obtain gc' where t: "compute_sequence_number odb tip gc = (Inr (w64 (depth odb tip)), gc')" "cache_ok odb gc'"
    using compute_sequence_number_correct [OF assms(1,2), of tip] assms(3) by (fastforce split: prod.splits sum.splits)
  obtain gc'' where c: "compute_sequence_number odb commit gc' = (Inr (w64 (depth odb commit)), gc'')"
    using compute_sequence_number_correct [OF assms(1) t(2), of commit] assms(4) by (fastforce split: prod.splits sum.splits)
  have "ranked odb (depth odb)" using depth_edge [OF rank] by (simp add: ranked_def)
  then have "commit \<notin> ancestors odb tip" if "depth odb tip < depth odb commit"
    using ancestors_rank [of odb "depth odb" commit tip] that by auto
  then show ?thesis
    using t(1) c search w64_less [OF sane_depth [OF assms(1), of tip] sane_depth [OF assms(1), of commit]]
    by (simp add: is_ancestor_of_def)
qed

subsection \<open>Ranges by josh's own sequence numbers\<close>

text \<open>The lookup \<^verbatim>\<open>unapply_filter\<close> gives the range walk.\<close>

definition josh_sequence :: "oid odb \<Rightarrow> graph_cache \<Rightarrow> oid \<Rightarrow> nat result" where
  "josh_sequence odb gc c = bindR (fst (compute_sequence_number odb c gc)) (\<lambda>n. Inr (unat n))"

lemma complete_ancestor: "complete odb t \<Longrightarrow> c \<in> ancestors odb t \<Longrightarrow> complete odb c"
  by (auto simp: complete_def intro: ancestors_trans)

lemma josh_range:
  assumes "sane odb" "cache_ok odb gc" "complete odb tip" "complete odb base"
  shows "\<exists>out. range_topo_vec odb (josh_sequence odb gc) tip base = Inr out \<and> distinct out \<and>
    set out = ancestors odb tip - ancestors odb base \<and>
    parents_first (edge odb) (\<lambda>c. c \<in> ancestors odb base) out"
proof -
  obtain rank where rank: "ranked odb rank" using assms(1) by (auto simp: sane_def)
  have ranked: "ranked odb (depth odb)" using depth_edge [OF rank] by (simp add: ranked_def)
  have seq: "josh_sequence odb gc c = (if complete odb c then Inr (depth odb c) else josh_sequence odb gc c)" for c
    using compute_sequence_number_correct [OF assms(1,2), of c] unat_w64 [OF sane_depth [OF assms(1), of c]]
    by (auto simp: josh_sequence_def split: prod.splits sum.splits)
  have sound: "sound_seq (josh_sequence odb gc) (depth odb)"
    unfolding sound_seq_def
  proof (intro allI impI)
    fix c n assume "josh_sequence odb gc c = Inr n"
    then show "n = depth odb c"
      using compute_sequence_number_correct [OF assms(1,2), of c] unat_w64 [OF sane_depth [OF assms(1), of c]]
      by (auto simp: josh_sequence_def bindR_Inr_iff split: prod.splits sum.splits)
  qed
  have readable: "\<not> unreadable odb (josh_sequence odb gc) c" if "c \<in> ancestors odb tip \<union> ancestors odb base" for c
    using that assms(3,4) seq [of c] complete_ancestor [of odb _ c]
    by (auto simp: unreadable_def complete_def [of odb c])
  have commit: "ok (ensure_commit odb c)" if "complete odb c" for c
    using that by (auto simp: complete_def ok_iff ensure_commit.simps read_parent_oids.simps
        split: option.splits stored.splits dest!: bspec [of _ _ c])
  show ?thesis
    using range_topo_vec_exact [OF ranked sound, of tip base] readable commit [OF assms(3)] commit [OF assms(4)]
    by (auto split: sum.splits)
qed

text \<open>
  C34. The range walk with josh's sequence numbers, between commits with readable histories on a sane
  store with a right cache, always returns, and returns exactly the commits reachable from the tip and
  not from the base, each once and before its parents.
\<close>

theorem josh_range_exact:
  assumes "sane odb" "cache_ok odb gc" "complete odb tip" "complete odb base"
  shows "\<exists>out. range_topo_vec odb (josh_sequence odb gc) tip base = Inr out \<and> distinct out \<and>
    set out = ancestors odb tip - ancestors odb base \<and>
    parents_first (edge odb) (\<lambda>c. c \<in> ancestors odb base) out"
  by (rule josh_range [OF assms])

subsection \<open>A concrete history\<close>

definition nth_oid :: "nat \<Rightarrow> oid" where
  "nth_oid i = replicate 19 0 @ [word_of_nat i]"

definition line :: "nat \<Rightarrow> oid odb" where
  "line n = map (\<lambda>i. (nth_oid i, Commit (if i = 0 then [] else [nth_oid (i - 1)]))) [0..<n]"

lemma nth_oid_inj: "i < 256 \<Longrightarrow> j < 256 \<Longrightarrow> nth_oid i = nth_oid j \<longleftrightarrow> i = j"
  using byte_eq [of i j] by (simp add: nth_oid_def)

lemma line_map_of:
  assumes "n \<le> 256"
  shows "map_of (line n) c = Some s \<longleftrightarrow> (\<exists>i < n. c = nth_oid i \<and> s = Commit (if i = 0 then [] else [nth_oid (i - 1)]))"
proof -
  have "inj_on nth_oid {0..<n}"
    using assms nth_oid_inj by (intro inj_onI) auto
  then have "distinct (map fst (line n))" by (simp add: line_def distinct_map comp_def)
  moreover have "(c, s) \<in> set (line n) \<longleftrightarrow> (\<exists>i < n. c = nth_oid i \<and> s = Commit (if i = 0 then [] else [nth_oid (i - 1)]))"
    by (simp add: line_def image_iff Bex_def)
  ultimately show ?thesis by (simp only: map_of_eq_Some_iff)
qed

lemma line_read:
  assumes "n \<le> 256"
  shows "read_parent_oids (line n) c = Inr ps \<longleftrightarrow> (\<exists>i < n. c = nth_oid i \<and> ps = (if i = 0 then [] else [nth_oid (i - 1)]))"
proof -
  have "read_parent_oids (line n) c = Inr ps \<longleftrightarrow> map_of (line n) c = Some (Commit ps)"
    by (simp add: read_parent_oids.simps split: option.split stored.split)
  then show ?thesis using line_map_of [OF assms] by simp
qed

lemma line_edge:
  assumes "n \<le> 256"
  shows "edge (line n) c p \<longleftrightarrow> (\<exists>i. Suc i < n \<and> c = nth_oid (Suc i) \<and> p = nth_oid i)"
proof
  assume "edge (line n) c p"
  then obtain i where "i < n" "c = nth_oid i" "i \<noteq> 0" "p = nth_oid (i - 1)"
    unfolding edge_def line_read [OF assms] by (auto split: if_splits)
  then show "\<exists>i. Suc i < n \<and> c = nth_oid (Suc i) \<and> p = nth_oid i" by (intro exI [of _ "i - 1"]) simp
next
  assume "\<exists>i. Suc i < n \<and> c = nth_oid (Suc i) \<and> p = nth_oid i"
  then obtain i where "Suc i < n" "c = nth_oid (Suc i)" "p = nth_oid i" by blast
  then show "edge (line n) c p"
    unfolding edge_def line_read [OF assms] by (intro exI [of _ "[nth_oid i]"] conjI exI [of _ "Suc i"]) simp_all
qed

lemma last_nth_oid: "i < 256 \<Longrightarrow> unat (last (nth_oid i)) = i"
  by (simp add: nth_oid_def unat_of_nat take_bit_nat_eq_self)

lemma line_sane: "n \<le> 256 \<Longrightarrow> sane (line n)"
proof -
  assume n: "n \<le> 256"
  have "ranked (line n) (\<lambda>c. unat (last c))"
    using n by (auto simp: ranked_def line_edge last_nth_oid)
  moreover have "\<forall>c \<in> universe (line n). length c = 20"
    by (auto simp: universe_def line_def nth_oid_def split: if_splits)
  ultimately show ?thesis
    using n by (auto simp: sane_def line_def)
qed

lemma line_path: "b \<le> n \<Longrightarrow> n \<le> 256 \<Longrightarrow> successively (edge (line n)) (map nth_oid (rev [a..<b]))"
proof (induction b)
  case (Suc b)
  show ?case
  proof (cases "a < b")
    case True
    then obtain b' where b': "b = Suc b'" by (cases b) auto
    then have "edge (line n) (nth_oid b) (nth_oid b')" using Suc.prems unfolding line_edge [OF Suc.prems(2)]
      by (intro exI [of _ b']) simp
    then show ?thesis using Suc True b' by (simp add: successively_Cons)
  next
    case False
    then show ?thesis by (cases "a = b") auto
  qed
qed simp

lemma line_ancestors:
  assumes "n \<le> 256" "i < n"
  shows "c \<in> ancestors (line n) (nth_oid i) \<longleftrightarrow> (\<exists>j \<le> i. c = nth_oid j)"
  using assms(2)
proof (induction i)
  case 0
  then have "read_parent_oids (line n) (nth_oid 0) = Inr []"
    unfolding line_read [OF assms(1)] by (intro exI [of _ 0]) simp
  from ancestors_unfold [OF this] show ?case by simp
next
  case (Suc i)
  then have "read_parent_oids (line n) (nth_oid (Suc i)) = Inr [nth_oid i]"
    unfolding line_read [OF assms(1)] by (intro exI [of _ "Suc i"]) simp
  from ancestors_unfold [OF this] show ?case using Suc by (auto simp: le_Suc_eq)
qed

lemma line_complete: "n \<le> 256 \<Longrightarrow> i < n \<Longrightarrow> complete (line n) (nth_oid i)"
proof -
  assume n: "n \<le> 256" and i: "i < n"
  have "ok (read_parent_oids (line n) (nth_oid j))" if "j \<le> i" for j
    unfolding ok_iff line_read [OF n]
    using that i by (intro exI [of _ "if j = 0 then [] else [nth_oid (j - 1)]"] exI [of _ j]) simp
  then show ?thesis by (auto simp: complete_def line_ancestors [OF n i])
qed

definition no_cache :: graph_cache where
  "no_cache = \<lparr> seq_hints = Map.empty, root_blobs = Map.empty \<rparr>"

lemma no_cache_ok: "cache_ok odb no_cache"
  by (simp add: cache_ok_def no_cache_def try_read_cached_hint_def)

text \<open>
  C35. A hint survives being packed into twenty bytes and read back, as long as its jump is below 128,
  which every derived jump is.
\<close>

theorem oid_hint_roundtrip:
  assumes "jump_delta h < 128"
  shows "length (oid_from_hint h) = 20 \<and> hint_from_oid (oid_from_hint h) = h"
  using hint_roundtrip [OF assms] by (simp add: oid_from_hint_def)

theorem oid_hint_roundtrip_witness:
  "hint_from_oid (oid_from_hint \<lparr> sequence_number = 0x0123456789abcdef, parent_count = 7, jump_delta = 42,
      jump_is_second = True \<rparr>)
    = \<lparr> sequence_number = 0x0123456789abcdef, parent_count = 7, jump_delta = 42, jump_is_second = True \<rparr>"
  by (rule conjunct2 [OF oid_hint_roundtrip]) simp

theorem ensure_hint_cached_correct_witness:
  "case ensure_hint_cached (line 3) (nth_oid 2) no_cache of (r, gc') \<Rightarrow>
    cache_ok (line 3) gc' \<and> (\<exists>b. r = Inr (hint_of (line 3) (nth_oid 2), b))"
  using ensure_hint_cached_correct [OF line_sane no_cache_ok, of 3 "nth_oid 2"] line_complete [of 3 2]
  by (auto split: prod.splits sum.splits)

theorem parents_share_root_correct_witness:
  "fst (parents_share_root (line 3) [nth_oid 2, nth_oid 1] no_cache) = Inr True"
proof -
  have "\<exists>a. \<forall>p \<in> set [nth_oid 2, nth_oid 1]. a \<in> ancestors (line 3) p"
    by (intro exI [of _ "nth_oid 0"]) (auto simp: line_ancestors)
  moreover have "zero_sha1 \<notin> set [nth_oid 2, nth_oid 1]"
    by (simp add: zero_sha1_def nth_oid_def replicate_eq_replicate numeral_eq_Suc)
  ultimately show ?thesis
    using parents_share_root_correct [OF line_sane no_cache_ok, of 3 "[nth_oid 2, nth_oid 1]"] line_complete [of 3]
    by simp
qed

theorem sample_point_within_interval_witness:
  "sane (line 150) \<and> (\<exists>c \<in> set (map nth_oid (rev [20..<120])). is_sample_point (hint_of (line 150) c))"
proof -
  have "successively (edge (line 150)) (map nth_oid (rev [20..<120]))" by (rule line_path) simp_all
  with sample_point_within_interval [OF line_sane, of 150 "map nth_oid (rev [20..<120])"] line_sane [of 150]
  show ?thesis by (simp del: upt_conv_Cons upt_rec_numeral)
qed

theorem is_ancestor_of_correct_witness:
  "fst (is_ancestor_of (line 3) (nth_oid 0) (nth_oid 2) no_cache) = Inr True \<and>
   fst (is_ancestor_of (line 3) (nth_oid 2) (nth_oid 0) no_cache) = Inr False"
  using is_ancestor_of_correct [OF line_sane no_cache_ok line_complete line_complete, of 3 2 0]
    is_ancestor_of_correct [OF line_sane no_cache_ok line_complete line_complete, of 3 0 2]
  by (auto simp: line_ancestors nth_oid_inj)

theorem josh_range_exact_witness:
  "\<exists>out. range_topo_vec (line 4) (josh_sequence (line 4) no_cache) (nth_oid 3) (nth_oid 1) = Inr out \<and>
    set out = {nth_oid 2, nth_oid 3}"
proof -
  have "ancestors (line 4) (nth_oid 3) - ancestors (line 4) (nth_oid 1) = {nth_oid 2, nth_oid 3}"
    by (auto simp: line_ancestors nth_oid_inj le_Suc_eq numeral_eq_Suc)
  then show ?thesis
    using josh_range_exact [OF line_sane no_cache_ok line_complete line_complete, of 4 3 1] by auto
qed

end
