(* ===== verification/Apply_Env.thy ===== *)
theory Apply_Env
  imports Flang_Print Pattern_Full History_Query
begin

text \<open>
  What applying a filter needs: the environment, the state it threads, and the pending rewrite of a
  commit (\<^verbatim>\<open>Rewrite\<close> of \<^verbatim>\<open>josh-core/src/filter/mod.rs\<close>).

  The environment holds the code that is not part of the repository (regex engine, template
  formatter, the generated parser of the filter language, the starlark interpreter, the reader of
  \<^verbatim>\<open>.gitmodules\<close>, the decoding of hex ids), the trigram index, the commits of the object store, and the
  hooks. The state holds the caches that are more than memo tables: the table of workspace filters,
  which is keyed by the blob of the workspace file alone, the table of legalized filters, which cuts
  cycles of stored filters, and the history graph.

  A computation is a function of the state; \<open>None\<close> is fuel that ran out.
\<close>

subsection \<open>Environment\<close>

record commit_data =
  cd_tree :: obj
  cd_parents :: "string list"
  cd_message :: string

record env = printer +
  bz :: bisect
  oid_from_str :: "string \<Rightarrow> obj option"
  parse :: "string \<Rightarrow> filt result"
  get_comments :: "string \<Rightarrow> string option"
  regex_replacen :: "string \<Rightarrow> string \<Rightarrow> string \<Rightarrow> string"
  captures_iter :: "string \<Rightarrow> string \<Rightarrow> (string \<times> (string \<times> string) list) list \<times> string"
  strfmt_map :: "string \<Rightarrow> (string \<Rightarrow> string option) \<Rightarrow> string result"
  commit_of :: "string \<Rightarrow> commit_data option"
  raw_oid :: "string \<Rightarrow> oid"
  history :: "oid odb"
  experimental :: bool
  trigram_index :: "obj \<Rightarrow> obj result"
  starlark_evaluate :: "string \<Rightarrow> obj \<Rightarrow> filt result"
  gitmodules :: "string \<Rightarrow> (path \<times> string) list option"
  filter_hook :: "string \<Rightarrow> string \<Rightarrow> filt result"
  opt_fuel :: nat

definition check_experimental :: "'a env_scheme \<Rightarrow> string \<Rightarrow> unit result" where
  "check_experimental E feature = (if experimental E then Inr () else Inl (ExperimentalDisabled feature))"

subsection \<open>Computations\<close>

record caches =
  workspaces :: "(obj \<times> filt) list"
  legalize_map :: "((filt \<times> obj) \<times> filt) list"
  graph :: graph_cache

type_synonym 'a run = "caches \<Rightarrow> ('a result \<times> caches) option"

definition bindS :: "'a run \<Rightarrow> ('a \<Rightarrow> 'b run) \<Rightarrow> 'b run" where
  "bindS m f c =
    (case m c of
       None \<Rightarrow> None
     | Some (Inl e, c') \<Rightarrow> Some (Inl e, c')
     | Some (Inr x, c') \<Rightarrow> f x c')"

definition liftR :: "'a result \<Rightarrow> 'a run" where
  "liftR r c = Some (r, c)"

abbreviation returnS :: "'a \<Rightarrow> 'a run" where
  "returnS x \<equiv> liftR (Inr x)"

definition fuelS :: "'a option \<Rightarrow> 'a run" where
  "fuelS m c = map_option (\<lambda>x. (Inr x, c)) m"

definition liftG :: "(graph_cache \<Rightarrow> 'a result \<times> graph_cache) \<Rightarrow> 'a run" where
  "liftG m c = (case m (graph c) of (r, g) \<Rightarrow> Some (r, c\<lparr> graph := g \<rparr>))"

text \<open>\<^verbatim>\<open>unwrap_or_else(|_| d)\<close>.\<close>

definition orS :: "'a run \<Rightarrow> 'a \<Rightarrow> 'a run" where
  "orS m d c =
    (case m c of
       None \<Rightarrow> None
     | Some (Inl e, c') \<Rightarrow> Some (Inr d, c')
     | Some (Inr x, c') \<Rightarrow> Some (Inr x, c'))"

fun mapS :: "('a \<Rightarrow> 'b run) \<Rightarrow> 'a list \<Rightarrow> 'b list run" where
  "mapS f [] = returnS []"
| "mapS f (x # xs) = bindS (f x) (\<lambda>y. bindS (mapS f xs) (\<lambda>ys. returnS (y # ys)))"

fun foldS :: "('a \<Rightarrow> 'b \<Rightarrow> 'a run) \<Rightarrow> 'a \<Rightarrow> 'b list \<Rightarrow> 'a run" where
  "foldS f a [] = returnS a"
| "foldS f a (x # xs) = bindS (f a x) (\<lambda>a'. foldS f a' xs)"

lemma bindS_liftR [simp]:
  "bindS (liftR (Inr x)) f = f x" "bindS (liftR (Inl e)) f = liftR (Inl e)"
  by (auto simp: bindS_def liftR_def)

lemma bindS_returnS_right [simp]: "bindS m returnS = m"
  by (rule ext) (auto simp: bindS_def liftR_def split: option.split prod.split sum.split)

lemma bindS_liftR_bindR: "bindS (liftR r) f = (case r of Inl e \<Rightarrow> liftR (Inl e) | Inr x \<Rightarrow> f x)"
  by (cases r) auto

lemma bindS_assoc: "bindS (bindS m f) g = bindS m (\<lambda>x. bindS (f x) g)"
  by (rule ext) (auto simp: bindS_def split: option.split prod.split sum.split)

subsection \<open>Text helpers of the standard library\<close>

text \<open>The UTF-8 forms of the characters with the Unicode property White\_Space.\<close>

definition white_space :: "string list" where
  "white_space =
    [[CHR 0x20], [CHR 0x09], [CHR 0x0A], [CHR 0x0B], [CHR 0x0C], [CHR 0x0D],
     [CHR 0xC2, CHR 0x85], [CHR 0xC2, CHR 0xA0], [CHR 0xE1, CHR 0x9A, CHR 0x80],
     [CHR 0xE2, CHR 0x80, CHR 0x80], [CHR 0xE2, CHR 0x80, CHR 0x81], [CHR 0xE2, CHR 0x80, CHR 0x82],
     [CHR 0xE2, CHR 0x80, CHR 0x83], [CHR 0xE2, CHR 0x80, CHR 0x84], [CHR 0xE2, CHR 0x80, CHR 0x85],
     [CHR 0xE2, CHR 0x80, CHR 0x86], [CHR 0xE2, CHR 0x80, CHR 0x87], [CHR 0xE2, CHR 0x80, CHR 0x88],
     [CHR 0xE2, CHR 0x80, CHR 0x89], [CHR 0xE2, CHR 0x80, CHR 0x8A], [CHR 0xE2, CHR 0x80, CHR 0xA8],
     [CHR 0xE2, CHR 0x80, CHR 0xA9], [CHR 0xE2, CHR 0x80, CHR 0xAF], [CHR 0xE2, CHR 0x81, CHR 0x9F],
     [CHR 0xE3, CHR 0x80, CHR 0x80]]"

lemma starts_with_length: "starts_with w s \<Longrightarrow> length w \<le> length s"
  by (induction w s rule: starts_with.induct) auto

function trim_with :: "string list \<Rightarrow> string \<Rightarrow> string" where
  "trim_with ws s =
    (case find (\<lambda>w. w \<noteq> [] \<and> starts_with w s) ws of
       Some w \<Rightarrow> trim_with ws (drop (length w) s)
     | None \<Rightarrow> s)"
  by pat_completeness auto

termination
proof (relation "measure (\<lambda>(ws, s). length s)")
  fix ws s w assume "find (\<lambda>w. w \<noteq> [] \<and> starts_with w s) ws = Some w"
  then have "w \<noteq> []" "starts_with w s" by (auto dest: find_SomeD)
  with starts_with_length [of w s]
  show "((ws, drop (length w) s), ws, s) \<in> measure (\<lambda>(ws, s). length s)" by (cases w) auto
qed simp

declare trim_with.simps [simp del]

definition trim :: "string \<Rightarrow> string" where
  "trim s = rev (trim_with (map rev white_space) (rev (trim_with white_space s)))"

text \<open>\<^verbatim>\<open>lines().next()\<close>: the text before the first newline, without a carriage return before it.\<close>

definition first_line :: "string \<Rightarrow> string" where
  "first_line s =
    (let l = takeWhile (\<lambda>c. c \<noteq> newline) s
     in if l \<noteq> s \<and> l \<noteq> [] \<and> last l = CHR 0x0D then butlast l else l)"

subsection \<open>Pending rewrites\<close>

datatype sig_rewrite = NameEmail string string | RawSig string

record rewrite =
  rw_tree :: obj
  rw_commit :: string
  rw_author :: "sig_rewrite option"
  rw_committer :: "sig_rewrite option"
  rw_message :: "string option"

definition zero_commit :: string where
  "zero_commit = replicate 40 (CHR ''0'')"

definition from_tree_with_metadata ::
  "obj \<Rightarrow> sig_rewrite option \<Rightarrow> sig_rewrite option \<Rightarrow> string option \<Rightarrow> rewrite" where
  "from_tree_with_metadata t a c m =
    \<lparr> rw_tree = t, rw_commit = zero_commit, rw_author = a, rw_committer = c, rw_message = m \<rparr>"

definition from_tree :: "obj \<Rightarrow> rewrite" where
  "from_tree t =
    \<lparr> rw_tree = t, rw_commit = zero_commit, rw_author = None, rw_committer = None, rw_message = None \<rparr>"

definition from_commit_data :: "string \<Rightarrow> commit_data \<Rightarrow> rewrite" where
  "from_commit_data oid c =
    \<lparr> rw_tree = cd_tree c, rw_commit = oid, rw_author = None, rw_committer = None, rw_message = None \<rparr>"

definition with_author :: "rewrite \<Rightarrow> string \<Rightarrow> string \<Rightarrow> rewrite" where
  "with_author x name email = x\<lparr> rw_author := Some (NameEmail name email) \<rparr>"

definition with_committer :: "rewrite \<Rightarrow> string \<Rightarrow> string \<Rightarrow> rewrite" where
  "with_committer x name email = x\<lparr> rw_committer := Some (NameEmail name email) \<rparr>"

definition with_message :: "rewrite \<Rightarrow> string \<Rightarrow> rewrite" where
  "with_message x m = x\<lparr> rw_message := Some m \<rparr>"

definition with_tree :: "rewrite \<Rightarrow> obj \<Rightarrow> rewrite" where
  "with_tree x t = x\<lparr> rw_tree := t \<rparr>"

lemma rw_tree_simps [simp]:
  "rw_tree (with_tree x t) = t" "rw_tree (from_tree t) = t"
  "rw_tree (with_author x a b) = rw_tree x" "rw_tree (with_committer x a b) = rw_tree x"
  "rw_tree (with_message x m) = rw_tree x" "with_tree x (rw_tree x) = x"
  "with_tree (with_tree x t) u = with_tree x u"
  "with_tree (from_tree t) u = from_tree u"
  by (simp_all add: with_tree_def from_tree_def with_author_def with_committer_def with_message_def)

end
