(* ===== verification/Apply_Ops.thy ===== *)
theory Apply_Ops
  imports Apply_Env
begin

text \<open>
  The operators of \<^verbatim>\<open>apply_impl\<close> (\<^verbatim>\<open>josh-core/src/filter/mod.rs\<close>) that do not apply other filters,
  one definition per arm, and the readers of link files and submodules they use.
\<close>

subsection \<open>Templates\<close>

definition transform_with_template ::
  "env \<Rightarrow> string \<Rightarrow> string \<Rightarrow> string \<Rightarrow> (string \<Rightarrow> string option) \<Rightarrow> string result" where
  "transform_with_template E re template input globals =
    (let (matches, rest) = captures_iter E re input in
     bindR (mapR (\<lambda>(before, named).
         bindR (strfmt_map E template (\<lambda>key.
             case map_of named key of Some v \<Rightarrow> Some v | None \<Rightarrow> globals key))
           (\<lambda>s. Inr (before @ s))) matches)
       (\<lambda>parts. Inr (concat parts @ rest)))"

definition template_globals :: "env \<Rightarrow> rewrite \<Rightarrow> string \<Rightarrow> string option" where
  "template_globals E x key =
    (if key = ''#'' then Some (oid_str E (rw_tree x))
     else if key = ''@'' then Some (rw_commit x)
     else if starts_with ''/'' key then Some (get_blob (rw_tree x) (path_of_string (tl key)))
     else if starts_with ''#'' key
     then Some (oid_str E (case get_path_entry (rw_tree x) (path_of_string (tl key)) of
                             Some e \<Rightarrow> e_oid e
                           | None \<Rightarrow> zero_oid))
     else None)"

definition apply_message :: "env \<Rightarrow> string \<Rightarrow> string \<Rightarrow> rewrite \<Rightarrow> rewrite result" where
  "apply_message E m r x =
    (if rw_commit x = zero_commit \<and> rw_message x = None then Inr x
     else
       bindR (case rw_message x of
           Some msg \<Rightarrow> from_utf8 msg
         | None \<Rightarrow>
             (case commit_of E (rw_commit x) of
                None \<Rightarrow> Inl (Failed ''commit'')
              | Some base \<Rightarrow> from_utf8 (cd_message base)))
         (\<lambda>message. bindR (transform_with_template E r m message (template_globals E x))
           (\<lambda>t. Inr (with_message x t))))"

subsection \<open>Submodules\<close>

definition dot_link_josh :: string where "dot_link_josh = ''.link.josh''"

definition extract_submodule_commits :: "env \<Rightarrow> obj \<Rightarrow> (path \<times> (obj \<times> string)) list result" where
  "extract_submodule_commits E tree =
    (case read_tree_bytes tree of
       None \<Rightarrow> Inl NotATree
     | Some _ \<Rightarrow>
        let content = get_blob tree [Normal ''.gitmodules''] in
        if content = [] then Inr []
        else case gitmodules E content of
          None \<Rightarrow> Inr []
        | Some entries \<Rightarrow>
            Inr (foldl (\<lambda>m (p, url).
              case get_path_entry tree p of
                Some e \<Rightarrow> if is_commit (e_mode e) then bt_insert p (e_oid e, url) m else m
              | None \<Rightarrow> m) [] entries))"

definition submodule_link :: "env \<Rightarrow> path \<Rightarrow> obj \<Rightarrow> string \<Rightarrow> string option" where
  "submodule_link E p commit url =
    Option.bind (chain_with (opt_fuel E) Nop (Prefix p)) (\<lambda>prefix_filter.
      let link_filter = with_meta (with_meta (with_meta (with_meta prefix_filter
            ''remote'' url) ''target'' ''HEAD'') ''commit'' (oid_str E commit))
            ''mode'' (link_mode_str Pointer)
      in as_file (printer.truncate E) (opt_fuel E) link_filter 0)"

definition apply_adapt :: "env \<Rightarrow> string \<Rightarrow> rewrite \<Rightarrow> rewrite run" where
  "apply_adapt E adapter x =
    (if adapter = ''submodules'' then
       bindS (liftR (extract_submodule_commits E (rw_tree x))) (\<lambda>commits.
       bindS (foldS (\<lambda>t (p, (commit, url)).
           bindS (fuelS (submodule_link E p commit url)) (\<lambda>content.
             liftR (insert_oid (bz E) t (path_join p [Normal dot_link_josh]) (Blob content) mode_blob)))
         (rw_tree x) commits) (\<lambda>t.
       bindS (liftR (insert_oid (bz E) t [Normal ''.gitmodules''] zero_oid mode_blob)) (\<lambda>t.
         returnS (with_tree x t))))
     else liftR (Inl (Failed ''unknown adapter'')))"

subsection \<open>Links\<close>

definition apply_export :: "env \<Rightarrow> rewrite \<Rightarrow> rewrite result" where
  "apply_export E x =
    bindR (insert_oid (bz E) (rw_tree x) [Normal dot_link_josh] zero_oid mode_blob) (\<lambda>t.
      Inr (with_tree x t))"

fun link_file_of :: "env \<Rightarrow> string \<times> entry \<Rightarrow> (path \<times> filt) list" where
  "link_file_of E (root, e) =
    (if e_name e \<noteq> dot_link_josh then []
     else case blob_bytes (e_oid e) of
       None \<Rightarrow> []
     | Some content \<Rightarrow>
        if \<not> valid_utf8 content then []
        else case parse E (trim content) of
          Inl _ \<Rightarrow> []
        | Inr f \<Rightarrow> [(path_of_string root, f)])"

definition find_link_files :: "env \<Rightarrow> obj \<Rightarrow> (path \<times> filt) list result" where
  "find_link_files E tree =
    bindR (walk_tree_preorder [] tree) (\<lambda>visits. Inr (concat (map (link_file_of E) visits)))"

definition apply_unlink :: "env \<Rightarrow> rewrite \<Rightarrow> rewrite run" where
  "apply_unlink E x =
    bindS (liftR (check_experimental E ''unlink filter'')) (\<lambda>_.
    bindS (liftR (find_link_files E (rw_tree x))) (\<lambda>links.
    bindS (foldS (\<lambda>t (p, f).
        bindS (liftR (insert_oid (bz E) t p zero_oid mode_blob)) (\<lambda>t.
        bindS (fuelS (as_file (printer.truncate E) (opt_fuel E) f 0)) (\<lambda>content.
          liftR (insert_oid (bz E) t (path_join p [Normal dot_link_josh]) (Blob content) mode_blob))))
      (rw_tree x) links) (\<lambda>t. returnS (with_tree x t))))"

definition read_josh_link :: "env \<Rightarrow> obj \<Rightarrow> path \<Rightarrow> string \<Rightarrow> filt option" where
  "read_josh_link E tree root filename =
    Option.bind (get_path_entry tree (path_join root [Normal filename])) (\<lambda>e.
    Option.bind (blob_bytes (e_oid e)) (\<lambda>b.
      if \<not> valid_utf8 b then None
      else case parse E (trim b) of
        Inl _ \<Rightarrow> None
      | Inr f \<Rightarrow>
          if get_meta f ''remote'' = None \<or> get_meta f ''commit'' = None then None else Some f))"

definition links_from_roots :: "env \<Rightarrow> obj \<Rightarrow> path list \<Rightarrow> (path \<times> filt) list" where
  "links_from_roots E tree link_roots =
    List.map_filter (\<lambda>root. map_option (\<lambda>f. (root, f)) (read_josh_link E tree root dot_link_josh)) link_roots"

subsection \<open>Content\<close>

definition apply_regex_replace :: "env \<Rightarrow> (string \<times> string) list \<Rightarrow> rewrite \<Rightarrow> rewrite result" where
  "apply_regex_replace E rs x =
    bindR (foldR (\<lambda>t (regex, replacement). regex_replace_inner (regex_replacen E regex replacement) t)
        (rw_tree x) rs)
      (\<lambda>t. Inr (with_tree x t))"

definition apply_pattern :: "string \<Rightarrow> rewrite \<Rightarrow> rewrite result" where
  "apply_pattern glob x =
    bindR (compile glob) (\<lambda>cp.
    bindR (if fallback cp
           then remove_pred_inner (\<lambda>path isblob.
             isblob \<and> matches_with (cp_full cp) path pattern_match_options) [] (rw_tree x)
           else remove_pattern_inner cp initial_state (rw_tree x))
      (\<lambda>t. Inr (if t = rw_tree x then x else with_tree x t)))"

definition apply_insert :: "env \<Rightarrow> path \<Rightarrow> insert_content \<Rightarrow> rewrite \<Rightarrow> rewrite result" where
  "apply_insert E dest content x =
    bindR (case content of
        Inline s \<Rightarrow> Inr (Blob s, mode_blob, False)
      | InsOid oid \<Rightarrow>
          (case oid of
             Blob _ \<Rightarrow> Inr (oid, mode_blob, False)
           | Tree _ \<Rightarrow> Inr (oid, mode_tree, True)
           | Other _ \<Rightarrow> Inl NotBlobOrTree))
      (\<lambda>(oid, mode, is_tree).
        if dest = [CurDir]
        then (if is_tree then Inr (with_tree x oid) else Inl (Failed ''blob at the root''))
        else bindR (insert_oid (bz E) empty_id dest oid mode) (\<lambda>t. Inr (with_tree x t)))"

definition apply_file :: "env \<Rightarrow> path \<Rightarrow> path \<Rightarrow> rewrite \<Rightarrow> rewrite result" where
  "apply_file E dest src x =
    (let (file, mode) = (case get_path_entry (rw_tree x) src of
           Some e \<Rightarrow> (e_oid e, e_mode e)
         | None \<Rightarrow> (zero_oid, mode_blob))
     in bindR (insert_oid (bz E) empty_id dest file mode) (\<lambda>t. Inr (with_tree x t)))"

definition apply_subdir :: "path \<Rightarrow> rewrite \<Rightarrow> rewrite" where
  "apply_subdir p x =
    with_tree x (case get_path_entry (rw_tree x) p of
        Some e \<Rightarrow> if is_tree (e_mode e) then e_oid e else empty_id
      | None \<Rightarrow> empty_id)"

definition apply_prefix :: "env \<Rightarrow> path \<Rightarrow> rewrite \<Rightarrow> rewrite result" where
  "apply_prefix E p x =
    bindR (insert_oid (bz E) empty_id p (rw_tree x) mode_tree) (\<lambda>t. Inr (with_tree x t))"

definition apply_object_ref :: "env \<Rightarrow> path \<Rightarrow> rewrite \<Rightarrow> rewrite result" where
  "apply_object_ref E p x =
    (case get_path_entry (rw_tree x) p of
       Some e \<Rightarrow>
         bindR (insert_oid (bz E) empty_id p (Blob (oid_str E (e_oid e))) mode_blob) (\<lambda>t.
           Inr (with_tree x t))
     | None \<Rightarrow> Inr x)"

definition apply_object_deref :: "env \<Rightarrow> path \<Rightarrow> rewrite \<Rightarrow> rewrite result" where
  "apply_object_deref E p x =
    (case get_path_entry (rw_tree x) p of
       None \<Rightarrow> Inr x
     | Some e \<Rightarrow>
         bindR (case blob_bytes (e_oid e) of
             Some b \<Rightarrow> bindR (from_utf8 b) (\<lambda>s. Inr (trim (first_line s)))
           | None \<Rightarrow> Inr [])
         (\<lambda>s. case oid_from_str E s of
             Some oid \<Rightarrow>
               bindR (case oid of
                   Tree _ \<Rightarrow> Inr mode_tree
                 | Blob _ \<Rightarrow> Inr mode_blob
                 | Other _ \<Rightarrow> Inl (Failed ''object not found''))
                 (\<lambda>mode. bindR (insert_oid (bz E) empty_id p oid mode) (\<lambda>t. Inr (with_tree x t)))
           | None \<Rightarrow>
               bindR (insert_oid (bz E) empty_id p (Blob []) mode_blob) (\<lambda>t. Inr (with_tree x t))))"

end
