(* ===== verification/Apply.thy ===== *)
theory Apply
  imports Apply_Ops
begin

text \<open>
  Applying a filter to a tree and reversing it: \<^verbatim>\<open>apply_impl\<close>, \<^verbatim>\<open>unapply\<close> and the resolution of
  workspaces and stored filters in \<^verbatim>\<open>josh-core/src/filter/mod.rs\<close>, and \<^verbatim>\<open>tree::compose\<close>.

  The three functions call each other. Each is given as one step over a \<open>runner\<close>, the three functions
  with less fuel, and \<open>runs\<close> ties the knot. The lookups of memoized results that depend only on
  their key are left out.
\<close>

record runner =
  r_apply :: "filt \<Rightarrow> rewrite \<Rightarrow> rewrite run"
  r_legalize :: "filt \<Rightarrow> obj \<Rightarrow> filt run"
  r_unapply :: "filt \<Rightarrow> obj \<Rightarrow> obj \<Rightarrow> (string \<times> string) option \<Rightarrow> obj run"

abbreviation apply_tree :: "runner \<Rightarrow> filt \<Rightarrow> obj \<Rightarrow> obj run" where
  "apply_tree R f t \<equiv> bindS (r_apply R f (from_tree t)) (\<lambda>x. returnS (rw_tree x))"

subsection \<open>Composition\<close>

definition compose_step :: "env \<Rightarrow> runner \<Rightarrow> obj \<times> obj \<Rightarrow> filt \<times> obj \<Rightarrow> (obj \<times> obj) run" where
  "compose_step E R st fa =
    (let result = fst st; taken = snd st; applied = snd fa in
     bindS (liftR (invert (fst fa))) (\<lambda>fi.
     bindS (liftR (invert fi)) (\<lambda>f.
     bindS (apply_tree R f taken) (\<lambda>taken_applied.
       let subtracted = subtract (bz E) applied taken_applied in
       bindS (liftR (invert f)) (\<lambda>fi.
       bindS (apply_tree R fi applied) (\<lambda>unapplied.
         returnS (overlay (bz E) subtracted result, overlay (bz E) taken unapplied)))))))"

definition compose_trees :: "env \<Rightarrow> runner \<Rightarrow> (filt \<times> obj) list \<Rightarrow> obj run" where
  "compose_trees E R trees =
    bindS (foldS (compose_step E R) (empty_id, empty_id) trees) (\<lambda>st. returnS (fst st))"

definition apply_compose :: "env \<Rightarrow> runner \<Rightarrow> filt list \<Rightarrow> rewrite \<Rightarrow> rewrite run" where
  "apply_compose E R fs x =
    bindS (mapS (\<lambda>f. r_apply R f x) fs) (\<lambda>ys.
    bindS (compose_trees E R (zip fs (map rw_tree ys))) (\<lambda>t. returnS (with_tree x t)))"

definition apply_chain :: "runner \<Rightarrow> filt list \<Rightarrow> rewrite \<Rightarrow> rewrite run" where
  "apply_chain R fs x = foldS (\<lambda>y f. r_apply R f y) x fs"

definition apply_subtract :: "env \<Rightarrow> runner \<Rightarrow> filt \<Rightarrow> filt \<Rightarrow> rewrite \<Rightarrow> rewrite run" where
  "apply_subtract E R a b x =
    bindS (r_apply R a x) (\<lambda>af.
    bindS (r_apply R b x) (\<lambda>bf.
    bindS (liftR (invert b)) (\<lambda>bi.
    bindS (r_apply R bi bf) (\<lambda>bu.
    bindS (r_apply R a bu) (\<lambda>ba.
      returnS (with_tree x (subtract (bz E) (rw_tree af) (rw_tree ba))))))))"

definition apply_exclude :: "env \<Rightarrow> runner \<Rightarrow> filt \<Rightarrow> rewrite \<Rightarrow> rewrite run" where
  "apply_exclude E R b x =
    bindS (r_apply R b x) (\<lambda>bf. returnS (with_tree x (subtract (bz E) (rw_tree x) (rw_tree bf))))"

definition apply_select :: "env \<Rightarrow> runner \<Rightarrow> filt \<Rightarrow> rewrite \<Rightarrow> rewrite run" where
  "apply_select E R b x =
    bindS (r_apply R b x) (\<lambda>bf. returnS (with_tree x (intersect (bz E) (rw_tree x) (rw_tree bf))))"

definition apply_tree_id :: "env \<Rightarrow> runner \<Rightarrow> path \<Rightarrow> filt \<Rightarrow> rewrite \<Rightarrow> rewrite run" where
  "apply_tree_id E R p f x =
    bindS (r_apply R f x) (\<lambda>y. r_apply R (Insert p (Inline (oid_str E (rw_tree y)))) x)"

subsection \<open>Links\<close>

definition get_link_roots :: "env \<Rightarrow> runner \<Rightarrow> obj \<Rightarrow> path list run" where
  "get_link_roots E R tree =
    bindS (apply_tree R (Pattern ''**/.link.josh'') tree) (\<lambda>link_tree.
    bindS (liftR (walk_tree_preorder [] link_tree)) (\<lambda>visits.
      returnS (map (\<lambda>v. path_of_string (fst v))
        (List.filter (\<lambda>v. e_name (snd v) = dot_link_josh) visits))))"

definition link_mode_of :: "link_mode option \<Rightarrow> filt \<Rightarrow> link_mode" where
  "link_mode_of mode link_file =
    (case mode of
       Some m \<Rightarrow> m
     | None \<Rightarrow>
        (case get_meta link_file ''mode'' of
           None \<Rightarrow> Pointer
         | Some s \<Rightarrow> (case link_mode_parse s of Inr m \<Rightarrow> m | Inl _ \<Rightarrow> Pointer)))"

definition apply_one_link :: "env \<Rightarrow> runner \<Rightarrow> link_mode option \<Rightarrow> obj \<Rightarrow> path \<times> filt \<Rightarrow> obj run" where
  "apply_one_link E R mode t link =
    (case Option.bind (get_meta (snd link) ''commit'') (\<lambda>s.
        map_option (\<lambda>_. s) (oid_from_str E s)) of
       None \<Rightarrow> liftR (Inl (MissingEntry ''commit''))
     | Some commit \<Rightarrow>
        (case commit_of E commit of
           None \<Rightarrow> liftR (Inl (Failed ''commit''))
         | Some data \<Rightarrow>
            bindS (\<lambda>c. case r_apply R (peel (snd link)) (from_tree (cd_tree data)) c of
                None \<Rightarrow> None
              | Some (Inl _, c') \<Rightarrow> Some (Inl Panic, c')
              | Some (Inr y, c') \<Rightarrow> Some (Inr y, c')) (\<lambda>y.
            bindS (fuelS (as_file (printer.truncate E) (opt_fuel E)
                (with_meta (snd link) ''mode'' (link_mode_str (link_mode_of mode (snd link)))) 0)) (\<lambda>content.
              liftR (insert_oid (bz E) (overlay (bz E) t (rw_tree y))
                (path_join (fst link) [Normal dot_link_josh]) (Blob content) mode_blob)))))"

definition apply_link :: "env \<Rightarrow> runner \<Rightarrow> link_mode option \<Rightarrow> rewrite \<Rightarrow> rewrite run" where
  "apply_link E R mode x =
    (case read_tree_bytes (rw_tree x) of
       None \<Rightarrow> liftR (Inl NotATree)
     | Some _ \<Rightarrow>
        bindS (get_link_roots E R (rw_tree x)) (\<lambda>rs.
        bindS (foldS (apply_one_link E R mode) (rw_tree x) (links_from_roots E (rw_tree x) rs)) (\<lambda>t.
          returnS (with_tree x t))))"

subsection \<open>Workspaces and stored filters\<close>

definition get_filter :: "env \<Rightarrow> runner \<Rightarrow> obj \<Rightarrow> path \<Rightarrow> filt run" where
  "get_filter E R tree p =
    (case get_path_entry tree (normalize_path p) of
       None \<Rightarrow> returnS Empty
     | Some e \<Rightarrow> (\<lambda>c.
        case map_of (workspaces c) (e_oid e) of
          Some f \<Rightarrow> Some (Inr f, c)
        | None \<Rightarrow>
            bindS (orS (r_legalize R
                (case parse E (blob_text (e_oid e)) of Inr f \<Rightarrow> f | Inl _ \<Rightarrow> Empty) tree) Empty)
              (\<lambda>f c'. let f = (if ok (invert f) then f else Empty) in
                Some (Inr f, c'\<lparr> workspaces := (e_oid e, f) # workspaces c' \<rparr>)) c))"

definition get_workspace :: "env \<Rightarrow> runner \<Rightarrow> obj \<Rightarrow> path \<Rightarrow> filt run" where
  "get_workspace E R tree p =
    (let n = opt_fuel E; base = Subdir p in
     bindS (fuelS (file_filter n Nop [Normal workspace_josh])) (\<lambda>wsj_file.
     bindS (fuelS (chain_with n base wsj_file)) (\<lambda>wsj_file.
     bindS (get_filter E R tree (path_join p [Normal workspace_josh])) (\<lambda>f.
     bindS (fuelS (compose_filters n [f, base])) (\<lambda>inner.
       fuelS (compose_filters n [wsj_file, inner]))))))"

definition get_stored :: "env \<Rightarrow> runner \<Rightarrow> obj \<Rightarrow> path \<Rightarrow> filt run" where
  "get_stored E R tree p =
    (let n = opt_fuel E; stored_path = with_added_extension p ''josh'' in
     bindS (fuelS (file_filter n Nop stored_path)) (\<lambda>sj_file.
     bindS (get_filter E R tree stored_path) (\<lambda>f.
       fuelS (compose_filters n [sj_file, f]))))"

definition get_starlark :: "env \<Rightarrow> runner \<Rightarrow> obj \<Rightarrow> path \<Rightarrow> filt \<Rightarrow> filt run" where
  "get_starlark E R tree p subfilter =
    (let n = opt_fuel E; star_path = with_added_extension p ''star'' in
     bindS (orS (bindS (apply_tree R subfilter tree) (\<lambda>t. returnS (Some t))) None) (\<lambda>filtered.
       case filtered of
         None \<Rightarrow> returnS Empty
       | Some filtered_tree \<Rightarrow>
          (case starlark_evaluate E (get_blob tree star_path) filtered_tree of
             Inl _ \<Rightarrow> returnS Empty
           | Inr f \<Rightarrow>
              bindS (fuelS (file_filter n Nop star_path)) (\<lambda>star_file.
                fuelS (compose_filters n [star_file, subfilter, f])))))"

fun chain_legalize :: "env \<Rightarrow> runner \<Rightarrow> obj \<Rightarrow> obj \<Rightarrow> filt list \<Rightarrow> filt list run" where
  "chain_legalize E R tree current [] = returnS []"
| "chain_legalize E R tree current (f # fs) =
    bindS (if current = tree then r_legalize R f tree
           else if read_tree_bytes current = None then liftR (Inl NotATree)
           else r_legalize R f current) (\<lambda>g.
    bindS (if list_ex needs_legalization fs then apply_tree R g current else returnS current) (\<lambda>current'.
    bindS (chain_legalize E R tree current' fs) (\<lambda>gs. returnS (g # gs))))"

definition legalize_op :: "env \<Rightarrow> runner \<Rightarrow> filt \<Rightarrow> obj \<Rightarrow> filt run" where
  "legalize_op E R f tree =
    (let one = (\<lambda>op g. bindS (r_legalize R g tree) (\<lambda>h. returnS (op h))) in
     case f of
       Compose fs \<Rightarrow> bindS (mapS (\<lambda>g. r_legalize R g tree) fs) (\<lambda>gs. returnS (Compose gs))
     | Chain fs \<Rightarrow> bindS (chain_legalize E R tree tree fs) (\<lambda>gs. returnS (Chain gs))
     | Subtract a b \<Rightarrow>
         bindS (r_legalize R a tree) (\<lambda>a'. bindS (r_legalize R b tree) (\<lambda>b'. returnS (Subtract a' b')))
     | Exclude g \<Rightarrow> one Exclude g
     | Select g \<Rightarrow> one Select g
     | Meta meta g \<Rightarrow> one (Meta meta) g
     | Pin g \<Rightarrow> one Pin g
     | Stored p \<Rightarrow> get_stored E R tree p
     | Starlark p s \<Rightarrow> bindS (r_legalize R s tree) (\<lambda>s'. get_starlark E R tree p s')
     | TreeId p g \<Rightarrow> one (TreeId p) g
     | _ \<Rightarrow> returnS f)"

definition legalize_step :: "env \<Rightarrow> runner \<Rightarrow> filt \<Rightarrow> obj \<Rightarrow> filt run" where
  "legalize_step E R f tree =
    (if \<not> needs_legalization f then returnS f
     else (\<lambda>c.
       case map_of (legalize_map c) (f, tree) of
         Some g \<Rightarrow> Some (Inr g, c)
       | None \<Rightarrow>
           bindS (legalize_op E R f tree)
             (\<lambda>g c'. Some (Inr g, c'\<lparr> legalize_map := ((f, tree), g) # legalize_map c' \<rparr>))
             (c\<lparr> legalize_map := ((f, tree), Empty) # legalize_map c \<rparr>)))"

definition apply_dynamic :: "runner \<Rightarrow> filt run \<Rightarrow> rewrite \<Rightarrow> rewrite run" where
  "apply_dynamic R get x =
    (case read_tree_bytes (rw_tree x) of
       None \<Rightarrow> liftR (Inl NotATree)
     | Some _ \<Rightarrow> bindS get (\<lambda>f. r_apply R f x))"

definition apply_unapply :: "env \<Rightarrow> runner \<Rightarrow> lazy_ref \<Rightarrow> filt \<Rightarrow> rewrite \<Rightarrow> rewrite run" where
  "apply_unapply E R target uf x =
    bindS (liftR (check_experimental E ''unapply filter'')) (\<lambda>_.
      case target of
        Lazy _ \<Rightarrow> liftR (Inl UnresolvedRef)
      | Resolved oid \<Rightarrow>
          (case commit_of E oid of
             None \<Rightarrow> liftR (Inl (Failed ''commit''))
           | Some data \<Rightarrow>
               bindS (liftR (from_utf8 (cd_message data))) (\<lambda>msg.
                 case oid_from_str E msg of
                   None \<Rightarrow> liftR (Inl InvalidRef)
                 | Some _ \<Rightarrow>
                    (case commit_of E msg of
                       None \<Rightarrow> liftR (Inl (Failed ''commit''))
                     | Some target \<Rightarrow>
                         bindS (r_unapply R uf (rw_tree x) (cd_tree target) None) (\<lambda>t.
                           returnS (from_tree t))))))"

subsection \<open>One step of application\<close>

definition apply_step :: "env \<Rightarrow> runner \<Rightarrow> filt \<Rightarrow> rewrite \<Rightarrow> rewrite run" where
  "apply_step E R f0 x =
    (case peel f0 of
       Nop \<Rightarrow> returnS x
     | Empty \<Rightarrow> returnS (with_tree x empty_id)
     | Fold \<Rightarrow> returnS x
     | Squash ids \<Rightarrow> liftR (if ids = None then Inr x else Inl (NotApplicable ''squash''))
     | Author a e \<Rightarrow> returnS (with_author x a e)
     | Committer a e \<Rightarrow> returnS (with_committer x a e)
     | Message m r \<Rightarrow> liftR (apply_message E m r x)
     | Prune \<Rightarrow> returnS x
     | Adapt adapter \<Rightarrow> apply_adapt E adapter x
     | Export \<Rightarrow> liftR (apply_export E x)
     | Unlink \<Rightarrow> apply_unlink E x
     | Link mode \<Rightarrow> apply_link E R mode x
     | Rev arms \<Rightarrow> liftR (Inl (NotApplicable ''rev''))
     | RegexReplace rs \<Rightarrow> liftR (apply_regex_replace E rs x)
     | Pattern glob \<Rightarrow> liftR (apply_pattern glob x)
     | Insert p content \<Rightarrow> liftR (apply_insert E p content x)
     | File dst src \<Rightarrow> liftR (apply_file E dst src x)
     | Subdir p \<Rightarrow> returnS (apply_subdir p x)
     | Prefix p \<Rightarrow> liftR (apply_prefix E p x)
     | Subtract a b \<Rightarrow> apply_subtract E R a b x
     | Exclude b \<Rightarrow> apply_exclude E R b x
     | Select b \<Rightarrow> apply_select E R b x
     | Paths \<Rightarrow> liftR (bindR (pathstree [] (rw_tree x)) (\<lambda>t. Inr (with_tree x t)))
     | Index \<Rightarrow> liftR (bindR (trigram_index E (rw_tree x)) (\<lambda>t. Inr (with_tree x t)))
     | Invert \<Rightarrow> liftR (bindR (invert_paths (bz E) [] (rw_tree x)) (\<lambda>t. Inr (with_tree x t)))
     | Workspace p \<Rightarrow> apply_dynamic R (get_workspace E R (rw_tree x) p) x
     | Stored p \<Rightarrow> apply_dynamic R (get_stored E R (rw_tree x) p) x
     | Starlark p s \<Rightarrow> apply_dynamic R (get_starlark E R (rw_tree x) p s) x
     | TreeId p s \<Rightarrow> apply_tree_id E R p s x
     | ObjectRef p \<Rightarrow> liftR (apply_object_ref E p x)
     | ObjectDeref p \<Rightarrow> liftR (apply_object_deref E p x)
     | Compose fs \<Rightarrow> apply_compose E R fs x
     | Chain fs \<Rightarrow> apply_chain R fs x
     | Hook h \<Rightarrow> liftR (Inl (NotApplicable ''hook''))
     | Embed p \<Rightarrow> liftR (Inl (NotApplicable ''embed''))
     | Unapply target uf \<Rightarrow> apply_unapply E R target uf x
     | Pin f \<Rightarrow> returnS x
     | Downstack r \<Rightarrow> liftR (Inl (NotApplicable ''downstack''))
     | Meta m f \<Rightarrow> liftR (Inl Panic))"


subsection \<open>Filters chosen by commit\<close>

fun rev_matches :: "env \<Rightarrow> rev_match \<Rightarrow> oid \<Rightarrow> oid \<Rightarrow> bool run" where
  "rev_matches E AncestorStrict commit tip =
    bindS (liftG (is_ancestor_of (history E) commit tip)) (\<lambda>b. returnS (b \<and> commit \<noteq> tip))"
| "rev_matches E AncestorInclusive commit tip = liftG (is_ancestor_of (history E) commit tip)"
| "rev_matches E EqualRev commit tip = returnS (commit = tip)"
| "rev_matches E DefaultRev commit tip = returnS True"

fun get_rev_filter :: "env \<Rightarrow> string \<Rightarrow> (rev_match \<times> lazy_ref \<times> filt) list \<Rightarrow> filt run" where
  "get_rev_filter E commit [] = returnS Nop"
| "get_rev_filter E commit ((m, r, f) # arms) =
    (case r of
       Lazy _ \<Rightarrow> liftR (Inl UnresolvedRef)
     | Resolved tip \<Rightarrow>
        if m \<noteq> DefaultRev \<and> map_of (history E) (raw_oid E tip) = None
        then liftR (Inl (Failed ''nonexistent OID''))
        else bindS (rev_matches E m (raw_oid E commit) (raw_oid E tip)) (\<lambda>matches.
          if matches then returnS f else get_rev_filter E commit arms))"

definition resolve_commit_filter :: "env \<Rightarrow> filt \<Rightarrow> string \<Rightarrow> filt run" where
  "resolve_commit_filter E op commit =
    (case op of
       Rev revs \<Rightarrow> get_rev_filter E commit revs
     | Hook hook \<Rightarrow> liftR (filter_hook E hook commit)
     | _ \<Rightarrow> liftR (Inl (Failed ''not a per-commit filter'')))"

definition is_commit_resolved_filter :: "filt \<Rightarrow> bool" where
  "is_commit_resolved_filter op = (case op of Rev _ \<Rightarrow> True | Hook _ \<Rightarrow> True | _ \<Rightarrow> False)"

subsection \<open>Reversing a filter\<close>

definition reverse_strip_overlay :: "env \<Rightarrow> runner \<Rightarrow> filt \<Rightarrow> filt \<Rightarrow> obj \<Rightarrow> obj \<Rightarrow> obj run" where
  "reverse_strip_overlay E R f orig tree parent_tree =
    bindS (r_apply R orig (from_tree parent_tree)) (\<lambda>filtered.
    bindS (liftR (invert orig)) (\<lambda>original_inv.
    bindS (r_apply R original_inv filtered) (\<lambda>matching.
      let stripped = subtract (bz E) parent_tree (rw_tree matching) in
      bindS (liftR (invert f)) (\<lambda>f_inv.
      bindS (apply_tree R f_inv tree) (\<lambda>x. returnS (overlay (bz E) x stripped))))))"

definition pre_process_tree :: "env \<Rightarrow> obj \<Rightarrow> obj run" where
  "pre_process_tree E tree =
    (let ws_file = get_blob tree [Normal workspace_josh] in
     bindS (liftR (parse E ws_file)) (\<lambda>parsed.
       if \<not> ok (invert parsed) then liftR (Inl NoInvert)
       else
         let comments = (case get_comments E ws_file of Some c \<Rightarrow> c | None \<Rightarrow> []) in
         bindS (fuelS (pretty (printer.truncate E) (opt_fuel E) parsed 0)) (\<lambda>text.
           liftR (insert_oid (bz E) tree [Normal workspace_josh] (Blob (comments @ text @ [newline])) mode_blob))))"

text \<open>\<^verbatim>\<open>read_tree\<close> of both sides, whose failure is an error.\<close>

definition read_both :: "obj \<Rightarrow> obj \<Rightarrow> unit run" where
  "read_both tree parent_tree =
    liftR (if read_tree_bytes tree = None \<or> read_tree_bytes parent_tree = None then Inl NotATree else Inr ())"

definition unapply_workspace :: "env \<Rightarrow> runner \<Rightarrow> path \<Rightarrow> obj \<Rightarrow> obj \<Rightarrow> obj run" where
  "unapply_workspace E R p tree parent_tree =
    (let n = opt_fuel E; root = Subdir p; wsj = [Normal workspace_josh] in
     bindS (pre_process_tree E tree) (\<lambda>tree.
     bindS (read_both tree parent_tree) (\<lambda>_.
     bindS (get_filter E R tree wsj) (\<lambda>workspace.
     bindS (get_filter E R parent_tree (path_join p wsj)) (\<lambda>original_workspace.
     bindS (fuelS (chain_with n root (File wsj wsj))) (\<lambda>wsj_file.
     bindS (fuelS (compose_filters n [workspace, root])) (\<lambda>inner.
     bindS (fuelS (compose_filters n [wsj_file, inner])) (\<lambda>f.
     bindS (fuelS (compose_filters n [original_workspace, root])) (\<lambda>original_inner.
     bindS (fuelS (compose_filters n [wsj_file, original_inner])) (\<lambda>orig.
       reverse_strip_overlay E R f orig tree parent_tree))))))))))"

definition unapply_stored :: "env \<Rightarrow> runner \<Rightarrow> path \<Rightarrow> obj \<Rightarrow> obj \<Rightarrow> obj run" where
  "unapply_stored E R p tree parent_tree =
    (let n = opt_fuel E; stored_path = with_added_extension p ''josh'' in
     bindS (read_both tree parent_tree) (\<lambda>_.
     bindS (get_filter E R tree stored_path) (\<lambda>stored.
     bindS (get_filter E R parent_tree stored_path) (\<lambda>original_stored.
     bindS (fuelS (file_filter n Nop stored_path)) (\<lambda>sj_file.
     bindS (fuelS (compose_filters n [sj_file, stored])) (\<lambda>f.
     bindS (fuelS (compose_filters n [sj_file, original_stored])) (\<lambda>orig.
       reverse_strip_overlay E R f orig tree parent_tree)))))))"

definition unapply_per_rev_filter ::
  "env \<Rightarrow> runner \<Rightarrow> filt \<Rightarrow> obj \<Rightarrow> obj \<Rightarrow> (string \<times> string) option \<Rightarrow> obj option run" where
  "unapply_per_rev_filter E R op tree parent_tree commits =
    (if is_commit_resolved_filter op then
       case commits of
         None \<Rightarrow> liftR (Inl NoCommitContext)
       | Some (commit, parent) \<Rightarrow>
          bindS (resolve_commit_filter E op commit) (\<lambda>f.
          bindS (resolve_commit_filter E op parent) (\<lambda>orig.
          bindS (reverse_strip_overlay E R f orig tree parent_tree) (\<lambda>t. returnS (Some t))))
     else
       case op of
         Workspace p \<Rightarrow> bindS (unapply_workspace E R p tree parent_tree) (\<lambda>t. returnS (Some t))
       | Stored p \<Rightarrow> bindS (unapply_stored E R p tree parent_tree) (\<lambda>t. returnS (Some t))
       | Starlark p sf \<Rightarrow>
          bindS (read_both tree parent_tree) (\<lambda>_.
          bindS (get_starlark E R tree p sf) (\<lambda>f.
          bindS (get_starlark E R parent_tree p sf) (\<lambda>orig.
          bindS (reverse_strip_overlay E R f orig tree parent_tree) (\<lambda>t. returnS (Some t)))))
       | _ \<Rightarrow> returnS None)"

definition unapply_chain ::
  "env \<Rightarrow> runner \<Rightarrow> filt list \<Rightarrow> obj \<Rightarrow> obj \<Rightarrow> (string \<times> string) option \<Rightarrow> obj run" where
  "unapply_chain E R filters tree parent_tree commits =
    (case filters of
       [] \<Rightarrow> returnS tree
     | [first] \<Rightarrow> r_unapply R first tree parent_tree commits
     | first # rest \<Rightarrow>
        bindS (if is_commit_resolved_filter (peel first)
               then (case commits of
                       None \<Rightarrow> liftR (Inl NoCommitContext)
                     | Some (_, parent) \<Rightarrow>
                         bindS (resolve_commit_filter E (peel first) parent) (\<lambda>parent_filter.
                           apply_tree R parent_filter parent_tree))
               else bindS (case invert first of
                             Inr first_inverted \<Rightarrow> liftR (invert first_inverted)
                           | Inl _ \<Rightarrow> returnS first)
                      (\<lambda>first_normalized. apply_tree R first_normalized parent_tree)) (\<lambda>filtered_parent_tree.
        bindS (r_unapply R (Chain rest) tree filtered_parent_tree commits) (\<lambda>t.
          r_unapply R first t parent_tree commits)))"

definition unapply_step ::
  "env \<Rightarrow> runner \<Rightarrow> filt \<Rightarrow> obj \<Rightarrow> obj \<Rightarrow> (string \<times> string) option \<Rightarrow> obj run" where
  "unapply_step E R f tree parent_tree commits =
    (case invert f of
       Inr inverted \<Rightarrow>
         bindS (liftR (invert inverted)) (\<lambda>normalized.
         bindS (r_apply R normalized (from_tree parent_tree)) (\<lambda>filtered.
         bindS (r_apply R inverted filtered) (\<lambda>matching.
           let stripped = subtract (bz E) parent_tree (rw_tree matching) in
           bindS (apply_tree R inverted tree) (\<lambda>x. returnS (overlay (bz E) x stripped)))))
     | Inl _ \<Rightarrow>
         bindS (unapply_per_rev_filter E R (peel f) tree parent_tree commits) (\<lambda>ws.
           case ws of
             Some t \<Rightarrow> returnS t
           | None \<Rightarrow>
              (case peel f of
                 Chain filters \<Rightarrow> unapply_chain E R filters tree parent_tree commits
               | _ \<Rightarrow> liftR (Inl CannotUnapply))))"

subsection \<open>The recursive functions\<close>

primrec runs :: "env \<Rightarrow> nat \<Rightarrow> runner" where
  "runs E 0 = \<lparr> r_apply = \<lambda>_ _ _. None, r_legalize = \<lambda>_ _ _. None, r_unapply = \<lambda>_ _ _ _ _. None \<rparr>"
| "runs E (Suc n) = \<lparr> r_apply = apply_step E (runs E n), r_legalize = legalize_step E (runs E n),
    r_unapply = unapply_step E (runs E n) \<rparr>"

definition apply_filter :: "env \<Rightarrow> nat \<Rightarrow> filt \<Rightarrow> rewrite \<Rightarrow> rewrite run" where
  "apply_filter E n f x = r_apply (runs E n) f x"

definition legalize_stored :: "env \<Rightarrow> nat \<Rightarrow> filt \<Rightarrow> obj \<Rightarrow> filt run" where
  "legalize_stored E n f tree = r_legalize (runs E n) f tree"

definition unapply :: "env \<Rightarrow> nat \<Rightarrow> filt \<Rightarrow> obj \<Rightarrow> obj \<Rightarrow> (string \<times> string) option \<Rightarrow> obj run" where
  "unapply E n f tree parent_tree commits = r_unapply (runs E n) f tree parent_tree commits"

subsection \<open>Redirects and warnings\<close>

definition resolve_workspace_redirect :: "env \<Rightarrow> obj \<Rightarrow> path \<Rightarrow> (filt \<times> path) option run" where
  "resolve_workspace_redirect E tree p =
    (let f = (case parse E (get_blob tree (path_join p [Normal workspace_josh])) of Inr f \<Rightarrow> f | Inl _ \<Rightarrow> Empty) in
     case peel f of
       Workspace q \<Rightarrow>
         bindS (fuelS (file_filter (opt_fuel E) Nop p)) (\<lambda>file.
         bindS (fuelS (chain_with (opt_fuel E) (Exclude file) (peel f))) (\<lambda>inner.
           returnS (Some (propagate_meta inner (into_meta f), q))))
     | _ \<Rightarrow> returnS None)"

definition compute_warnings2 :: "env \<Rightarrow> nat \<Rightarrow> filt \<Rightarrow> obj \<Rightarrow> string list run" where
  "compute_warnings2 E n f tree =
    bindS (orS (bindS (apply_filter E n f (from_tree tree)) (\<lambda>x. returnS (Some (rw_tree x)))) None) (\<lambda>x.
      if x = Some empty_id
      then bindS (fuelS (pretty (printer.truncate E) (opt_fuel E) f 2)) (\<lambda>text.
        returnS [''No match for '' @ CHR 0x22 # text @ [CHR 0x22]])
      else returnS [])"

definition compute_warnings :: "env \<Rightarrow> nat \<Rightarrow> filt \<Rightarrow> obj \<Rightarrow> string list run" where
  "compute_warnings E n f tree =
    (let workspace = (case f of
           Workspace p \<Rightarrow> (case parse E (get_blob tree (path_join p [Normal workspace_josh])) of
             Inr g \<Rightarrow> Inr g | Inl _ \<Rightarrow> Inl (''couldn'' @ CHR 0x27 # ''t parse workspace'' @ [newline]))
         | _ \<Rightarrow> Inr f);
         stored = (case workspace of
           Inr (Stored p) \<Rightarrow> (case parse E (get_blob tree (with_added_extension p ''josh'')) of
             Inr g \<Rightarrow> Inr g | Inl _ \<Rightarrow> Inl (''couldn'' @ CHR 0x27 # ''t parse stored'' @ [newline]))
         | _ \<Rightarrow> workspace)
     in case stored of
          Inl w \<Rightarrow> returnS [w]
        | Inr g \<Rightarrow>
            bindS (fuelS (flatten_impl (opt_fuel E) False g)) (\<lambda>g.
              case g of
                Compose fs \<Rightarrow> bindS (mapS (\<lambda>f. compute_warnings2 E n f tree) fs) (\<lambda>wss. returnS (concat wss))
              | _ \<Rightarrow> compute_warnings2 E n g tree))"

end
