(* ===== verification/Moves.thy ===== *)
theory Moves
  imports Apply
begin

text \<open>
  Filters that move files: those built from \<^verbatim>\<open>:/\<close>, \<^verbatim>\<open>:prefix\<close>, \<^verbatim>\<open>::\<close> with a file or a
  pattern, chains, and compositions of filters with separate areas, which is what a workspace is made
  of. Such a filter is described by the relation \<open>moves\<close> between the paths before and after, and
  inverting the filter gives the converse relation.
\<close>

type_synonym names = "string list"
type_synonym leaf = "mode \<times> obj"

subsection \<open>Paths\<close>

fun names_of :: "path \<Rightarrow> names option" where
  "names_of [] = Some []"
| "names_of (Normal n # p) = map_option (\<lambda>ns. n # ns) (names_of p)"
| "names_of (_ # p) = None"

lemma names_of_Some: "names_of p = Some ns \<longleftrightarrow> p = path_of_names ns"
proof
  show "names_of p = Some ns \<Longrightarrow> p = path_of_names ns"
    by (induction p arbitrary: ns rule: names_of.induct) auto
  show "p = path_of_names ns \<Longrightarrow> names_of p = Some ns"
    by (induction ns arbitrary: p) auto
qed

definition names_ok :: "names \<Rightarrow> bool" where
  "names_ok ns \<longleftrightarrow> ns \<noteq> [] \<and> (\<forall>n \<in> set ns. valid_name n \<and> valid_utf8 n)"

definition plain_path :: "path \<Rightarrow> bool" where
  "plain_path p = (case names_of p of Some ns \<Rightarrow> names_ok ns | None \<Rightarrow> False)"

lemma plain_path_cases:
  assumes "plain_path p" obtains ns where "p = path_of_names ns" "names_of p = Some ns" "names_ok ns"
proof -
  from assms obtain ns where "names_of p = Some ns" "names_ok ns" by (auto simp: plain_path_def split: option.splits)
  with names_of_Some [of p ns] show ?thesis by (intro that) simp_all
qed

subsection \<open>The relation\<close>

definition glob_accepts :: "string \<Rightarrow> names \<Rightarrow> bool" where
  "glob_accepts glob ns =
    (case compile glob of
       Inr cp \<Rightarrow> matches_with (cp_full cp) (join_str ''/'' ns) pattern_match_options
     | Inl _ \<Rightarrow> False)"

fun comp_rel :: "(names \<Rightarrow> names \<Rightarrow> bool) list \<Rightarrow> names \<Rightarrow> names \<Rightarrow> bool" where
  "comp_rel [] q p = (q = p)"
| "comp_rel (R # Rs) q p = (\<exists>m. R m p \<and> comp_rel Rs q m)"

text \<open>\<open>moves f x q p\<close>: the file \<open>x\<close> at path \<open>p\<close> appears at path \<open>q\<close> of the filtered tree.\<close>

fun moves :: "filt \<Rightarrow> leaf \<Rightarrow> names \<Rightarrow> names \<Rightarrow> bool" where
  "moves Nop x q p = (q = p)"
| "moves (Subdir d) x q p = (q \<noteq> [] \<and> (\<exists>ns. names_of d = Some ns \<and> p = ns @ q))"
| "moves (Prefix d) x q p = (p \<noteq> [] \<and> (\<exists>ns. names_of d = Some ns \<and> q = ns @ p))"
| "moves (File dst src) x q p =
    (\<exists>d s r. names_of dst = Some d \<and> names_of src = Some s \<and> q = d @ r \<and> p = s @ r)"
| "moves (Pattern glob) x q p = (q = p \<and> \<not> is_commit (fst x) \<and> glob_accepts glob q)"
| "moves (Chain fs) x q p = comp_rel (map (\<lambda>f. moves f x) fs) q p"
| "moves (Compose fs) x q p = (\<exists>f \<in> set fs. moves f x q p)"
| "moves (Meta m f) x q p = moves f x q p"
| "moves _ x q p = False"

text \<open>Two filters with separate areas on both sides.\<close>

definition apart :: "filt \<Rightarrow> filt \<Rightarrow> bool" where
  "apart f g \<longleftrightarrow>
    (\<forall>x q p x' q' p'. moves f x q p \<and> moves g x' q' p' \<longrightarrow> \<not> comparable q q' \<and> \<not> comparable p p')"

fun reloc :: "filt \<Rightarrow> bool" where
  "reloc Nop = True"
| "reloc Empty = True"
| "reloc (Subdir p) = plain_path p"
| "reloc (Prefix p) = plain_path p"
| "reloc (File dst src) = (plain_path dst \<and> plain_path src)"
| "reloc (Pattern glob) = ok (compile glob)"
| "reloc (Chain fs) = list_all reloc fs"
| "reloc (Compose fs) = (list_all reloc fs \<and> sorted_wrt apart fs)"
| "reloc (Meta m f) = reloc f"
| "reloc _ = False"

fun height :: "filt \<Rightarrow> nat" where
  "height (Chain fs) = Suc (foldr max (map height fs) 0)"
| "height (Compose fs) = Suc (foldr max (map height fs) 0)"
| "height (Meta m f) = height f"
| "height _ = 0"

lemma height_elem: "f \<in> set fs \<Longrightarrow> height f \<le> foldr max (map height fs) 0"
  by (induction fs) (auto simp: le_max_iff_disj)

subsection \<open>Inversion gives the converse\<close>

definition inverse :: "filt \<Rightarrow> filt \<Rightarrow> bool" where
  "inverse f g \<longleftrightarrow> invert f = Inr g \<and> invert g = Inr f \<and> reloc g \<and> height g = height f \<and>
    (\<forall>x q p. moves g x p q \<longleftrightarrow> moves f x q p)"

lemma inverse_moves: "inverse f g \<Longrightarrow> moves g x p q \<longleftrightarrow> moves f x q p"
  by (cases x) (simp add: inverse_def)

lemma comp_rel_append: "comp_rel (Rs @ Ss) q p \<longleftrightarrow> (\<exists>m. comp_rel Rs m p \<and> comp_rel Ss q m)"
  by (induction Rs arbitrary: p) auto

lemma comp_rel_converse: "comp_rel (rev (map (\<lambda>R q p. R p q) Rs)) p q \<longleftrightarrow> comp_rel Rs q p"
proof (induction Rs arbitrary: q p)
  case (Cons R Rs)
  then show ?case by (auto simp: comp_rel_append)
qed auto

lemma mapR_inverse:
  "list_all2 inverse fs gs \<Longrightarrow> mapR invert fs = Inr gs \<and> mapR invert gs = Inr fs \<and> list_all reloc gs \<and>
    map height gs = map height fs"
  by (induction rule: list_all2_induct) (auto simp: inverse_def)

lemma apart_inverse: "inverse f f' \<Longrightarrow> inverse g g' \<Longrightarrow> apart f g \<Longrightarrow> apart f' g'"
  unfolding apart_def using inverse_moves by blast

lemma apart_inverse_list:
  "list_all2 inverse fs gs \<Longrightarrow> sorted_wrt apart fs \<Longrightarrow> sorted_wrt apart gs"
proof (induction rule: list_all2_induct)
  case (Cons f fs g gs)
  have "apart g g'" if "g' \<in> set gs" for g'
  proof -
    from that Cons.hyps(2) obtain f' where "f' \<in> set fs" "inverse f' g'"
      by (metis in_set_conv_nth list_all2_conv_all_nth)
    then show ?thesis using Cons apart_inverse by auto
  qed
  then show ?case using Cons by auto
qed simp

lemma map_moves_inverse:
  "list_all2 inverse fs gs \<Longrightarrow> map (\<lambda>f. moves f x) gs = map (\<lambda>R q p. R p q) (map (\<lambda>f. moves f x) fs)"
  by (induction rule: list_all2_induct) (simp_all add: inverse_moves fun_eq_iff)

lemma foldr_max_rev: "foldr max (rev xs) (0 :: nat) = foldr max xs 0"
proof -
  have snoc: "foldr max (xs @ [a]) 0 = max a (foldr max xs 0)" for xs and a :: nat
    by (induction xs) (simp_all add: max.left_commute)
  show ?thesis by (induction xs) (simp_all only: rev.simps snoc foldr_Cons comp_apply)
qed

lemma list_all2_choice: "\<forall>x \<in> set xs. \<exists>y. P x y \<Longrightarrow> \<exists>ys. list_all2 P xs ys"
proof (induction xs)
  case (Cons x xs)
  then obtain y ys where "P x y" "list_all2 P xs ys" by auto
  then show ?case by (intro exI [of _ "y # ys"]) simp
qed (auto intro: exI [of _ "[]"])

lemma inverse_leaf:
  "inverse Nop Nop" "inverse Empty Empty"
  "plain_path d \<Longrightarrow> inverse (Subdir d) (Prefix d)" "plain_path d \<Longrightarrow> inverse (Prefix d) (Subdir d)"
  "plain_path d \<Longrightarrow> plain_path s \<Longrightarrow> inverse (File d s) (File s d)"
  "ok (compile glob) \<Longrightarrow> inverse (Pattern glob) (Pattern glob)"
  by (auto simp: inverse_def)

lemma inverse_exists: "reloc f \<Longrightarrow> \<exists>g. inverse f g"
proof (induction f rule: reloc.induct)
  case (7 fs)
  then have "\<forall>f \<in> set fs. \<exists>g. inverse f g" by (auto simp: list_all_iff)
  from list_all2_choice [OF this] obtain gs where gs: "list_all2 inverse fs gs" ..
  then have gs': "list_all2 inverse (rev fs) (rev gs)" by simp
  note inv = mapR_inverse [OF gs] mapR_inverse [OF gs']
  have "moves (Chain (rev gs)) x p q \<longleftrightarrow> moves (Chain fs) x q p" for x q p
    using map_moves_inverse [OF gs, of x] comp_rel_converse [of "map (\<lambda>f. moves f x) fs" p q]
    by (simp add: rev_map [symmetric])
  moreover have "map height (rev gs) = rev (map height fs)" using inv by (simp add: rev_map)
  ultimately have "inverse (Chain fs) (Chain (rev gs))"
    using inv by (simp add: inverse_def foldr_max_rev)
  then show ?case ..
next
  case (8 fs)
  then have "\<forall>f \<in> set fs. \<exists>g. inverse f g" by (auto simp: list_all_iff)
  from list_all2_choice [OF this] obtain gs where gs: "list_all2 inverse fs gs" ..
  have "moves (Compose gs) x p q \<longleftrightarrow> moves (Compose fs) x q p" for x q p
    using gs by (induction rule: list_all2_induct) (auto simp: inverse_moves)
  then have "inverse (Compose fs) (Compose gs)"
    using mapR_inverse [OF gs] apart_inverse_list [OF gs] 8(2) by (simp add: inverse_def)
  then show ?case ..
next
  case (9 m f)
  then obtain g where "inverse f g" by auto
  then have "inverse (Meta m f) (Meta m g)" by (simp add: inverse_def)
  then show ?case ..
qed (auto intro: inverse_leaf)

subsection \<open>The relation is one to one\<close>

lemma comp_rel_functional:
  "(\<And>R q p p'. R \<in> set Rs \<Longrightarrow> R q p \<Longrightarrow> R q p' \<Longrightarrow> p = p') \<Longrightarrow> comp_rel Rs q p \<Longrightarrow> comp_rel Rs q p' \<Longrightarrow> p = p'"
proof (induction Rs arbitrary: p p')
  case (Cons R Rs)
  then obtain m m' where "R m p" "comp_rel Rs q m" "R m' p'" "comp_rel Rs q m'" by auto
  with Cons show ?case by (metis list.set_intros)
qed simp

lemma apart_cases: "sorted_wrt apart fs \<Longrightarrow> f \<in> set fs \<Longrightarrow> g \<in> set fs \<Longrightarrow> f = g \<or> apart f g \<or> apart g f"
  by (induction fs) auto

lemma apartD: "apart f g \<Longrightarrow> moves f x q p \<Longrightarrow> moves g x' q' p' \<Longrightarrow> \<not> comparable q q' \<and> \<not> comparable p p'"
  unfolding apart_def by blast

lemma comparable_refl [simp]: "comparable p p"
  by (simp add: comparable_def)

lemma moves_functional: "reloc f \<Longrightarrow> moves f x q p \<Longrightarrow> moves f x q p' \<Longrightarrow> p = p'"
proof (induction f arbitrary: q p p' rule: reloc.induct)
  case (7 fs)
  then have "\<And>R q p p'. R \<in> set (map (\<lambda>f. moves f x) fs) \<Longrightarrow> R q p \<Longrightarrow> R q p' \<Longrightarrow> p = p'"
    by (auto simp: list_all_iff)
  with 7(3,4) show ?case using comp_rel_functional [of "map (\<lambda>f. moves f x) fs" q p p'] by simp
next
  case (8 fs)
  then obtain f g where f: "f \<in> set fs" "moves f x q p" and g: "g \<in> set fs" "moves g x q p'" by auto
  have "f = g"
    using apart_cases [of fs f g] 8(2) f g apartD [of f g] apartD [of g f] by fastforce
  then show ?case using 8 f g by (auto simp: list_all_iff)
qed auto

lemma moves_injective: "reloc f \<Longrightarrow> moves f x q p \<Longrightarrow> moves f x q' p \<Longrightarrow> q = q'"
proof -
  assume f: "reloc f" "moves f x q p" "moves f x q' p"
  from inverse_exists [OF f(1)] obtain g where g: "inverse f g" ..
  then have "reloc g" by (simp add: inverse_def)
  with f(2,3) show ?thesis
    using moves_functional [of g x p q q'] inverse_moves [OF g] by blast
qed

subsection \<open>Good trees\<close>

definition good :: "obj \<Rightarrow> bool" where
  "good t \<longleftrightarrow> wf_tree t \<and> utf8_obj t"

lemma utf8_view: "wf_tree t \<Longrightarrow> (\<And>p n. flat t p \<noteq> None \<Longrightarrow> n \<in> set p \<Longrightarrow> valid_utf8 n) \<Longrightarrow> utf8_obj t"
proof (induction t rule: wf_tree_induct)
  case (Tree es)
  have "utf8_entry e" if e: "e \<in> set es" for e
  proof -
    have rd: "reader_entry es (e_name e) = Some e" using Tree.hyps(1) e by (auto intro: reader_entry_self)
    note w = reader_entry_wf [OF Tree.hyps(1) rd]
    have flat: "flat (Tree es) (e_name e # p) = entry_view e p" for p by (simp add: flat_Cons_view rd)
    show ?thesis
    proof (cases "is_tree (e_mode e)")
      case True
      with w have wf: "wf_tree (e_oid e)" "e_oid e \<noteq> empty_id" by auto
      from wf_tree_has_file [OF this] obtain p where "flat (e_oid e) p \<noteq> None" by blast
      then have "valid_utf8 (e_name e)" using Tree.prems [of "e_name e # p"] True by (simp add: flat entry_view_def)
      moreover have "valid_utf8 n" if "flat (e_oid e) p \<noteq> None" "n \<in> set p" for p n
        using Tree.prems [of "e_name e # p" n] True that by (simp add: flat entry_view_def)
      then have "utf8_obj (e_oid e)" using Tree.IH [OF rd True] by blast
      ultimately show ?thesis by (simp add: utf8_entry_iff)
    next
      case False
      then have "flat (Tree es) [e_name e] \<noteq> None" by (simp add: flat entry_view_def)
      then have "valid_utf8 (e_name e)" using Tree.prems by simp
      moreover have "\<not> is_Tree (e_oid e)" using w(1) False by (simp add: wf_entry_iff)
      ultimately show ?thesis by (cases "e_oid e") (auto simp: utf8_entry_iff)
    qed
  qed
  then show ?case by (simp add: list_all_iff)
qed

lemma good_names: "good t \<Longrightarrow> flat t p = Some x \<Longrightarrow> names_ok p"
  using flat_names [of t p] flat_utf8 [of t p] by (auto simp: good_def names_ok_def)

lemma goodI: "wf_tree t \<Longrightarrow> (\<And>p x. flat t p = Some x \<Longrightarrow> names_ok p) \<Longrightarrow> good t"
  unfolding good_def by (auto intro!: utf8_view simp: names_ok_def)

lemma good_empty [simp]: "good empty_id"
  by (rule goodI) simp_all

lemma view_ext: "good a \<Longrightarrow> good b \<Longrightarrow> (\<And>p x. flat a p = Some x \<longleftrightarrow> flat b p = Some x) \<Longrightarrow> a = b"
proof (rule flat_ext)
  assume "\<And>p x. flat a p = Some x \<longleftrightarrow> flat b p = Some x"
  then show "flat a = flat b" by (intro ext) (metis option.exhaust)
qed (auto simp: good_def)


subsection \<open>One operator\<close>

definition moved_tree :: "filt \<Rightarrow> obj \<Rightarrow> obj \<Rightarrow> bool" where
  "moved_tree f t u \<longleftrightarrow> good u \<and> (\<forall>q x. flat u q = Some x \<longleftrightarrow> (\<exists>p. moves f x q p \<and> flat t p = Some x))"

lemma moved_treeI:
  assumes "wf_tree u" "good t" and "\<And>q x. flat u q = Some x \<longleftrightarrow> (\<exists>p. moves f x q p \<and> flat t p = Some x)"
    and "\<And>q x p. moves f x q p \<Longrightarrow> names_ok p \<Longrightarrow> names_ok q"
  shows "moved_tree f t u"
  using assms good_names [OF assms(2)] unfolding moved_tree_def by (auto intro!: goodI)

lemma names_ok_Nil [simp]: "\<not> names_ok []"
  by (simp add: names_ok_def)

lemma names_ok_append: "names_ok (ns @ p) \<longleftrightarrow> (names_ok ns \<or> ns = []) \<and> (names_ok p \<or> p = []) \<and> ns @ p \<noteq> []"
  by (auto simp: names_ok_def)

lemma moved_subdir:
  assumes "plain_path d" "good (rw_tree x)"
  shows "\<exists>u. apply_subdir d x = with_tree x u \<and> moved_tree (Subdir d) (rw_tree x) u"
proof -
  obtain ns where ns: "d = path_of_names ns" "names_of d = Some ns" "names_ok ns" by (rule plain_path_cases [OF assms(1)])
  let ?t = "rw_tree x"
  have wf: "wf_tree ?t" using assms(2) by (simp add: good_def)
  let ?u = "case subentry ?t ns of Some e \<Rightarrow> if is_tree (e_mode e) then e_oid e else empty_id | None \<Rightarrow> empty_id"
  have "wf_tree ?u"
    using subentry_wf [OF wf] by (auto simp: wf_entry_iff wf_tree_def empty_id_def split: option.split)
  moreover have "flat ?u q = (if q = [] then None else flat ?t (ns @ q))" for q
  proof (cases "subentry ?t ns")
    case None
    then show ?thesis using subentry_None_view [OF None, of q] ns(3) by (simp add: names_ok_def)
  next
    case (Some e)
    then show ?thesis using subentry_Some_view [OF Some, of q] by (cases q) (auto simp: entry_view_def)
  qed
  ultimately have "moved_tree (Subdir d) ?t ?u"
    using assms(2) ns(2) by (intro moved_treeI) (auto simp: names_ok_append)
  then show ?thesis by (auto simp: apply_subdir_def get_path_entry_names ns(1))
qed

lemma moved_prefix:
  assumes bz: "bisect_ok (bz E)" and "plain_path d" "good (rw_tree x)"
  shows "\<exists>u. apply_prefix E d x = Inr (with_tree x u) \<and> moved_tree (Prefix d) (rw_tree x) u"
proof -
  obtain ns where ns: "d = path_of_names ns" "names_of d = Some ns" "names_ok ns" by (rule plain_path_cases [OF assms(2)])
  let ?t = "rw_tree x"
  have wf: "wf_tree ?t" using assms(3) by (simp add: good_def)
  then have tree: "is_Tree ?t" by (cases ?t) (auto simp: wf_tree_def)
  let ?u = "ins empty_id ns ?t mode_tree"
  have "wf_tree ?u"
    using ns(3) wf tree by (intro wf_ins) (auto simp: names_ok_def wf_entry_iff wf_tree_def zero_oid_def)
  moreover have "flat ?u q = (if prefix ns q then flat ?t (drop (length ns) q) else None)" for q
    using flat_ins [of empty_id ns ?t mode_tree q] ns(3) by (auto simp: new_view_tree [OF tree] names_ok_def)
  ultimately have "moved_tree (Prefix d) ?t ?u"
    using assms(3) ns(2,3) by (intro moved_treeI) (auto simp: names_ok_append prefix_def split: if_splits dest: good_names [OF assms(3)] simp: names_ok_def)
  then show ?thesis
    using insert_oid_names [OF bz, of empty_id ns ?t mode_tree] ns(1,3) by (auto simp: apply_prefix_def names_ok_def)
qed


lemma moved_file:
  assumes bz: "bisect_ok (bz E)" and "plain_path dst" "plain_path src" "good (rw_tree x)"
  shows "\<exists>u. apply_file E dst src x = Inr (with_tree x u) \<and> moved_tree (File dst src) (rw_tree x) u"
proof -
  obtain d where d: "dst = path_of_names d" "names_of dst = Some d" "names_ok d" by (rule plain_path_cases [OF assms(2)])
  obtain s where s: "src = path_of_names s" "names_of src = Some s" "names_ok s" by (rule plain_path_cases [OF assms(3)])
  let ?t = "rw_tree x"
  have wf: "wf_tree ?t" using assms(4) by (simp add: good_def)
  let ?e = "case subentry ?t s of Some e \<Rightarrow> (e_oid e, e_mode e) | None \<Rightarrow> (zero_oid, mode_blob)"
  let ?u = "ins empty_id d (fst ?e) (snd ?e)"
  have "fst ?e = zero_oid \<or> wf_entry (Entry (snd ?e) (last d) (fst ?e))"
    using subentry_wf [OF wf, of s] d(3) by (auto simp: wf_entry_iff names_ok_def split: option.split)
  then have "wf_tree ?u" using d(3) by (intro wf_ins) (auto simp: names_ok_def)
  moreover have "new_view (snd ?e) (fst ?e) r = flat ?t (s @ r)" for r
  proof (cases "subentry ?t s")
    case None
    then show ?thesis using subentry_None_view [OF None, of r] s(3) by (simp add: new_view_def names_ok_def)
  next
    case (Some e)
    then show ?thesis
      using subentry_Some_view [OF Some, of r] subentry_wf [OF wf Some]
      by (simp add: new_view_def entry_view_def wf_entry_iff)
  qed
  then have "flat ?u q = (if prefix d q then flat ?t (s @ drop (length d) q) else None)" for q
    using flat_ins [of empty_id d "fst ?e" "snd ?e" q] d(3) by (auto simp: names_ok_def)
  ultimately have "moved_tree (File dst src) ?t ?u"
    using assms(4) d(2,3) s(2)
    by (intro moved_treeI) (auto simp: names_ok_append prefix_def split: if_splits)
  then show ?thesis
    using insert_oid_names [OF bz, of empty_id d "fst ?e" "snd ?e"] d(1,3) s(1)
    by (auto simp: apply_file_def get_path_entry_names names_ok_def split: option.splits)
qed

lemma moved_pattern:
  assumes "ok (compile glob)" "good (rw_tree x)"
  shows "\<exists>u. apply_pattern glob x = Inr (with_tree x u) \<and> moved_tree (Pattern glob) (rw_tree x) u"
proof -
  obtain cp where cp: "compile glob = Inr cp" using assms(1) by (auto simp: ok_iff)
  let ?t = "rw_tree x"
  have wf: "wf_tree ?t" "utf8_obj ?t" using assms(2) by (simp_all add: good_def)
  let ?m = "\<lambda>path. matches_with (cp_full cp) path pattern_match_options"
  let ?p = "\<lambda>path isblob. isblob \<and> ?m path"
  obtain u where u: "remove_pred_inner ?p [] ?t = Inr u" "wf_tree u"
    "\<And>q. flat u q = Option.bind (flat ?t q) (leaf_at push_name (pred_leaf ?p) [] q)"
    using rp.walk_spec [OF wf, of ?p "[]"] by blast
  obtain v where v: "remove_pred_inner (\<lambda>path _. ?m path) [] ?t = Inr v" "wf_tree v"
    "\<And>q. flat v q = Option.bind (flat ?t q) (leaf_at push_name (pred_leaf (\<lambda>path _. ?m path)) [] q)"
    using rp.walk_spec [OF wf, of "\<lambda>path _. ?m path" "[]"] by blast
  have "pred_leaf ?p = pred_leaf (\<lambda>path _. ?m path)" by (simp add: pred_leaf_def fun_eq_iff)
  then have same: "u = v" using u v by (intro flat_ext) auto
  have "flat u q = Some y \<longleftrightarrow> moves (Pattern glob) y q q \<and> flat ?t q = Some y" for q y
  proof (cases "flat ?t q")
    case None
    then show ?thesis using u(3) by simp
  next
    case (Some z)
    with good_names [OF assms(2)] have "q \<noteq> []" "\<forall>n \<in> set q. valid_name n" by (auto simp: names_ok_def)
    from leaf_at_pred [OF this(2,1), of ?p "[]" z] show ?thesis
      using u(3) [of q] Some by (auto simp: push_path_def glob_accepts_def cp)
  qed
  then have "moved_tree (Pattern glob) ?t u"
    using u(2) assms(2) by (intro moved_treeI) auto
  moreover have "apply_pattern glob x = Inr (with_tree x u)"
    using cp u(1) remove_pattern_pred [OF cp _ wf] v(1) same by (auto simp: apply_pattern_def)
  ultimately show ?thesis by blast
qed

end
