(* ===== verification/Moves_Apply.thy ===== *)
theory Moves_Apply
  imports Moves
begin

text \<open>
  What \<^verbatim>\<open>apply_impl\<close> computes for a filter that moves files: compositions, chains and then all of them by
  induction on the filter. The fold of \<^verbatim>\<open>tree::compose\<close> is treated with the invariant \<open>composed\<close>.
\<close>

subsection \<open>Composition\<close>

definition applies :: "env \<Rightarrow> nat \<Rightarrow> filt \<Rightarrow> bool" where
  "applies E n f \<longleftrightarrow>
    (\<forall>x c. good (rw_tree x) \<longrightarrow>
      (\<exists>u. r_apply (runs E n) f x c = Some (Inr (with_tree x u), c) \<and> moved_tree f (rw_tree x) u))"

lemma appliesE:
  assumes "applies E n f" "good (rw_tree x)"
  obtains u where "r_apply (runs E n) f x c = Some (Inr (with_tree x u), c)" "moved_tree f (rw_tree x) u"
  using assms unfolding applies_def by blast

lemma mapS_applies:
  assumes "\<forall>f \<in> set fs. applies E n f" "good (rw_tree x)"
  shows "\<exists>us. mapS (\<lambda>f. r_apply (runs E n) f x) fs c = Some (Inr (map (with_tree x) us), c) \<and>
    list_all2 (\<lambda>f u. moved_tree f (rw_tree x) u) fs us"
  using assms(1)
proof (induction fs)
  case Nil
  then show ?case by (auto simp: liftR_def)
next
  case (Cons f fs)
  then obtain us where us: "mapS (\<lambda>f. r_apply (runs E n) f x) fs c = Some (Inr (map (with_tree x) us), c)"
    "list_all2 (\<lambda>f u. moved_tree f (rw_tree x) u) fs us" by auto
  obtain u where u: "r_apply (runs E n) f x c = Some (Inr (with_tree x u), c)" "moved_tree f (rw_tree x) u"
    using Cons.prems by (auto intro: appliesE [OF _ assms(2), of E n f c])
  show ?case
    using us u by (intro exI [of _ "u # us"]) (simp add: bindS_def liftR_def)
qed

text \<open>What a prefix of the filters has contributed, and what of the source it has used up.\<close>

definition composed :: "filt list \<Rightarrow> obj \<Rightarrow> obj \<times> obj \<Rightarrow> bool" where
  "composed fs t st \<longleftrightarrow> good (fst st) \<and> good (snd st) \<and>
    (\<forall>q x. flat (fst st) q = Some x \<longleftrightarrow> (\<exists>f \<in> set fs. \<exists>p. moves f x q p \<and> flat t p = Some x)) \<and>
    (\<forall>p x. flat (snd st) p = Some x \<longleftrightarrow> flat t p = Some x \<and> (\<exists>f \<in> set fs. \<exists>q. moves f x q p))"

lemma good_overlay:
  assumes "bisect_ok b" "good s" "good t"
  shows "good (overlay b s t)"
  using assms good_names [OF assms(2)] good_names [OF assms(3)]
  by (intro goodI) (auto simp: good_def flat_overlay_hits wf_overlay split: option.splits if_splits)

lemma good_subtract:
  assumes "bisect_ok b" "good s" "good t"
  shows "good (subtract b s t)"
  using assms good_names [OF assms(2)]
  by (intro goodI) (auto simp: good_def flat_subtract_hits wf_subtract split: if_splits)

lemma good_wf: "good t \<Longrightarrow> wf_tree t"
  by (simp add: good_def)

lemma moved_good: "moved_tree f t u \<Longrightarrow> good u"
  by (simp add: moved_tree_def)

lemma moved_iff: "moved_tree f t u \<Longrightarrow> flat u q = Some x \<longleftrightarrow> (\<exists>p. moves f x q p \<and> flat t p = Some x)"
  by (cases x) (simp add: moved_tree_def)

lemma composed_step:
  assumes bz: "bisect_ok b" and t: "good t" and st: "composed fs t (result, taken)"
    and f: "reloc f" "inverse f g" "\<forall>f' \<in> set fs. apart f' f"
    and applied: "moved_tree f t applied" and tf: "moved_tree f taken tf" and un: "moved_tree g applied un"
  shows "composed (fs @ [f]) t (overlay b (subtract b applied tf) result, overlay b taken un)"
proof -
  note c = st [unfolded composed_def fst_conv snd_conv]
  then have gr: "good result" and gt: "good taken"
    and ri: "\<And>q x. flat result q = Some x \<longleftrightarrow> (\<exists>f \<in> set fs. \<exists>p. moves f x q p \<and> flat t p = Some x)"
    and ti: "\<And>p x. flat taken p = Some x \<longleftrightarrow> flat t p = Some x \<and> (\<exists>f \<in> set fs. \<exists>q. moves f x q p)"
    by blast+
  have "flat tf q \<noteq> Some x" for q x
  proof
    assume "flat tf q = Some x"
    then obtain p where p: "moves f x q p" "flat taken p = Some x" using moved_iff [OF tf] by auto
    then obtain f' q' where "f' \<in> set fs" "moves f' x q' p" using ti by blast
    then show False using apartD [OF _ _ p(1)] f(3) comparable_refl by blast
  qed
  then have "tf = empty_id" by (intro view_ext) (auto simp: moved_good [OF tf])
  then have sub: "flat (subtract b applied tf) q = flat applied q" for q
    using flat_subtract_hits [OF bz] good_wf [OF moved_good [OF applied]] by simp
  have gs: "good (subtract b applied tf)" by (rule good_subtract [OF bz moved_good [OF applied] moved_good [OF tf]])
  have free: "\<not> hits (subtract b applied tf) q" if "flat result q = Some x" for q x
  proof
    assume "hits (subtract b applied tf) q"
    then obtain q' y where "flat applied q' = Some y" "comparable q q'"
      unfolding hits_meets [OF good_wf [OF gs]] meets_def sub by auto
    then obtain p where p: "moves f y q' p" using moved_iff [OF applied] by auto
    from that obtain f' p' where "f' \<in> set fs" "moves f' x q p'" using ri by blast
    then show False using apartD [OF _ _ p] f(3) \<open>comparable q q'\<close> by blast
  qed
  have res: "flat (overlay b (subtract b applied tf) result) q = Some x \<longleftrightarrow>
      flat applied q = Some x \<or> (flat applied q = None \<and> flat result q = Some x)" for q x
    using flat_overlay_hits [OF bz good_wf [OF gs] good_wf [OF gr], of q] free [of q x] sub [of q]
    by (cases "flat applied q") auto
  have excl: "flat applied q = None" if "flat result q = Some x" for q x
    using free [OF that] flat_hits [of "subtract b applied tf" q] sub by (cases "flat applied q") simp_all
  have un': "flat un p = Some x \<longleftrightarrow> flat t p = Some x \<and> (\<exists>q. moves f x q p)" for p x
    using moved_iff [OF un] moved_iff [OF applied] inverse_moves [OF f(2)] moves_functional [OF f(1)] by blast
  have sub_t: "flat taken q \<noteq> None \<Longrightarrow> flat taken q = flat t q" for q using ti by (cases "flat taken q") auto
  have tak: "flat (overlay b taken un) p = Some x \<longleftrightarrow> flat taken p = Some x \<or> flat un p = Some x" for p x
  proof -
    have h: "hits taken p \<longleftrightarrow> flat taken p \<noteq> None" if "flat t p \<noteq> None"
      using hits_subset [OF good_wf [OF t] good_wf [OF gt] that sub_t] by blast
    note o = flat_overlay_hits [OF bz good_wf [OF gt] good_wf [OF moved_good [OF un]], of p]
    show ?thesis
    proof (cases "flat taken p")
      case None
      have "hits taken p \<Longrightarrow> flat un p \<noteq> Some x" using h None un' [of p x] by auto
      moreover have "flat un p = Some y \<Longrightarrow> \<not> hits taken p" for y using h None un' [of p y] by auto
      ultimately show ?thesis using o None by auto
    next
      case (Some y)
      then show ?thesis using o un' [of p x] sub_t [of p] by auto
    qed
  qed
  have "flat (overlay b (subtract b applied tf) result) q = Some x \<longleftrightarrow>
      (\<exists>f' \<in> set (fs @ [f]). \<exists>p. moves f' x q p \<and> flat t p = Some x)" for q x
    using res [of q x] excl [of q x] moved_iff [OF applied, of q x] ri [of q x] by auto
  moreover have "flat (overlay b taken un) p = Some x \<longleftrightarrow>
      flat t p = Some x \<and> (\<exists>f' \<in> set (fs @ [f]). \<exists>q. moves f' x q p)" for p x
    using tak [of p x] un' [of p x] ti [of p x] by auto
  ultimately show ?thesis
    unfolding composed_def fst_conv snd_conv
    using gs gr gt moved_good [OF un] good_overlay [OF bz] by blast
qed

lemma composed_fold:
  assumes bz: "bisect_ok (bz E)" and t: "good t"
    and "list_all2 (\<lambda>f u. moved_tree f t u) gs us" "list_all2 (\<lambda>f g. inverse f g) gs is"
    and "\<forall>f \<in> set gs. applies E n f \<and> reloc f" "\<forall>g \<in> set is. applies E n g"
    and "sorted_wrt apart (fs @ gs)" "composed fs t st"
  shows "\<exists>st'. foldS (compose_step E (runs E n)) st (zip gs us) c = Some (Inr st', c) \<and> composed (fs @ gs) t st'"
  using assms(3-)
proof (induction gs us arbitrary: "is" fs st rule: list_all2_induct)
  case Nil
  then show ?case by (simp add: liftR_def)
next
  case (Cons f gs u us)
  then obtain g is' where is': "is = g # is'" "inverse f g" "list_all2 inverse gs is'" by (auto simp: list_all2_Cons1)
  obtain result taken where st: "st = (result, taken)" by (cases st)
  then have good: "good taken" using Cons.prems by (simp add: composed_def)
  have af: "applies E n f" "applies E n g" "reloc f" using Cons.prems is' by auto
  obtain tf where tf: "r_apply (runs E n) f (from_tree taken) c = Some (Inr (from_tree tf), c)" "moved_tree f taken tf"
    using appliesE [OF af(1), of "from_tree taken" c] good by auto
  obtain un where un: "r_apply (runs E n) g (from_tree u) c = Some (Inr (from_tree un), c)" "moved_tree g u un"
    using appliesE [OF af(2), of "from_tree u" c] moved_good [OF Cons.hyps(1)] by auto
  let ?st = "(overlay (bz E) (subtract (bz E) u tf) result, overlay (bz E) taken un)"
  have step: "compose_step E (runs E n) st (f, u) c = Some (Inr ?st, c)"
    using tf(1) un(1) is'(2) st by (simp add: compose_step_def Let_def bindS_def liftR_def inverse_def)
  have "\<forall>f' \<in> set fs. apart f' f" using Cons.prems(4) by (auto simp: sorted_wrt_append)
  from composed_step [OF bz t _ af(3) is'(2) this Cons.hyps(1) tf(2) un(2), of result] Cons.prems(5) st
  have "composed (fs @ [f]) t ?st" by simp
  from Cons.IH [OF is'(3) _ _ _ this] Cons.prems is' step show ?case by (simp add: bindS_def)
qed

lemma moved_compose:
  assumes bz: "bisect_ok (bz E)" and f: "reloc (Compose fs)"
    and ap: "\<forall>f \<in> set fs. applies E n f" "\<forall>f \<in> set fs. \<forall>g. inverse f g \<longrightarrow> applies E n g"
    and t: "good (rw_tree x)"
  shows "\<exists>u. apply_compose E (runs E n) fs x c = Some (Inr (with_tree x u), c) \<and> moved_tree (Compose fs) (rw_tree x) u"
proof -
  obtain us where us: "mapS (\<lambda>f. r_apply (runs E n) f x) fs c = Some (Inr (map (with_tree x) us), c)"
    "list_all2 (\<lambda>f u. moved_tree f (rw_tree x) u) fs us"
    using mapS_applies [OF ap(1) t, of c] by blast
  have "\<forall>f \<in> set fs. \<exists>g. inverse f g" using f inverse_exists by (auto simp: list_all_iff)
  from list_all2_choice [OF this] obtain gs where gs: "list_all2 inverse fs gs" ..
  then have "\<forall>g \<in> set gs. applies E n g" using ap(2)
    by (metis in_set_conv_nth list_all2_conv_all_nth)
  moreover have "composed [] (rw_tree x) (empty_id, empty_id)" by (simp add: composed_def)
  ultimately obtain st where st: "foldS (compose_step E (runs E n)) (empty_id, empty_id) (zip fs us) c = Some (Inr st, c)"
    "composed fs (rw_tree x) st"
    using composed_fold [OF bz t us(2) gs, of n "[]" "(empty_id, empty_id)" c] f ap(1) by (auto simp: list_all_iff)
  have "apply_compose E (runs E n) fs x c = Some (Inr (with_tree x (fst st)), c)"
    using us(1) st(1) by (simp add: apply_compose_def compose_trees_def bindS_def liftR_def comp_def)
  moreover have "moved_tree (Compose fs) (rw_tree x) (fst st)"
    using st(2) by (auto simp: composed_def moved_tree_def)
  ultimately show ?thesis by blast
qed

subsection \<open>Chains\<close>

lemma moved_chain:
  assumes "\<forall>f \<in> set fs. applies E n f" "good (rw_tree x)"
  shows "\<exists>u. apply_chain (runs E n) fs x c = Some (Inr (with_tree x u), c) \<and> moved_tree (Chain fs) (rw_tree x) u"
  using assms
proof (induction fs arbitrary: x)
  case Nil
  have "moved_tree (Chain []) (rw_tree x) (rw_tree x)" using Nil by (auto simp: moved_tree_def)
  then show ?case by (intro exI [of _ "rw_tree x"]) (simp add: apply_chain_def liftR_def)
next
  case (Cons f fs)
  obtain u where u: "r_apply (runs E n) f x c = Some (Inr (with_tree x u), c)" "moved_tree f (rw_tree x) u"
    using Cons.prems by (auto intro: appliesE [OF _ Cons.prems(2), of E n f c])
  with Cons.IH [of "with_tree x u"] Cons.prems obtain v where
    v: "apply_chain (runs E n) fs (with_tree x u) c = Some (Inr (with_tree x v), c)" "moved_tree (Chain fs) u v"
    by (auto dest: moved_good)
  have "moved_tree (Chain (f # fs)) (rw_tree x) v"
    unfolding moved_tree_def
  proof (intro conjI allI)
    show "good v" by (rule moved_good [OF v(2)])
    show "flat v q = Some y \<longleftrightarrow> (\<exists>p. moves (Chain (f # fs)) y q p \<and> flat (rw_tree x) p = Some y)" for q y
      using moved_iff [OF v(2), of q y] moved_iff [OF u(2), of _ y] by auto
  qed
  then show ?case using u(1) v(1) by (auto simp: apply_chain_def bindS_def)
qed

subsection \<open>All filters that move files\<close>

lemma apply_peel: "apply_step E R (Meta m f) x = apply_step E R f x"
  by (simp add: apply_step_def)

lemma moved_meta: "moved_tree (Meta m f) t u \<longleftrightarrow> moved_tree f t u"
  by (simp add: moved_tree_def)

lemma applies_Meta: "applies E n (Meta m f) \<longleftrightarrow> applies E n f"
  by (cases n) (simp_all add: applies_def apply_peel moved_meta)

lemma applies_reloc:
  assumes bz: "bisect_ok (bz E)"
  shows "reloc f \<Longrightarrow> height f < n \<Longrightarrow> applies E n f"
proof (induction "Filter_Op.nodes f" arbitrary: f n rule: less_induct)
  case less
  from less.prems(2) obtain k where n: "n = Suc k" by (cases n) auto
  have sub: "applies E k g" "\<And>h. inverse g h \<Longrightarrow> applies E k h"
    if g: "g \<in> set fs" and fs: "f = Chain fs \<or> f = Compose fs" for g fs
  proof -
    have r: "reloc g" "height g < k" "Filter_Op.nodes g < Filter_Op.nodes f"
      using less.prems g fs n height_elem [OF g] nodes_elem [OF g] by (auto simp: list_all_iff)
    then show "applies E k g" using less.hyps by blast
    show "applies E k h" if h: "inverse g h" for h
      using less.hyps [of h k] r h nodes_invert [of g h] by (auto simp: inverse_def)
  qed
  have leaf: "applies E (Suc k) f"
    if "\<And>x. good (rw_tree x) \<Longrightarrow> \<exists>u. apply_step E (runs E k) f x = returnS (with_tree x u) \<and> moved_tree f (rw_tree x) u"
    unfolding applies_def using that by (fastforce simp: liftR_def)
  have same: "moved_tree Nop t t" if "good t" for t using that by (auto simp: moved_tree_def)
  have none: "moved_tree Empty t empty_id" for t by (simp add: moved_tree_def)
  show ?case unfolding n
  proof (cases f rule: reloc.cases)
    case 1
    then show "applies E (Suc k) f"
      using same by (intro leaf exI [of _ "rw_tree x" for x]) (auto simp: apply_step_def)
  next
    case 2
    then show "applies E (Suc k) f"
      using none by (intro leaf exI [of _ empty_id]) (auto simp: apply_step_def)
  next
    case (3 p)
    then show "applies E (Suc k) f"
      using less.prems moved_subdir [of p] by (intro leaf) (fastforce simp: apply_step_def)
  next
    case (4 p)
    then show "applies E (Suc k) f"
      using less.prems moved_prefix [OF bz, of p] by (intro leaf) (fastforce simp: apply_step_def)
  next
    case (5 dst src)
    then show "applies E (Suc k) f"
      using less.prems moved_file [OF bz, of dst src] by (intro leaf) (fastforce simp: apply_step_def)
  next
    case (6 glob)
    then show "applies E (Suc k) f"
      using less.prems moved_pattern [of glob] by (intro leaf) (fastforce simp: apply_step_def)
  next
    case (7 fs)
    then show "applies E (Suc k) f"
      using moved_chain [of fs E k] sub [of _ fs] by (auto simp: applies_def apply_step_def)
  next
    case (8 fs)
    then show "applies E (Suc k) f"
      using moved_compose [OF bz, of fs k] sub [of _ fs] less.prems by (auto simp: applies_def apply_step_def)
  next
    case (9 m g)
    then show "applies E (Suc k) f"
      using less.hyps [of g "Suc k"] less.prems n by (simp add: applies_Meta)
  qed (use less.prems in auto)
qed

end
