(* ===== verification/Apply_Fuel.thy ===== *)
theory Apply_Fuel imports Apply begin

text \<open>
  Fuel only decides whether a computation finishes: with more fuel the same result comes out. Every
  step function is monotone in the functions it calls, for the order in which running out of fuel is least.
\<close>

named_theorems run_mono

definition le_run :: "'a run \<Rightarrow> 'a run \<Rightarrow> bool" where
  "le_run m m' \<longleftrightarrow> (\<forall>c r. m c = Some r \<longrightarrow> m' c = Some r)"

definition le_runner :: "runner \<Rightarrow> runner \<Rightarrow> bool" where
  "le_runner R S \<longleftrightarrow> (\<forall>f x. le_run (r_apply R f x) (r_apply S f x)) \<and>
    (\<forall>f t. le_run (r_legalize R f t) (r_legalize S f t)) \<and>
    (\<forall>f t p cs. le_run (r_unapply R f t p cs) (r_unapply S f t p cs))"

subsection \<open>Combinators\<close>

lemma le_run_refl [run_mono, simp]: "le_run m m"
  by (simp add: le_run_def)

lemma le_bindS [run_mono]: "le_run m m' \<Longrightarrow> (\<And>x. le_run (f x) (f' x)) \<Longrightarrow> le_run (bindS m f) (bindS m' f')"
  unfolding le_run_def bindS_def by (fastforce split: option.splits prod.splits sum.splits)

lemma le_orS [run_mono]: "le_run m m' \<Longrightarrow> le_run (orS m d) (orS m' d)"
  unfolding le_run_def orS_def by (fastforce split: option.splits prod.splits sum.splits)

lemma le_mapS [run_mono]: "(\<And>x. le_run (f x) (f' x)) \<Longrightarrow> le_run (mapS f xs) (mapS f' xs)"
  by (induction xs) (simp_all add: run_mono)

lemma le_foldS [run_mono]: "(\<And>a x. le_run (f a x) (f' a x)) \<Longrightarrow> le_run (foldS f a xs) (foldS f' a xs)"
  by (induction xs arbitrary: a) (simp_all add: run_mono)

lemma le_if [run_mono]: "le_run a a' \<Longrightarrow> le_run b b' \<Longrightarrow> le_run (if P then a else b) (if P then a' else b')"
  by simp

lemma le_option [run_mono]:
  "le_run a a' \<Longrightarrow> (\<And>x. le_run (f x) (f' x)) \<Longrightarrow>
    le_run (case v of None \<Rightarrow> a | Some x \<Rightarrow> f x) (case v of None \<Rightarrow> a' | Some x \<Rightarrow> f' x)"
  by (simp split: option.split)

lemma le_sum [run_mono]:
  "(\<And>x. le_run (f x) (f' x)) \<Longrightarrow> (\<And>x. le_run (g x) (g' x)) \<Longrightarrow>
    le_run (case v of Inl x \<Rightarrow> f x | Inr x \<Rightarrow> g x) (case v of Inl x \<Rightarrow> f' x | Inr x \<Rightarrow> g' x)"
  by (simp split: sum.split)

lemma le_lazy [run_mono]:
  "(\<And>x. le_run (f x) (f' x)) \<Longrightarrow> (\<And>x. le_run (g x) (g' x)) \<Longrightarrow>
    le_run (case v of Lazy x \<Rightarrow> f x | Resolved x \<Rightarrow> g x) (case v of Lazy x \<Rightarrow> f' x | Resolved x \<Rightarrow> g' x)"
  by (simp split: lazy_ref.split)

lemma le_runner_fields [run_mono]:
  assumes "le_runner R S"
  shows "le_run (r_apply R f x) (r_apply S f x)" "le_run (r_legalize R f t) (r_legalize S f t)"
    "le_run (r_unapply R f t p cs) (r_unapply S f t p cs)"
  using assms by (simp_all add: le_runner_def)

lemma le_pointwise: "(\<And>c. le_run (f c) (f' c)) \<Longrightarrow> le_run (\<lambda>c. f c c) (\<lambda>c. f' c c)"
  by (simp add: le_run_def)

lemma le_at: "le_run m m' \<Longrightarrow> le_run (\<lambda>_. m (g c)) (\<lambda>_. m' (g c))"
  by (simp add: le_run_def)

subsection \<open>The operators\<close>

lemma le_compose_step [run_mono]: "le_runner R S \<Longrightarrow> le_run (compose_step E R st fa) (compose_step E S st fa)"
  unfolding compose_step_def Let_def by (intro run_mono)

lemma le_apply_compose [run_mono]: "le_runner R S \<Longrightarrow> le_run (apply_compose E R fs x) (apply_compose E S fs x)"
  unfolding apply_compose_def compose_trees_def by (intro run_mono)

lemma le_apply_ops [run_mono]:
  assumes "le_runner R S"
  shows "le_run (apply_chain R fs x) (apply_chain S fs x)"
    "le_run (apply_subtract E R a b x) (apply_subtract E S a b x)"
    "le_run (apply_exclude E R b x) (apply_exclude E S b x)"
    "le_run (apply_select E R b x) (apply_select E S b x)"
    "le_run (apply_tree_id E R p f x) (apply_tree_id E S p f x)"
    "le_run (get_link_roots E R t) (get_link_roots E S t)"
    "le_run (apply_unapply E R target f x) (apply_unapply E S target f x)"
  unfolding apply_chain_def apply_subtract_def apply_exclude_def apply_select_def apply_tree_id_def
    get_link_roots_def apply_unapply_def
  by (intro run_mono assms)+

lemma le_unwrap [run_mono]:
  "le_run m m' \<Longrightarrow>
    le_run (\<lambda>c. case m c of None \<Rightarrow> None | Some (Inl _, c') \<Rightarrow> Some (Inl e, c') | Some (Inr y, c') \<Rightarrow> Some (Inr y, c'))
     (\<lambda>c. case m' c of None \<Rightarrow> None | Some (Inl _, c') \<Rightarrow> Some (Inl e, c') | Some (Inr y, c') \<Rightarrow> Some (Inr y, c'))"
  unfolding le_run_def by (fastforce split: option.splits prod.splits sum.splits)

lemma le_apply_one_link [run_mono]:
  assumes "le_runner R S"
  shows "le_run (apply_one_link E R mode t link) (apply_one_link E S mode t link)"
  unfolding apply_one_link_def by (intro run_mono assms)

lemma le_apply_link [run_mono]:
  assumes "le_runner R S"
  shows "le_run (apply_link E R mode x) (apply_link E S mode x)"
  unfolding apply_link_def by (intro run_mono assms)

subsection \<open>Workspaces, stored filters and their resolution\<close>

lemma le_cached [run_mono]:
  assumes "le_run m m'"
  shows "le_run (\<lambda>c. case look c of Some f \<Rightarrow> Some (Inr f, c) | None \<Rightarrow> m (pre c))
    (\<lambda>c. case look c of Some f \<Rightarrow> Some (Inr f, c) | None \<Rightarrow> m' (pre c))"
  using assms unfolding le_run_def by (auto split: option.split)

lemma le_get_filter [run_mono]:
  assumes "le_runner R S"
  shows "le_run (get_filter E R t p) (get_filter E S t p)"
  unfolding get_filter_def
  by (intro le_option le_run_refl le_cached [where pre = "\<lambda>c. c"] le_bindS le_orS le_runner_fields(2) [OF assms])

lemma le_getters [run_mono]:
  assumes "le_runner R S"
  shows "le_run (get_workspace E R t p) (get_workspace E S t p)"
    "le_run (get_stored E R t p) (get_stored E S t p)"
    "le_run (get_starlark E R t p s) (get_starlark E S t p s)"
  unfolding get_workspace_def get_stored_def get_starlark_def Let_def by (intro run_mono assms)+

lemma le_chain_legalize [run_mono]:
  assumes "le_runner R S"
  shows "le_run (chain_legalize E R t u fs) (chain_legalize E S t u fs)"
  by (induction fs arbitrary: u) (simp, simp only: chain_legalize.simps, intro run_mono assms, assumption)

lemma le_legalize_op [run_mono]:
  assumes "le_runner R S"
  shows "le_run (legalize_op E R f t) (legalize_op E S f t)"
  unfolding legalize_op_def Let_def by (cases f) (simp_all add: run_mono assms)

lemma le_legalize_step [run_mono]:
  assumes "le_runner R S"
  shows "le_run (legalize_step E R f t) (legalize_step E S f t)"
  unfolding legalize_step_def
  by (intro le_if le_run_refl le_cached le_bindS le_legalize_op [OF assms])

lemma le_apply_dynamic [run_mono]:
  assumes "le_runner R S" "le_run g g'"
  shows "le_run (apply_dynamic R g x) (apply_dynamic S g' x)"
  unfolding apply_dynamic_def by (intro run_mono assms)

lemma le_apply_step [run_mono]:
  assumes "le_runner R S"
  shows "le_run (apply_step E R f x) (apply_step E S f x)"
  unfolding apply_step_def by (cases "peel f") (simp_all add: run_mono assms)

subsection \<open>Reversal\<close>

lemma le_reverse [run_mono]:
  assumes "le_runner R S"
  shows "le_run (reverse_strip_overlay E R f orig t p) (reverse_strip_overlay E S f orig t p)"
  unfolding reverse_strip_overlay_def Let_def by (intro run_mono assms)

lemma le_unapply_kinds [run_mono]:
  assumes "le_runner R S"
  shows "le_run (unapply_workspace E R d t p) (unapply_workspace E S d t p)"
    "le_run (unapply_stored E R d t p) (unapply_stored E S d t p)"
  unfolding unapply_workspace_def unapply_stored_def Let_def by (intro run_mono assms)+

lemma le_unapply_per_rev [run_mono]:
  assumes "le_runner R S"
  shows "le_run (unapply_per_rev_filter E R op t p cs) (unapply_per_rev_filter E S op t p cs)"
  unfolding unapply_per_rev_filter_def
  by (cases op; cases cs) (auto simp: is_commit_resolved_filter_def intro!: run_mono assms)

lemma le_unapply_chain [run_mono]:
  assumes "le_runner R S"
  shows "le_run (unapply_chain E R fs t p cs) (unapply_chain E S fs t p cs)"
proof (cases fs rule: remdups_adj.cases)
  case (3 f g fs)
  show ?thesis unfolding 3 unapply_chain_def list.case
    by (cases cs) (auto intro!: run_mono assms)
qed (simp_all add: unapply_chain_def run_mono assms)

lemma le_unapply_step [run_mono]:
  assumes "le_runner R S"
  shows "le_run (unapply_step E R f t p cs) (unapply_step E S f t p cs)"
  unfolding unapply_step_def Let_def
  by (intro run_mono assms) (cases "peel f"; simp add: run_mono assms)

subsection \<open>More fuel\<close>

lemma le_runs_Suc: "le_runner (runs E n) (runs E (Suc n))"
proof (induction n)
  case 0
  show ?case by (simp add: le_runner_def le_run_def)
next
  case (Suc n)
  show ?case
    using le_apply_step [OF Suc] le_legalize_step [OF Suc] le_unapply_step [OF Suc]
    by (subst (2) runs.simps(2), subst (1) runs.simps(2), simp only: le_runner_def runner.simps) blast
qed

lemma le_run_trans: "le_run a b \<Longrightarrow> le_run b d \<Longrightarrow> le_run a d"
  by (simp add: le_run_def)

lemma le_runD: "le_run m m' \<Longrightarrow> m c = Some r \<Longrightarrow> m' c = Some r"
  unfolding le_run_def by blast

lemma le_runner_trans: "le_runner R S \<Longrightarrow> le_runner S T \<Longrightarrow> le_runner R T"
  unfolding le_runner_def by (meson le_run_trans)

lemma le_runs: "n \<le> m \<Longrightarrow> le_runner (runs E n) (runs E m)"
proof (induction rule: dec_induct)
  case base
  show ?case by (simp add: le_runner_def)
next
  case (step k)
  then show ?case using le_runner_trans le_runs_Suc by blast
qed

subsection \<open>A concrete environment\<close>

definition bare_env :: env where
  "bare_env = \<lparr> quote = \<lambda>s. s, oid_str = \<lambda>_. [], bz = bisect_lin, oid_from_str = \<lambda>_. None, parse = \<lambda>_. Inr Nop,
     get_comments = \<lambda>_. None, regex_replacen = \<lambda>_ s _. s, captures_iter = \<lambda>_ s. ([], s),
     strfmt_map = \<lambda>s _. Inr s, commit_of = \<lambda>_. None, raw_oid = \<lambda>_. [], history = [], experimental = False,
     trigram_index = Inr, starlark_evaluate = \<lambda>_ _. Inr Nop, gitmodules = \<lambda>_. None,
     filter_hook = \<lambda>_ _. Inr Nop, opt_fuel = 0 \<rparr>"

definition empty_caches :: caches where
  "empty_caches = \<lparr> workspaces = [], legalize_map = [], graph = \<lparr> seq_hints = Map.empty, root_blobs = Map.empty \<rparr> \<rparr>"

lemma bisect_bare [simp]: "bisect_ok (bz bare_env)"
  by (simp add: bare_env_def bisect_ok_lin)

text \<open>
  When a run of \<^verbatim>\<open>apply\<close>, \<^verbatim>\<open>unapply\<close> or \<^verbatim>\<open>legalize_stored\<close> finishes,
  the run with any larger fuel finishes with the same result or error and the same caches.
\<close>

lemma fuel_irrelevant:
  assumes "n \<le> m"
  shows "(apply_filter E n f x c = Some r \<longrightarrow> apply_filter E m f x c = Some r) \<and>
    (unapply E n f s t cs c = Some u \<longrightarrow> unapply E m f s t cs c = Some u) \<and>
    (legalize_stored E n f t c = Some l \<longrightarrow> legalize_stored E m f t c = Some l)"
  unfolding apply_filter_def unapply_def legalize_stored_def
  by (intro conjI impI; erule le_runD [OF le_runner_fields(1) [OF le_runs [OF assms]]]
    le_runD [OF le_runner_fields(2) [OF le_runs [OF assms]]] le_runD [OF le_runner_fields(3) [OF le_runs [OF assms]]])

end
