(* ===== verification/Lens.thy ===== *)
theory Lens
  imports Moves_Apply Apply_Fuel
begin

text \<open>
  The contract that the comment of \<^verbatim>\<open>unapply\<close> states, for filters that move files: filtering the reversed
  tree gives the tree that was reversed, and the reversed tree differs from the parent tree as little as possible.
\<close>

subsection \<open>One-to-one relations between paths\<close>

locale file_moves =
  fixes M :: "'x \<Rightarrow> 'p \<Rightarrow> 'p \<Rightarrow> bool"
  assumes source_unique: "M x q p \<Longrightarrow> M x q p' \<Longrightarrow> p = p'"
    and target_unique: "M x q p \<Longrightarrow> M x q' p \<Longrightarrow> q = q'"
begin

lemma there_and_back: "(\<exists>q. M x q p \<and> (\<exists>p'. M x q p' \<and> P p')) \<longleftrightarrow> P p \<and> (\<exists>q. M x q p)"
  using source_unique by blast

lemma back_and_there: "(\<exists>p. M x q p \<and> (\<exists>q'. M x q' p \<and> P q')) \<longleftrightarrow> P q \<and> (\<exists>p. M x q p)"
  using target_unique by blast

end

text \<open>What a filter that moves files does to paths.\<close>

definition mv :: "filt \<Rightarrow> leaf \<Rightarrow> names \<Rightarrow> names \<Rightarrow> bool" where
  "mv f x q p \<longleftrightarrow> reloc f \<and> moves f x q p"

interpretation mv: file_moves "mv f" for f
  by unfold_locales (auto simp: mv_def intro: moves_functional moves_injective)

lemma mv_reloc: "reloc f \<Longrightarrow> mv f x q p \<longleftrightarrow> moves f x q p"
  by (simp add: mv_def)

subsection \<open>Reversal of a filter that moves files\<close>

text \<open>
  \<open>put_tree f s t u\<close>: the tree \<open>u\<close> holds the files of \<open>s\<close> moved back, over those files of \<open>t\<close> that
  the filter does not show.
\<close>

definition put_tree :: "env \<Rightarrow> filt \<Rightarrow> obj \<Rightarrow> obj \<Rightarrow> obj \<Rightarrow> bool" where
  "put_tree E f s t u \<longleftrightarrow>
    (\<exists>moved rest. u = overlay (bz E) moved rest \<and> good moved \<and> good rest \<and>
      (\<forall>p x. flat moved p = Some x \<longleftrightarrow> (\<exists>q. moves f x q p \<and> flat s q = Some x)) \<and>
      (\<forall>p x. flat rest p = Some x \<longleftrightarrow> flat t p = Some x \<and> \<not> (\<exists>q. moves f x q p)))"

lemma put_treeE:
  assumes "put_tree E f s t u"
  obtains moved rest where "u = overlay (bz E) moved rest" "good moved" "good rest"
    "\<And>p x. flat moved p = Some x \<longleftrightarrow> (\<exists>q. moves f x q p \<and> flat s q = Some x)"
    "\<And>p x. flat rest p = Some x \<longleftrightarrow> flat t p = Some x \<and> \<not> (\<exists>q. moves f x q p)"
proof -
  from assms obtain moved rest where u: "u = overlay (bz E) moved rest" "good moved" "good rest"
    "\<forall>p x. flat moved p = Some x \<longleftrightarrow> (\<exists>q. moves f x q p \<and> flat s q = Some x)"
    "\<forall>p x. flat rest p = Some x \<longleftrightarrow> flat t p = Some x \<and> \<not> (\<exists>q. moves f x q p)"
    unfolding put_tree_def by blast
  show thesis by (rule that [OF u(1-3)]) (use u(4,5) in blast)+
qed

lemma subtract_part:
  assumes bz: "bisect_ok b" and t: "good t" "good m"
    and m: "\<And>p x. flat m p = Some x \<longleftrightarrow> flat t p = Some x \<and> P p x"
  shows "flat (subtract b t m) p = Some x \<longleftrightarrow> flat t p = Some x \<and> \<not> P p x"
proof -
  have sub: "flat m q \<noteq> None \<Longrightarrow> flat m q = flat t q" for q using m by (cases "flat m q") auto
  show ?thesis
  proof (cases "flat t p")
    case (Some y)
    then have "hits m p \<longleftrightarrow> flat m p \<noteq> None" using hits_subset [OF good_wf [OF t(1)] good_wf [OF t(2)] _ sub] by blast
    moreover have "flat m p \<noteq> None \<longleftrightarrow> P p y" using sub [of p] m [of p y] Some by auto
    ultimately show ?thesis
      using flat_subtract_hits [OF bz good_wf [OF t(1)] good_wf [OF t(2)], of p] Some by (cases "P p y") auto
  qed (simp add: flat_subtract_hits [OF bz good_wf [OF t(1)] good_wf [OF t(2)]])
qed

lemma unapply_reloc:
  assumes bz: "bisect_ok (bz E)" and f: "reloc f" "height f < n" and s: "good s" and t: "good t"
  shows "\<exists>u. unapply E (Suc n) f s t cs c = Some (Inr u, c) \<and> put_tree E f s t u"
proof -
  obtain g where g: "inverse f g" using inverse_exists [OF f(1)] ..
  then have i: "invert f = Inr g" "invert g = Inr f" "reloc g" "height g < n" using f(2) by (simp_all add: inverse_def)
  note af = applies_reloc [OF bz f] and ag = applies_reloc [OF bz i(3,4)]
  obtain v where v: "r_apply (runs E n) f (from_tree t) c = Some (Inr (from_tree v), c)" "moved_tree f t v"
    using appliesE [OF af, of "from_tree t" c] t by auto
  obtain m where m: "r_apply (runs E n) g (from_tree v) c = Some (Inr (from_tree m), c)" "moved_tree g v m"
    using appliesE [OF ag, of "from_tree v" c] moved_good [OF v(2)] by auto
  obtain moved where moved: "r_apply (runs E n) g (from_tree s) c = Some (Inr (from_tree moved), c)" "moved_tree g s moved"
    using appliesE [OF ag, of "from_tree s" c] s by auto
  have mm: "flat m p = Some x \<longleftrightarrow> flat t p = Some x \<and> (\<exists>q. moves f x q p)" for p x
    using moved_iff [OF m(2), of p x] moved_iff [OF v(2), of _ x] inverse_moves [OF g]
      mv.there_and_back [of f x p "\<lambda>p. flat t p = Some x"] by (simp add: mv_reloc [OF f(1)])
  let ?rest = "subtract (bz E) t m"
  have rest: "flat ?rest p = Some x \<longleftrightarrow> flat t p = Some x \<and> \<not> (\<exists>q. moves f x q p)" for p x
    by (rule subtract_part [OF bz t moved_good [OF m(2)]]) (rule mm)
  have moved': "flat moved p = Some x \<longleftrightarrow> (\<exists>q. moves f x q p \<and> flat s q = Some x)" for p x
    using moved_iff [OF moved(2), of p x] inverse_moves [OF g] by simp
  have "put_tree E f s t (overlay (bz E) moved ?rest)"
    unfolding put_tree_def using rest moved' moved_good [OF moved(2)] good_subtract [OF bz t moved_good [OF m(2)]] by blast
  moreover have "unapply E (Suc n) f s t cs c = Some (Inr (overlay (bz E) moved ?rest), c)"
    using v(1) m(1) moved(1) i by (simp add: unapply_def unapply_step_def bindS_def liftR_def Let_def)
  ultimately show ?thesis by blast
qed

lemma flat_put:
  assumes "bisect_ok (bz E)" "put_tree E f s t u"
  obtains moved where "good moved" "good u"
    "\<And>p x. flat moved p = Some x \<longleftrightarrow> (\<exists>q. moves f x q p \<and> flat s q = Some x)"
    "\<And>p x. flat u p = Some x \<longleftrightarrow>
      flat moved p = Some x \<or> flat moved p = None \<and> \<not> hits moved p \<and> flat t p = Some x \<and> \<not> (\<exists>q. moves f x q p)"
proof -
  obtain moved rest where u: "u = overlay (bz E) moved rest" "good moved" "good rest"
    "\<And>p x. flat moved p = Some x \<longleftrightarrow> (\<exists>q. moves f x q p \<and> flat s q = Some x)"
    "\<And>p x. flat rest p = Some x \<longleftrightarrow> flat t p = Some x \<and> \<not> (\<exists>q. moves f x q p)"
    by (rule put_treeE [OF assms(2)]) blast
  have "flat u p = Some x \<longleftrightarrow>
      flat moved p = Some x \<or> flat moved p = None \<and> \<not> hits moved p \<and> flat t p = Some x \<and> \<not> (\<exists>q. moves f x q p)" for p x
    using flat_overlay_hits [OF assms(1) good_wf [OF u(2)] good_wf [OF u(3)], of p] u(1) u(5) [of p x]
    by (cases "flat moved p") (auto split: if_splits)
  with u that [of moved] good_overlay [OF assms(1)] show thesis by blast
qed

subsection \<open>The laws\<close>

lemma put_shown:
  assumes bz: "bisect_ok (bz E)" and f: "reloc f" and s: "moved_tree f r s" and "put_tree E f s t u" "moved_tree f u v"
  shows "v = s"
proof -
  obtain moved where m: "good moved" "good u"
    "\<And>p x. flat moved p = Some x \<longleftrightarrow> (\<exists>q. moves f x q p \<and> flat s q = Some x)"
    "\<And>p x. flat u p = Some x \<longleftrightarrow>
      flat moved p = Some x \<or> flat moved p = None \<and> \<not> hits moved p \<and> flat t p = Some x \<and> \<not> (\<exists>q. moves f x q p)"
    by (rule flat_put [OF bz assms(4)]) blast
  have "flat v q = Some x \<longleftrightarrow> flat s q = Some x" for q x
  proof -
    have "flat v q = Some x \<longleftrightarrow> (\<exists>p. moves f x q p \<and> flat moved p = Some x)"
      using moved_iff [OF assms(5), of q x] m(4) [of _ x] by blast
    also have "\<dots> \<longleftrightarrow> flat s q = Some x \<and> (\<exists>p. moves f x q p)"
      using m(3) [of _ x] mv.back_and_there [of f x q "\<lambda>q. flat s q = Some x"] by (simp add: mv_reloc [OF f])
    also have "\<dots> \<longleftrightarrow> flat s q = Some x" using moved_iff [OF s, of q x] by blast
    finally show ?thesis .
  qed
  then show ?thesis by (intro view_ext moved_good [OF s] moved_good [OF assms(5)])
qed

lemma put_minimal:
  assumes bz: "bisect_ok (bz E)" and f: "reloc f" and r: "good r" and s: "moved_tree f r s" and "put_tree E f s t u"
    and same: "flat r p = flat t p"
  shows "flat u p = flat t p"
proof -
  obtain moved where m: "good moved" "good u"
    "\<And>p x. flat moved p = Some x \<longleftrightarrow> (\<exists>q. moves f x q p \<and> flat s q = Some x)"
    "\<And>p x. flat u p = Some x \<longleftrightarrow>
      flat moved p = Some x \<or> flat moved p = None \<and> \<not> hits moved p \<and> flat t p = Some x \<and> \<not> (\<exists>q. moves f x q p)"
    by (rule flat_put [OF bz assms(5)]) blast
  have mr: "flat moved p = Some x \<longleftrightarrow> flat r p = Some x \<and> (\<exists>q. moves f x q p)" for p x
    using m(3) [of p x] moved_iff [OF s, of _ x]
      mv.there_and_back [of f x p "\<lambda>p. flat r p = Some x"] by (simp add: mv_reloc [OF f])
  have sub: "flat moved q \<noteq> None \<Longrightarrow> flat moved q = flat r q" for q using mr by (cases "flat moved q") auto
  show ?thesis
  proof (cases "flat t p")
    case None
    then have "flat u p \<noteq> Some x" for x using m(4) [of p x] mr [of p x] same by auto
    then show ?thesis using None by (cases "flat u p") auto
  next
    case (Some x)
    have "hits moved p \<longleftrightarrow> flat moved p \<noteq> None"
      using hits_subset [OF good_wf [OF r] good_wf [OF m(1)] _ sub, of p] Some same by simp
    moreover have "flat moved p \<noteq> None \<Longrightarrow> flat moved p = Some x" using sub [of p] Some same by simp
    ultimately show ?thesis using m(4) [of p x] mr [of p x] Some same by metis
  qed
qed

lemma put_good: "bisect_ok (bz E) \<Longrightarrow> put_tree E f s t u \<Longrightarrow> good u"
  unfolding put_tree_def using good_overlay by blast

lemma put_unchanged:
  assumes "bisect_ok (bz E)" "reloc f" "good t" "moved_tree f t s" "put_tree E f s t u"
  shows "u = t"
  using assms put_good [OF assms(1,5)] put_minimal [OF assms(1,2,3,4,5)] by (intro view_ext) simp_all

lemma apply_reloc:
  assumes "bisect_ok (bz E)" "reloc f" "height f < n" "good t"
  shows "\<exists>s. apply_filter E n f (from_tree t) c = Some (Inr (from_tree s), c) \<and> moved_tree f t s"
  using appliesE [OF applies_reloc [OF assms(1-3)], of "from_tree t" c] assms(4) by (auto simp: apply_filter_def)


lemma apply_reloc_moved:
  assumes "bisect_ok (bz E)" "reloc f" "height f < n" "good t"
    "apply_filter E n f (from_tree t) c = Some (Inr (from_tree s), c)"
  shows "moved_tree f t s"
proof -
  obtain s' where "apply_filter E n f (from_tree t) c = Some (Inr (from_tree s'), c)" "moved_tree f t s'"
    using apply_reloc [OF assms(1-4)] by blast
  moreover have "from_tree s = from_tree s' \<Longrightarrow> s = s'" by (drule arg_cong [of _ _ rw_tree]) simp
  ultimately show ?thesis using assms(5) by auto
qed

subsection \<open>A workspace that moves files\<close>

text \<open>The file \<^verbatim>\<open>a\<close> as \<^verbatim>\<open>x/b\<close>, and the directory \<^verbatim>\<open>d\<close> as \<^verbatim>\<open>lib\<close>.\<close>

definition moving :: filt where
  "moving = Compose [File [Normal ''x'', Normal ''b''] [Normal ''a''],
     Chain [Subdir [Normal ''d''], Prefix [Normal ''lib'']]]"

lemma reloc_moving: "reloc moving"
proof -
  have "apart (File [Normal ''x'', Normal ''b''] [Normal ''a'']) (Chain [Subdir [Normal ''d''], Prefix [Normal ''lib'']])"
    by (auto simp: apart_def comparable_def)
  moreover have "plain_path [Normal ''x'', Normal ''b'']" "plain_path [Normal ''a'']"
    "plain_path [Normal ''d'']" "plain_path [Normal ''lib'']" by code_simp+
  ultimately show ?thesis by (simp add: moving_def)
qed

lemma good_sample1: "good sample1" "good sample2"
  by (simp_all add: good_def wf_samples) code_simp+

lemma height_moving: "height moving = 2"
  by (simp add: moving_def)

lemmas moving_ok = bisect_bare reloc_moving

text \<open>
  C4. A filter that moves files always returns on a good tree, with fuel above its nesting height,
  with no error and with the caches and the other fields of the rewrite unchanged. A file is at a path of the result
  exactly when \<open>moves\<close> brings it there from a path of the source.
\<close>

theorem apply_moves_files:
  assumes "bisect_ok (bz E)" and "reloc f" and "height f < n" and "good (rw_tree x)"
  shows "\<exists>u. apply_filter E n f x c = Some (Inr (with_tree x u), c) \<and> good u \<and>
    (\<forall>q y. flat u q = Some y \<longleftrightarrow> (\<exists>p. moves f y q p \<and> flat (rw_tree x) p = Some y))"
proof -
  obtain u where "r_apply (runs E n) f x c = Some (Inr (with_tree x u), c)" "moved_tree f (rw_tree x) u"
    by (rule appliesE [OF applies_reloc [OF assms(1-3)] assms(4)])
  then show ?thesis by (intro exI [of _ u]) (simp add: apply_filter_def moved_tree_def)
qed

theorem apply_moves_files_witness:
  "\<exists>u. apply_filter bare_env 3 moving (from_tree sample1) empty_caches =
      Some (Inr (with_tree (from_tree sample1) u), empty_caches) \<and>
    flat u [''lib'', ''y''] = Some (mode_blob, Blob ''3'') \<and> flat u [''a''] = None"
proof -
  have "height moving < 3" by (simp add: height_moving)
  from apply_moves_files [OF moving_ok this, of "from_tree sample1" empty_caches] obtain u where
    u: "apply_filter bare_env 3 moving (from_tree sample1) empty_caches =
      Some (Inr (with_tree (from_tree sample1) u), empty_caches)"
    "\<And>q y. flat u q = Some y \<longleftrightarrow> (\<exists>p. moves moving y q p \<and> flat sample1 p = Some y)"
    by (auto simp: good_sample1)
  have "flat sample1 [''d'', ''y''] = Some (mode_blob, Blob ''3'')" by code_simp
  then have "flat u [''lib'', ''y''] = Some (mode_blob, Blob ''3'')" by (auto simp: u(2) moving_def)
  moreover have "flat u [''a''] \<noteq> Some y" for y by (auto simp: u(2) moving_def)
  ultimately show ?thesis using u(1) by (cases "flat u [''a'']") auto
qed

text \<open>
  C3. The first lens law, for filters that move files: reversing the unchanged filtered tree gives the
  source tree back.
\<close>

theorem unapply_get_put:
  assumes "bisect_ok (bz E)" and "reloc f" and "height f < n" and "good t"
  shows "\<exists>s. apply_filter E n f (from_tree t) c = Some (Inr (from_tree s), c) \<and>
    unapply E (Suc n) f s t cs c = Some (Inr t, c)"
proof -
  obtain s where s: "apply_filter E n f (from_tree t) c = Some (Inr (from_tree s), c)" "moved_tree f t s"
    using apply_reloc [OF assms] by blast
  obtain u where "unapply E (Suc n) f s t cs c = Some (Inr u, c)" "put_tree E f s t u"
    using unapply_reloc [OF assms(1-3) moved_good [OF s(2)] assms(4)] by blast
  then show ?thesis using put_unchanged [OF assms(1,2,4) s(2)] s(1) by blast
qed

theorem unapply_get_put_witness:
  "\<exists>s. apply_filter bare_env 3 moving (from_tree sample1) empty_caches = Some (Inr (from_tree s), empty_caches) \<and>
    unapply bare_env 4 moving s sample1 None empty_caches = Some (Inr sample1, empty_caches)"
  using unapply_get_put [OF moving_ok, of 3 sample1 empty_caches None] by (simp add: height_moving good_sample1)

text \<open>
  C1. The second lens law, as documented for \<^verbatim>\<open>unapply\<close>: when \<open>s\<close> is the filtered form of some tree, reversing
  \<open>s\<close> over any parent tree gives a tree whose filtered form is \<open>s\<close>.
\<close>

theorem unapply_put_get:
  assumes "bisect_ok (bz E)" and "reloc f" and "height f < n" and "good t" and "good r"
    and "apply_filter E n f (from_tree r) c = Some (Inr (from_tree s), c)"
  shows "\<exists>u. unapply E (Suc n) f s t cs c = Some (Inr u, c) \<and>
    apply_filter E n f (from_tree u) c = Some (Inr (from_tree s), c)"
proof -
  note s = apply_reloc_moved [OF assms(1-3,5,6)]
  obtain u where u: "unapply E (Suc n) f s t cs c = Some (Inr u, c)" "put_tree E f s t u"
    using unapply_reloc [OF assms(1-3) moved_good [OF s] assms(4)] by blast
  obtain v where "apply_filter E n f (from_tree u) c = Some (Inr (from_tree v), c)" "moved_tree f u v"
    using apply_reloc [OF assms(1-3) put_good [OF assms(1) u(2)]] by blast
  then show ?thesis using put_shown [OF assms(1,2) s u(2)] u(1) by blast
qed

theorem unapply_put_get_witness:
  "\<exists>s u. apply_filter bare_env 3 moving (from_tree sample2) empty_caches = Some (Inr (from_tree s), empty_caches) \<and>
    unapply bare_env 4 moving s sample1 None empty_caches = Some (Inr u, empty_caches) \<and>
    apply_filter bare_env 3 moving (from_tree u) empty_caches = Some (Inr (from_tree s), empty_caches)"
proof -
  have h: "height moving < 3" by (simp add: height_moving)
  obtain s where s: "apply_filter bare_env 3 moving (from_tree sample2) empty_caches = Some (Inr (from_tree s), empty_caches)"
    using apply_reloc [OF moving_ok h good_sample1(2)] by blast
  then show ?thesis using unapply_put_get [OF moving_ok h good_sample1 s, of None] by (auto simp: numeral_eq_Suc)
qed

text \<open>
  C2. Minimality, as documented for \<^verbatim>\<open>unapply\<close>: among all trees with the filtered form \<open>s\<close>, the one that
  \<open>unapply\<close> computes changes fewest paths of the parent tree. Every path it changes is changed by each of them.
\<close>

theorem unapply_minimal:
  assumes "bisect_ok (bz E)" and "reloc f" and "height f < n" and "good t" and "good r"
    and "apply_filter E n f (from_tree r) c = Some (Inr (from_tree s), c)"
  shows "\<exists>u. unapply E (Suc n) f s t cs c = Some (Inr u, c) \<and>
    {p. flat u p \<noteq> flat t p} \<subseteq> {p. flat r p \<noteq> flat t p}"
proof -
  note s = apply_reloc_moved [OF assms(1-3,5,6)]
  obtain u where u: "unapply E (Suc n) f s t cs c = Some (Inr u, c)" "put_tree E f s t u"
    using unapply_reloc [OF assms(1-3) moved_good [OF s] assms(4)] by blast
  then show ?thesis using put_minimal [OF assms(1,2,5) s u(2)] by blast
qed

theorem unapply_minimal_witness:
  "\<exists>s u. apply_filter bare_env 3 moving (from_tree sample2) empty_caches = Some (Inr (from_tree s), empty_caches) \<and>
    unapply bare_env 4 moving s sample1 None empty_caches = Some (Inr u, empty_caches) \<and>
    {p. flat u p \<noteq> flat sample1 p} \<subseteq> {p. flat sample2 p \<noteq> flat sample1 p}"
proof -
  have h: "height moving < 3" by (simp add: height_moving)
  obtain s where s: "apply_filter bare_env 3 moving (from_tree sample2) empty_caches = Some (Inr (from_tree s), empty_caches)"
    using apply_reloc [OF moving_ok h good_sample1(2)] by blast
  then show ?thesis using unapply_minimal [OF moving_ok h good_sample1 s, of None] by (auto simp: numeral_eq_Suc)
qed

subsection \<open>Filters with links\<close>



end
