(* ===== verification/Transaction.thy ===== *)
theory Transaction
  imports Lens "HOL-Library.Product_Lexorder"
begin

text \<open>
  The state a transaction threads through the filtering of commits: the commits of the object store, the
  map from a filter and a commit to the filtered commit, the stack of persistent caches behind it, and
  the list of lookups that missed (\<^verbatim>\<open>josh-core/src/cache/transaction.rs\<close>, \<^verbatim>\<open>stack.rs\<close>, \<^verbatim>\<open>sled.rs\<close>).

  A commit is stored under the hash of its content, which is a parameter. A backend of the cache is the
  database \<^verbatim>\<open>sled\<close> seen as a map; its trees are named by the printed filter, as the code names them.
  The two caches of the history graph, which the code keeps in the same transaction under two reserved
  filters, are the field \<open>graph\<close> of \<open>caches\<close>. Memo tables of pure functions are left out, and so is
  logging.
\<close>

subsection \<open>Commits\<close>

record gcommit =
  co_tree :: obj
  co_parents :: "oid list"
  co_author :: string
  co_committer :: string
  co_encoding :: "string option"
  co_message :: string
  co_extra :: "(string \<times> string) list"

text \<open>A commit object that does not parse still shows the headers before the defect.\<close>

datatype cdata = Parsed gcommit | Unparsed "obj option" "oid list"

datatype gobj = GCommit cdata | GOther

type_synonym cstore = "(oid \<times> gobj) list"

definition commit_read :: "cstore \<Rightarrow> oid \<Rightarrow> cdata result" where
  "commit_read st oid =
    (case map_of st oid of
       None \<Rightarrow> Inl (Failed ''not found'')
     | Some GOther \<Rightarrow> Inl (Failed ''not a commit'')
     | Some (GCommit c) \<Rightarrow> Inr c)"

fun tree_id :: "cdata \<Rightarrow> obj result" where
  "tree_id (Parsed d) = Inr (co_tree d)"
| "tree_id (Unparsed t ps) = of_option (Failed ''tree id'') t"

fun parent_ids :: "cdata \<Rightarrow> oid list" where
  "parent_ids (Parsed d) = co_parents d"
| "parent_ids (Unparsed t ps) = ps"

fun parsed :: "cdata \<Rightarrow> gcommit result" where
  "parsed (Parsed d) = Inr d"
| "parsed (Unparsed t ps) = Inl (Failed ''commit does not parse'')"

definition first_parent_id :: "cdata \<Rightarrow> oid option" where
  "first_parent_id c = (case parent_ids c of [] \<Rightarrow> None | p # _ \<Rightarrow> Some p)"

definition read_tree_id :: "cstore \<Rightarrow> oid \<Rightarrow> obj result" where
  "read_tree_id st oid = bindR (commit_read st oid) tree_id"

definition graph_of :: "cstore \<Rightarrow> oid odb" where
  "graph_of st = map (\<lambda>(oid, g). (oid, case g of
      GCommit (Parsed d) \<Rightarrow> Commit (co_parents d)
    | GCommit (Unparsed t ps) \<Rightarrow> Malformed ps
    | GOther \<Rightarrow> NonCommit)) st"

subsection \<open>The stack of cache backends\<close>

text \<open>\<open>rd\<close> and \<open>wr\<close> are the methods of \<^verbatim>\<open>CacheBackend\<close> for one filter.\<close>

definition write_all :: "('b \<Rightarrow> 'k \<Rightarrow> 'v \<Rightarrow> 'b) \<Rightarrow> 'b list \<Rightarrow> 'k \<Rightarrow> 'v \<Rightarrow> 'b list" where
  "write_all wr bs k v = map (\<lambda>b. wr b k v) bs"

fun read_propagate ::
  "('b \<Rightarrow> 'k \<Rightarrow> 'v option) \<Rightarrow> ('b \<Rightarrow> 'k \<Rightarrow> 'v \<Rightarrow> 'b) \<Rightarrow> 'b list \<Rightarrow> 'k \<Rightarrow> 'v option \<times> 'b list" where
  "read_propagate rd wr [] k = (None, [])"
| "read_propagate rd wr (b # bs) k =
    (case rd b k of
       Some v \<Rightarrow> (Some v, b # bs)
     | None \<Rightarrow>
        (case read_propagate rd wr bs k of
           (None, bs') \<Rightarrow> (None, b # bs')
         | (Some v, bs') \<Rightarrow> (Some v, wr b k v # bs')))"

type_synonym sled = "(string \<times> oid) \<Rightarrow> oid option"

definition sled_read :: "sled \<Rightarrow> string \<times> oid \<Rightarrow> oid option" where
  "sled_read b k = b k"

definition sled_write :: "sled \<Rightarrow> string \<times> oid \<Rightarrow> oid \<Rightarrow> sled" where
  "sled_write b k v = b(k \<mapsto> v)"

subsection \<open>Environment and state\<close>

datatype favor = Ours | Theirs

text \<open>
  Beside the environment of \<open>apply_filter\<close>: the hash of a commit, the order of filters by their id, the
  order in which a hash set is read, the parts of signatures, and what the crates \<^verbatim>\<open>gix_revision\<close> and \<^verbatim>\<open>gix_merge\<close> compute.
\<close>

record henv =
  base :: env
  tree_fuel :: nat
  hash_commit :: "gcommit \<Rightarrow> oid"
  oid_of_str :: "string \<Rightarrow> oid option"
  filter_key :: "filt \<Rightarrow> oid"
  hash_order :: "oid list \<Rightarrow> oid list"
  sig_time :: "string \<Rightarrow> string result"
  sig_write :: "string \<Rightarrow> string \<Rightarrow> string \<Rightarrow> string"
  gix_merge_base :: "oid odb \<Rightarrow> oid \<Rightarrow> oid \<Rightarrow> oid list option result"
  gix_octopus :: "oid odb \<Rightarrow> oid \<Rightarrow> oid list \<Rightarrow> oid option result"
  merge_trees :: "obj \<Rightarrow> obj \<Rightarrow> obj \<Rightarrow> obj result"
  merge_commits :: "cstore \<Rightarrow> oid \<Rightarrow> oid \<Rightarrow> favor \<Rightarrow> obj result"

record tx =
  tx_caches :: caches
  store :: cstore
  commit_map :: "filt \<times> oid \<Rightarrow> oid option"
  backends :: "sled list"
  missing :: "(nat \<times> filt \<times> oid) list"
  misses :: nat
  nesting_level :: nat
  last_written_commit :: "(oid \<times> obj) option"

text \<open>Two hex digits per byte, as an object id is displayed.\<close>

definition hex_digit :: "nat \<Rightarrow> char" where
  "hex_digit k = ''0123456789abcdef'' ! k"

definition hex_oid :: "oid \<Rightarrow> string" where
  "hex_oid o' = concat (map (\<lambda>b. [hex_digit (unat b div 16), hex_digit (unat b mod 16)]) o')"

definition env_at :: "henv \<Rightarrow> cstore \<Rightarrow> env" where
  "env_at H st = (base H)\<lparr>
    commit_of := \<lambda>s. (case commit_read st (raw_oid (base H) s) of
        Inr (Parsed d) \<Rightarrow> Some \<lparr> cd_tree = co_tree d, cd_parents = map hex_oid (co_parents d), cd_message = co_message d \<rparr>
      | _ \<Rightarrow> None),
    history := graph_of st \<rparr>"

type_synonym 'a hrun = "tx \<Rightarrow> ('a result \<times> tx) option"

definition bindH :: "'a hrun \<Rightarrow> ('a \<Rightarrow> 'b hrun) \<Rightarrow> 'b hrun" where
  "bindH m f t =
    (case m t of
       None \<Rightarrow> None
     | Some (Inl e, t') \<Rightarrow> Some (Inl e, t')
     | Some (Inr x, t') \<Rightarrow> f x t')"

definition liftH :: "'a result \<Rightarrow> 'a hrun" where
  "liftH r t = Some (r, t)"

abbreviation returnH :: "'a \<Rightarrow> 'a hrun" where
  "returnH x \<equiv> liftH (Inr x)"

definition fuelH :: "'a option \<Rightarrow> 'a hrun" where
  "fuelH m t = map_option (\<lambda>x. (Inr x, t)) m"

text \<open>A query of the store, an update of the state, a computation on trees, a query of the history graph.\<close>

definition readH :: "(cstore \<Rightarrow> 'a result) \<Rightarrow> 'a hrun" where
  "readH q t = Some (q (store t), t)"

definition modifyH :: "(tx \<Rightarrow> tx) \<Rightarrow> unit hrun" where
  "modifyH u t = Some (Inr (), u t)"

definition treeH :: "henv \<Rightarrow> (env \<Rightarrow> 'a run) \<Rightarrow> 'a hrun" where
  "treeH H m t = map_option (\<lambda>(r, c). (r, t\<lparr> tx_caches := c \<rparr>)) (m (env_at H (store t)) (tx_caches t))"

definition graphH :: "(oid odb \<Rightarrow> graph_cache \<Rightarrow> 'a result \<times> graph_cache) \<Rightarrow> 'a hrun" where
  "graphH m t = (case m (graph_of (store t)) (graph (tx_caches t)) of
      (r, g) \<Rightarrow> Some (r, t\<lparr> tx_caches := (tx_caches t)\<lparr> graph := g \<rparr> \<rparr>))"

fun mapH :: "('a \<Rightarrow> 'b hrun) \<Rightarrow> 'a list \<Rightarrow> 'b list hrun" where
  "mapH f [] = returnH []"
| "mapH f (x # xs) = bindH (f x) (\<lambda>y. bindH (mapH f xs) (\<lambda>ys. returnH (y # ys)))"

fun foldH :: "('a \<Rightarrow> 'b \<Rightarrow> 'a hrun) \<Rightarrow> 'a \<Rightarrow> 'b list \<Rightarrow> 'a hrun" where
  "foldH f a [] = returnH a"
| "foldH f a (x # xs) = bindH (f a x) (\<lambda>a'. foldH f a' xs)"

text \<open>\<^verbatim>\<open>collect::<Result<Option<Vec<_>>>>\<close>: the first error or the first \<^verbatim>\<open>None\<close> ends it.\<close>

fun mapOH :: "('a \<Rightarrow> 'b option hrun) \<Rightarrow> 'a list \<Rightarrow> 'b list option hrun" where
  "mapOH f [] = returnH (Some [])"
| "mapOH f (x # xs) =
    bindH (f x) (\<lambda>y.
      case y of
        None \<Rightarrow> returnH None
      | Some y \<Rightarrow> bindH (mapOH f xs) (\<lambda>ys. returnH (map_option ((#) y) ys)))"

text \<open>\<^verbatim>\<open>some_or!(m?, return Ok(None))\<close>.\<close>

definition bindO :: "'a option hrun \<Rightarrow> ('a \<Rightarrow> 'b option hrun) \<Rightarrow> 'b option hrun" where
  "bindO m f = bindH m (\<lambda>x. case x of None \<Rightarrow> returnH None | Some x \<Rightarrow> f x)"

subsection \<open>The map of filtered commits\<close>

definition sled_tree :: "henv \<Rightarrow> filt \<Rightarrow> string hrun" where
  "sled_tree H f = fuelH (spec (printer.truncate (base H)) (opt_fuel (base H)) f)"

definition insert_commit :: "henv \<Rightarrow> filt \<Rightarrow> oid \<Rightarrow> oid \<Rightarrow> bool \<Rightarrow> unit hrun" where
  "insert_commit H f from to st =
    bindH (graphH (\<lambda>odb. compute_history_hint odb from)) (\<lambda>hint.
    bindH (modifyH (\<lambda>t. t\<lparr> commit_map := (commit_map t)((f, from) \<mapsto> to) \<rparr>)) (\<lambda>_.
      if st \<or> is_sample_point hint
      then bindH (sled_tree H f) (\<lambda>key.
        modifyH (\<lambda>t. t\<lparr> backends := write_all sled_write (backends t) (key, from) to \<rparr>))
      else returnH ()))"

definition get2 :: "henv \<Rightarrow> filt \<Rightarrow> oid \<Rightarrow> oid option hrun" where
  "get2 H f from =
    (if f = Nop then returnH (Some from)
     else
       bindH (graphH (\<lambda>odb. compute_history_hint odb from)) (\<lambda>hint t.
         case commit_map t (f, from) of
           Some oid \<Rightarrow> Some (Inr (Some oid), t)
         | None \<Rightarrow>
             bindH (sled_tree H f) (\<lambda>key t.
               case read_propagate sled_read sled_write (backends t) (key, from) of
                 (r, bs) \<Rightarrow>
                   Some (Inr (case r of
                       None \<Rightarrow> None
                     | Some oid \<Rightarrow> if oid = zero_sha1 \<or> map_of (store t) oid \<noteq> None then Some oid else None),
                     t\<lparr> backends := bs \<rparr>)) t))"

definition get_commit :: "henv \<Rightarrow> filt \<Rightarrow> oid \<Rightarrow> oid option hrun" where
  "get_commit H f from =
    bindH (get2 H f from) (\<lambda>r.
      case r of
        Some x \<Rightarrow> returnH (Some x)
      | None \<Rightarrow>
          bindH (modifyH (\<lambda>t. t\<lparr> misses := Suc (misses t), missing := missing t @ [(nesting_level t, f, from)] \<rparr>))
            (\<lambda>_. returnH None))"

definition known :: "henv \<Rightarrow> filt \<Rightarrow> oid \<Rightarrow> bool hrun" where
  "known H f from = bindH (get2 H f from) (\<lambda>r. returnH (r \<noteq> None))"

text \<open>\<^verbatim>\<open>dedup_by_key\<close>: of neighbours with the same key the first stays.\<close>

fun dedup_by :: "('a \<Rightarrow> 'k) \<Rightarrow> 'a list \<Rightarrow> 'a list" where
  "dedup_by key (x # y # xs) = (if key x = key y then dedup_by key (x # xs) else x # dedup_by key (y # xs))"
| "dedup_by key xs = xs"

definition get_missing :: "henv \<Rightarrow> (nat \<times> filt \<times> oid) list hrun" where
  "get_missing H t =
    bindH (foldH (\<lambda>retained (level, f, i).
        bindH (known H f i) (\<lambda>k. returnH (if k then retained else retained @ [(level, f, i)]))) [] (missing t))
      (\<lambda>retained.
        let retained = sort_key (\<lambda>(l, f, i). (filter_key H f, i, l)) retained;
            retained = dedup_by (\<lambda>(l, f, i). (f, i)) retained;
            retained = sort_key (\<lambda>(l, f, i). (l, filter_key H f, i)) retained
        in bindH (modifyH (\<lambda>t. t\<lparr> missing := retained \<rparr>)) (\<lambda>_. returnH retained)) t"

definition set_nesting :: "nat \<Rightarrow> unit hrun" where
  "set_nesting level = modifyH (\<lambda>t. t\<lparr> nesting_level := level \<rparr>)"

subsection \<open>What a stack of backends answers\<close>

fun first_hit :: "('b \<Rightarrow> 'k \<Rightarrow> 'v option) \<Rightarrow> 'b list \<Rightarrow> 'k \<Rightarrow> 'v option" where
  "first_hit rd [] k = None"
| "first_hit rd (b # bs) k = (case rd b k of Some v \<Rightarrow> Some v | None \<Rightarrow> first_hit rd bs k)"

text \<open>The contract of \<^verbatim>\<open>CacheBackend\<close>: a read gives what was last written.\<close>

locale cache_backend =
  fixes rd :: "'b \<Rightarrow> 'k \<Rightarrow> 'v option" and wr :: "'b \<Rightarrow> 'k \<Rightarrow> 'v \<Rightarrow> 'b"
  assumes read_written: "rd (wr b k v) k' = (if k' = k then Some v else rd b k')"
begin

lemma propagate_first: "fst (read_propagate rd wr bs k) = first_hit rd bs k"
  by (induction bs) (auto split: option.splits prod.splits)

text \<open>Copying a hit to the earlier backends changes no answer.\<close>

lemma propagate_keeps: "first_hit rd (snd (read_propagate rd wr bs k)) k' = first_hit rd bs k'"
proof (induction bs)
  case (Cons b bs)
  then show ?case using propagate_first [of bs k]
    by (cases "read_propagate rd wr bs k") (auto simp: read_written split: option.splits)
qed simp

lemma written_first: "first_hit rd (write_all wr bs k v) k' = (if k' = k \<and> bs \<noteq> [] then Some v else first_hit rd bs k')"
  by (induction bs) (auto simp: write_all_def read_written split: option.splits)

end

interpretation sl: cache_backend sled_read sled_write
  by unfold_locales (simp add: sled_read_def sled_write_def)

end
