(* ===== verification/Commit_Write.thy ===== *)
theory Commit_Write
  imports Transaction
begin

text \<open>
  Writing filtered commits: \<^verbatim>\<open>josh-core/src/history.rs\<close> up to the choice of the parents of a filtered
  commit and whether it is written at all.
\<close>

subsection \<open>Flags of the history metadata\<close>

fun split_on :: "char \<Rightarrow> string \<Rightarrow> string list" where
  "split_on c [] = [[]]"
| "split_on c (x # xs) =
    (if x = c then [] # split_on c xs
     else case split_on c xs of y # ys \<Rightarrow> (x # y) # ys | [] \<Rightarrow> [[x]])"

definition history_flag :: "string option \<Rightarrow> string \<Rightarrow> bool" where
  "history_flag v flag = (case v of None \<Rightarrow> False | Some v \<Rightarrow> list_ex (\<lambda>f. trim f = flag) (split_on (CHR '','') v))"

subsection \<open>Rewriting a commit\<close>

datatype gpgsig_mode = Preserve | RemoveSig | NormLf

fun crlf_to_lf :: "string \<Rightarrow> string" where
  "crlf_to_lf (a # b # xs) =
    (if a = CHR 0x0D \<and> b = CHR 0x0A then CHR 0x0A # crlf_to_lf xs else a # crlf_to_lf (b # xs))"
| "crlf_to_lf xs = xs"

definition gpgsig_headers :: "gpgsig_mode \<Rightarrow> (string \<times> string) list \<Rightarrow> (string \<times> string) list" where
  "gpgsig_headers mode hs =
    (case mode of
       RemoveSig \<Rightarrow> List.filter (\<lambda>(k, v). k \<noteq> ''gpgsig'') hs
     | NormLf \<Rightarrow> map (\<lambda>(k, v). if k = ''gpgsig'' then (k, crlf_to_lf v) else (k, v)) hs
     | Preserve \<Rightarrow> hs)"

fun rewrite_signature :: "henv \<Rightarrow> string \<Rightarrow> sig_rewrite option \<Rightarrow> string result" where
  "rewrite_signature H old None = Inr old"
| "rewrite_signature H old (Some (NameEmail name email)) =
    bindR (sig_time H old) (\<lambda>time. Inr (sig_write H name email time))"
| "rewrite_signature H old (Some (RawSig raw)) = Inr raw"

text \<open>An object that is already there is not written again.\<close>

definition write_commit :: "henv \<Rightarrow> gcommit \<Rightarrow> oid hrun" where
  "write_commit H d =
    (let oid = hash_commit H d in
     bindH (modifyH (\<lambda>t. if map_of (store t) oid = None then t\<lparr> store := (oid, GCommit (Parsed d)) # store t \<rparr> else t))
       (\<lambda>_. returnH oid))"

definition rewrite_commit :: "henv \<Rightarrow> cdata \<Rightarrow> oid list \<Rightarrow> rewrite \<Rightarrow> gpgsig_mode \<Rightarrow> oid hrun" where
  "rewrite_commit H c parents x gpgsig =
    bindH (liftH (parsed c)) (\<lambda>d.
    bindH (liftH (rewrite_signature H (co_author d) (rw_author x))) (\<lambda>author.
    bindH (liftH (rewrite_signature H (co_committer d) (rw_committer x))) (\<lambda>committer.
      write_commit H (d\<lparr> co_tree := rw_tree x, co_parents := parents, co_author := author, co_committer := committer,
        co_message := (case rw_message x of None \<Rightarrow> co_message d | Some m \<Rightarrow> m),
        co_extra := gpgsig_headers gpgsig (co_extra d) \<rparr>))))"

subsection \<open>Empty trees\<close>

function is_empty_subtree :: "obj \<Rightarrow> bool" where
  "is_empty_subtree oid =
    (oid = empty_id \<or>
     (case read_tree_bytes oid of
        None \<Rightarrow> False
      | Some es \<Rightarrow> (\<forall>e \<in> set es. is_tree (e_mode e) \<and> is_empty_subtree (e_oid e))))"
  by pat_completeness auto
termination
  by (relation "measure size") (auto dest: size_read_tree)

declare is_empty_subtree.simps [simp del]

definition is_empty_root :: "obj \<Rightarrow> bool result" where
  "is_empty_root oid =
    (if oid = empty_id then Inr True
     else case read_tree_bytes oid of
       None \<Rightarrow> Inl NotATree
     | Some es \<Rightarrow> Inr (\<forall>e \<in> set es. is_tree (e_mode e) \<and> is_empty_subtree (e_oid e)))"

subsection \<open>The parents of a filtered commit\<close>

definition filtered_parent_tree_id :: "oid \<Rightarrow> obj hrun" where
  "filtered_parent_tree_id oid t =
    (case last_written_commit t of
       Some (written, tree) \<Rightarrow> if written = oid then Some (Inr tree, t) else Some (read_tree_id (store t) oid, t)
     | None \<Rightarrow> Some (read_tree_id (store t) oid, t))"

text \<open>Whether every parent has this tree; the parents after the first that has not are not read.\<close>

fun all_diffs_empty :: "cstore \<Rightarrow> obj \<Rightarrow> oid list \<Rightarrow> bool result" where
  "all_diffs_empty st tree [] = Inr True"
| "all_diffs_empty st tree (p # ps) =
    bindR (read_tree_id st p) (\<lambda>t. if t \<noteq> tree then Inr False else all_diffs_empty st tree ps)"

definition select_parent_commits :: "cdata \<Rightarrow> obj \<Rightarrow> (oid \<times> obj) list \<Rightarrow> cstore \<Rightarrow> oid list result" where
  "select_parent_commits orig filtered_tree filtered_parents st =
    bindR (tree_id orig) (\<lambda>original_tree.
    bindR (all_diffs_empty st original_tree (parent_ids orig)) (\<lambda>same.
      Inr (if list_ex (\<lambda>(_, tree). filtered_tree \<noteq> tree) filtered_parents \<or> same
           then map fst filtered_parents else [])))"

definition drop_commit :: "henv \<Rightarrow> oid \<Rightarrow> oid list \<Rightarrow> filt \<Rightarrow> oid hrun" where
  "drop_commit H orig filtered_parent_ids f =
    (let r = (case filtered_parent_ids of p # _ \<Rightarrow> p | [] \<Rightarrow> zero_sha1) in
     bindH (insert_commit H f orig r False) (\<lambda>_. returnH r))"

text \<open>Empty parents of a merge without a common ancestor are pruned, unless all of them are empty.\<close>

definition prune_empty_parents :: "(oid \<times> obj) list \<Rightarrow> (oid \<times> obj) list hrun" where
  "prune_empty_parents ps =
    (if list_ex (\<lambda>(_, tree). tree = empty_id) ps
     then
       bindH (if length ps > 1
              then bindH (graphH (\<lambda>odb. parents_share_root odb (map fst ps))) (\<lambda>share. returnH (\<not> share))
              else returnH False) (\<lambda>is_initial_merge.
         returnH (if is_initial_merge \<and> list_ex (\<lambda>(_, tree). tree \<noteq> empty_id) ps
           then List.filter (\<lambda>(_, tree). tree \<noteq> empty_id) ps else ps))
     else returnH ps)"

definition was_trivial_merge :: "cdata \<Rightarrow> cstore \<Rightarrow> bool result" where
  "was_trivial_merge orig st =
    (case first_parent_id orig of
       None \<Rightarrow> Inr False
     | Some p \<Rightarrow> bindR (read_tree_id st p) (\<lambda>t. bindR (tree_id orig) (\<lambda>u. Inr (t = u))))"

definition gpgsig_mode_of :: "string option \<Rightarrow> gpgsig_mode" where
  "gpgsig_mode_of v = (if v = Some ''remove'' then RemoveSig else if v = Some ''norm-lf'' then NormLf else Preserve)"

text \<open>The end of \<open>create_filtered_commit2\<close>: the commit is dropped, or written with the selected parents.\<close>

definition write_filtered ::
  "henv \<Rightarrow> cdata \<Rightarrow> (oid \<times> obj) list \<Rightarrow> rewrite \<Rightarrow> (string \<times> string) list \<Rightarrow> (oid \<times> bool) hrun" where
  "write_filtered H orig ps x options =
    bindH (readH (select_parent_commits orig (rw_tree x) ps)) (\<lambda>selected.
    bindH (if selected = []
           then (if parent_ids orig = []
                 then liftH (bindR (tree_id orig) (\<lambda>t. bindR (is_empty_root t) (\<lambda>e. Inr (\<not> e))))
                 else returnH True)
           else returnH False) (\<lambda>droppable.
      if droppable \<and> ps \<noteq> [] then returnH (fst (hd ps), False)
      else if droppable \<and> rw_tree x = empty_id then returnH (zero_sha1, False)
      else
        bindH (rewrite_commit H orig selected x (gpgsig_mode_of (bt_get options ''gpgsig''))) (\<lambda>oid.
        bindH (modifyH (\<lambda>t. t\<lparr> last_written_commit := Some (oid, rw_tree x) \<rparr>)) (\<lambda>_.
          returnH (oid, True)))))"

definition create_filtered_commit2 ::
  "henv \<Rightarrow> cdata \<Rightarrow> oid list \<Rightarrow> rewrite \<Rightarrow> (string \<times> string) list \<Rightarrow> (oid \<times> bool) hrun" where
  "create_filtered_commit2 H orig filtered_parent_ids x options =
    bindH (mapH (\<lambda>p. bindH (filtered_parent_tree_id p) (\<lambda>tree. returnH (p, tree)))
        (List.filter (\<lambda>p. p \<noteq> zero_sha1) filtered_parent_ids)) (\<lambda>ps.
    bindH (prune_empty_parents ps) (\<lambda>ps.
      let ps = (if history_flag (bt_get options ''history'') ''linear'' then take 1 ps else ps) in
      if \<not> history_flag (bt_get options ''history'') ''keep-trivial-merges'' \<and> length ps > 1
      then
        bindH (readH (was_trivial_merge orig)) (\<lambda>was_trivial.
          if snd (hd ps) = rw_tree x \<and> \<not> was_trivial then returnH (fst (hd ps), False)
          else write_filtered H orig ps x options)
      else write_filtered H orig ps x options))"

definition create_filtered_commit_with_meta ::
  "henv \<Rightarrow> oid \<Rightarrow> cdata \<Rightarrow> oid list \<Rightarrow> rewrite \<Rightarrow> filt \<Rightarrow> (string \<times> string) list \<Rightarrow> oid hrun" where
  "create_filtered_commit_with_meta H oid orig filtered_parent_ids x f meta =
    bindH (create_filtered_commit2 H orig filtered_parent_ids x meta) (\<lambda>(r, is_new).
    bindH (insert_commit H f oid r (is_new \<or> length (parent_ids orig) \<noteq> 1)) (\<lambda>_.
      returnH r))"

definition create_filtered_commit :: "henv \<Rightarrow> oid \<Rightarrow> cdata \<Rightarrow> oid list \<Rightarrow> rewrite \<Rightarrow> filt \<Rightarrow> oid hrun" where
  "create_filtered_commit H oid orig filtered_parent_ids x f =
    create_filtered_commit_with_meta H oid orig filtered_parent_ids x f (into_meta f)"

end
