(* ===== verification/Commit_Filter.thy ===== *)
theory Commit_Filter
  imports Commit_Write
begin

text \<open>
  Filtering a commit: \<^verbatim>\<open>apply_to_commit2\<close> and \<^verbatim>\<open>apply_to_commit\<close> of \<^verbatim>\<open>josh-core/src/filter/mod.rs\<close> with
  \<^verbatim>\<open>per_rev_filter\<close> and \<^verbatim>\<open>downstack\<close>, and \<^verbatim>\<open>walk2\<close> of \<^verbatim>\<open>history.rs\<close>.

  \<^verbatim>\<open>apply_to_commit2\<close> answers \<^verbatim>\<open>None\<close> when it needs the result for another commit that is not in the
  transaction yet, and leaves that commit in the list of missing ones; \<^verbatim>\<open>apply_to_commit\<close> walks the
  missing histories and asks again. The recursion carries fuel, and so does that loop.
\<close>

subsection \<open>Helpers\<close>

type_synonym commit_fn = "filt \<Rightarrow> oid \<Rightarrow> oid option hrun"

definition applyH :: "henv \<Rightarrow> filt \<Rightarrow> rewrite \<Rightarrow> rewrite hrun" where
  "applyH H f x = treeH H (\<lambda>E. apply_filter E (tree_fuel H) f x)"

definition runnerH :: "henv \<Rightarrow> (env \<Rightarrow> runner \<Rightarrow> 'a run) \<Rightarrow> 'a hrun" where
  "runnerH H m = treeH H (\<lambda>E. m E (runs E (tree_fuel H)))"

definition commit_rewrite :: "oid \<Rightarrow> cdata \<Rightarrow> rewrite result" where
  "commit_rewrite oid c =
    bindR (tree_id c) (\<lambda>t. Inr (from_commit_data (hex_oid oid) \<lparr> cd_tree = t, cd_parents = [], cd_message = [] \<rparr>))"

definition apply_commit_tree :: "henv \<Rightarrow> filt \<Rightarrow> oid \<Rightarrow> cdata \<Rightarrow> rewrite hrun" where
  "apply_commit_tree H f oid c = bindH (liftH (commit_rewrite oid c)) (applyH H f)"

definition tree_readable :: "obj \<Rightarrow> unit result" where
  "tree_readable t = (case read_tree_bytes t of None \<Rightarrow> Inl NotATree | Some _ \<Rightarrow> Inr ())"

definition filtered_parents :: "henv \<Rightarrow> filt \<Rightarrow> cdata \<Rightarrow> oid list option hrun" where
  "filtered_parents H f c = mapOH (get_commit H f) (parent_ids c)"

definition someH :: "'a hrun \<Rightarrow> 'a option hrun" where
  "someH m = bindH m (\<lambda>x. returnH (Some x))"

subsection \<open>Ancestry by merge bases\<close>

definition is_descendant_of :: "henv \<Rightarrow> cstore \<Rightarrow> oid \<Rightarrow> oid \<Rightarrow> bool result" where
  "is_descendant_of H st commit ancestor =
    (if commit = ancestor then Inr False
     else
       bindR (ensure_commit (graph_of st) commit) (\<lambda>_.
       bindR (ensure_commit (graph_of st) ancestor) (\<lambda>_.
       bindR (gix_merge_base H (graph_of st) commit ancestor) (\<lambda>bases.
         Inr (case bases of None \<Rightarrow> False | Some bs \<Rightarrow> ancestor \<in> set bs)))))"

definition merge_base_octopus :: "henv \<Rightarrow> cstore \<Rightarrow> oid list \<Rightarrow> oid option result" where
  "merge_base_octopus H st commits =
    (case commits of
       [] \<Rightarrow> Inl (Failed ''no commits'')
     | c # rest \<Rightarrow> bindR (mapR (ensure_commit (graph_of st)) commits) (\<lambda>_. gix_octopus H (graph_of st) c rest))"

subsection \<open>Trailers\<close>

text \<open>\<^verbatim>\<open>str::lines\<close>.\<close>

definition strip_cr :: "string \<Rightarrow> string" where
  "strip_cr l = (if l \<noteq> [] \<and> last l = CHR 0x0D then butlast l else l)"

definition str_lines :: "string \<Rightarrow> string list" where
  "str_lines s =
    (let ls = split_on newline s
     in map strip_cr (butlast ls) @ (if last ls = [] then [] else [last ls]))"

definition is_trailer_line :: "string \<Rightarrow> bool" where
  "is_trailer_line ln =
    (let key = takeWhile (\<lambda>c. (CHR ''0'' \<le> c \<and> c \<le> CHR ''9'') \<or> (CHR ''A'' \<le> c \<and> c \<le> CHR ''Z'') \<or>
                              (CHR ''a'' \<le> c \<and> c \<le> CHR ''z'') \<or> c = CHR ''-'') ln
     in key \<noteq> [] \<and> prefix '': '' (drop (length key) ln))"

definition trailer_value :: "string \<Rightarrow> string \<Rightarrow> string option" where
  "trailer_value key ln = (if prefix key ln then Some (drop (length key) ln) else None)"

definition parse_change_meta :: "string \<Rightarrow> string option \<times> string list" where
  "parse_change_meta message =
    (let footer = rev (takeWhile (\<lambda>ln. ln = [] \<or> is_trailer_line ln) (rev (str_lines message)))
     in (foldl (\<lambda>cid ln.
            let cid = (case trailer_value ''Change: '' ln of Some v \<Rightarrow> Some v | None \<Rightarrow> cid)
            in case trailer_value ''Change-Id: '' ln of Some v \<Rightarrow> Some v | None \<Rightarrow> cid) None footer,
         List.map_filter (trailer_value ''Change-Series: '') footer))"

subsection \<open>Rebuilding a stack of changes\<close>

datatype downstack_dep = DepPath string | DepSeries string

definition downstack_commit_deps :: "henv \<Rightarrow> cdata \<Rightarrow> cstore \<Rightarrow> downstack_dep set result" where
  "downstack_commit_deps H c st =
    bindR (case first_parent_id c of None \<Rightarrow> Inr zero_oid | Some p \<Rightarrow> read_tree_id st p) (\<lambda>parent_tree.
    bindR (tree_id c) (\<lambda>tree.
    bindR (diff_paths (bz (base H)) parent_tree tree []) (\<lambda>paths.
      let message = (case parsed c of
            Inl _ \<Rightarrow> []
          | Inr d \<Rightarrow> let m = dropWhile (\<lambda>c. c = newline) (co_message d) in if valid_utf8 m then m else [])
      in Inr (set (map (\<lambda>(p, _). DepPath p) paths) \<union> set (map DepSeries (snd (parse_change_meta message)))))))"

definition cached_merge_trees :: "henv \<Rightarrow> obj \<Rightarrow> obj \<Rightarrow> obj \<Rightarrow> obj result" where
  "cached_merge_trees H a b c = (if a = b then Inr c else if a = c then Inr b else merge_trees H a b c)"

text \<open>From the newest intermediate commit to the oldest: whether it shares a dependency with what is kept.\<close>

fun needed_commits ::
  "henv \<Rightarrow> cstore \<Rightarrow> downstack_dep set \<Rightarrow> (oid \<times> cdata) list \<Rightarrow> (oid \<times> cdata) list result" where
  "needed_commits H st affected [] = Inr []"
| "needed_commits H st affected ((oid, c) # cs) =
    bindR (downstack_commit_deps H c st) (\<lambda>deps.
      if deps \<inter> affected \<noteq> {}
      then bindR (needed_commits H st (affected \<union> deps) cs) (\<lambda>needed. Inr (needed @ [(oid, c)]))
      else needed_commits H st affected cs)"

definition rebase_commit ::
  "henv \<Rightarrow> oid \<times> obj \<Rightarrow> oid list \<Rightarrow> cdata \<Rightarrow> (oid \<times> obj) hrun" where
  "rebase_commit H bs extra c =
    bindH (liftH (of_option (Failed ''no parent'') (first_parent_id c))) (\<lambda>p.
    bindH (readH (\<lambda>st. read_tree_id st p)) (\<lambda>parent_tree.
    bindH (liftH (tree_id c)) (\<lambda>tree.
    bindH (liftH (cached_merge_trees H parent_tree (snd bs) tree)) (\<lambda>new_tree.
    bindH (rewrite_commit H c (fst bs # extra) (from_tree new_tree) Preserve) (\<lambda>oid.
      returnH (oid, new_tree))))))"

text \<open>
  The walk from the change down its first parents stops at the base; the base was seen when it is the
  change itself or a first parent of a commit of the walk.
\<close>

definition downstack_walk :: "oid \<Rightarrow> oid \<Rightarrow> cstore \<Rightarrow> oid list result" where
  "downstack_walk change_oid base_oid st =
    (let odb = graph_of st in
     bindR (push odb (simplify_first_parent new_walk) change_oid) (\<lambda>w.
     bindR (into_topo_vec odb w (\<lambda>oid. oid = base_oid)) (\<lambda>oids.
       if base_oid = change_oid \<or>
          list_ex (\<lambda>oid. case read_parent_oids odb oid of Inr (p # _) \<Rightarrow> p = base_oid | _ \<Rightarrow> False) oids
       then Inr (rev oids)
       else Inl (Failed ''base is not on the first-parent chain''))))"

definition downstack :: "henv \<Rightarrow> oid \<Rightarrow> oid \<Rightarrow> oid hrun" where
  "downstack H change_oid base_oid =
    bindH (readH (\<lambda>st. is_descendant_of H st change_oid base_oid)) (\<lambda>desc.
      if \<not> desc then liftH (Inl (Failed ''change is not a descendant of base''))
      else
        bindH (readH (downstack_walk change_oid base_oid)) (\<lambda>oids.
          if oids = [] then returnH change_oid
          else
            bindH (readH (\<lambda>st. mapR (\<lambda>oid. bindR (commit_read st oid) (\<lambda>c. Inr (oid, c))) oids)) (\<lambda>commits.
              let change = snd (last commits) in
              bindH (readH (downstack_commit_deps H change)) (\<lambda>affected.
              bindH (readH (\<lambda>st. needed_commits H st affected (rev (butlast commits)))) (\<lambda>needed.
              bindH (readH (\<lambda>st. read_tree_id st base_oid)) (\<lambda>base_tree.
              bindH (foldH (\<lambda>bs (oid, c). rebase_commit H bs [] c) (base_oid, base_tree) needed) (\<lambda>bs.
              bindH (rebase_commit H bs (drop 1 (parent_ids change)) change) (\<lambda>(oid, _).
                returnH oid))))))))"

subsection \<open>Filters that differ from commit to commit\<close>

definition compute_splice_parents ::
  "henv \<Rightarrow> commit_fn \<Rightarrow> filt \<Rightarrow> (oid \<times> filt) list \<Rightarrow> (string \<times> string) list \<Rightarrow> oid list option hrun" where
  "compute_splice_parents H rec commit_filter parent_filters meta =
    bindO (mapOH (\<lambda>(parent, pcw).
        bindH (fuelH (minimize (opt_fuel (base H)) (Subtract (peel commit_filter) (peel pcw)))) (\<lambda>f.
          rec (propagate_meta f meta) parent)) parent_filters)
      (\<lambda>ids. returnH (Some (List.filter (\<lambda>oid. oid \<noteq> zero_sha1) ids)))"

text \<open>The trees that a pin keeps from the first filtered parent: the pinned part and its old content.\<close>

definition pin_details ::
  "henv \<Rightarrow> oid \<Rightarrow> cdata \<Rightarrow> oid list \<Rightarrow> filt \<Rightarrow> filt \<Rightarrow> (obj \<times> obj) option hrun" where
  "pin_details H oid c normal_parents legalized_a legalized_b =
    (case normal_parents of
       [] \<Rightarrow> returnH None
     | parent # _ \<Rightarrow>
        if legalized_a \<noteq> legalized_b then
          bindH (fuelH (optimize (opt_fuel (base H)) (Subtract legalized_a legalized_b))) (\<lambda>f.
          bindH (apply_commit_tree H f oid c) (\<lambda>pin_subtract.
          bindH (filtered_parent_tree_id parent) (\<lambda>parent_tree.
            returnH (Some (rw_tree pin_subtract, intersect (bz (base H)) parent_tree (rw_tree pin_subtract))))))
        else returnH None)"

text \<open>
  \<^verbatim>\<open>:SQUASH\<close> as the filter of one commit: the commit is mapped to the surviving parent with the largest
  sequence number, if that has all the others in its history.
\<close>

definition squash_target :: "oid list \<Rightarrow> (64 word \<times> oid) option hrun" where
  "squash_target ids =
    foldH (\<lambda>target i.
      bindH (graphH (\<lambda>odb. compute_sequence_number odb i)) (\<lambda>seq.
        returnH (case target of
            None \<Rightarrow> Some (seq, i)
          | Some (best, j) \<Rightarrow> if seq > best then Some (seq, i) else target))) None ids"

definition squash_away :: "henv \<Rightarrow> oid \<Rightarrow> oid list \<Rightarrow> filt \<Rightarrow> oid hrun" where
  "squash_away H oid filtered_parent_ids f =
    (let ids = List.filter (\<lambda>i. i \<noteq> zero_sha1) filtered_parent_ids in
     bindH (squash_target ids) (\<lambda>target.
     bindH (case target of
              None \<Rightarrow> returnH ()
            | Some (_, best) \<Rightarrow>
                foldH (\<lambda>_ i.
                  bindH (readH (\<lambda>st. is_descendant_of H st best i)) (\<lambda>desc.
                    if desc then returnH () else liftH (Inl (Failed ''cannot squash''))))
                  () (List.filter (\<lambda>i. i \<noteq> best) ids)) (\<lambda>_.
       drop_commit H oid (case target of None \<Rightarrow> [] | Some (_, best) \<Rightarrow> [best]) f)))"

definition per_rev_filter ::
  "henv \<Rightarrow> commit_fn \<Rightarrow> oid \<Rightarrow> cdata \<Rightarrow> filt \<Rightarrow> filt \<Rightarrow> (oid \<times> filt) list \<Rightarrow> oid option hrun" where
  "per_rev_filter H rec oid c f commit_filter parent_filters =
    (let meta = into_meta f;
         commit_filter = propagate_meta commit_filter meta;
         legalized_a = legalize_pin Select (peel commit_filter);
         legalized_b = legalize_pin Exclude (peel commit_filter);
         no_splice = history_flag (bt_get meta ''history'') ''no-splice''
     in
     if legalized_a \<noteq> legalized_b \<and> \<not> no_splice then liftH (Inl (Failed ''pin with history splicing''))
     else
       bindO (if no_splice then returnH (Some [])
              else compute_splice_parents H rec commit_filter parent_filters meta) (\<lambda>splice_parents.
       bindO (filtered_parents H f c) (\<lambda>normal_parents.
       bindH (pin_details H oid c normal_parents legalized_a legalized_b) (\<lambda>pin.
         let filtered_parent_ids = normal_parents @ splice_parents in
         if peel commit_filter = Squash None then someH (squash_away H oid filtered_parent_ids f)
         else
           bindH (apply_commit_tree H commit_filter oid c) (\<lambda>x.
             let x = (case pin of
                   None \<Rightarrow> x
                 | Some (pin_subtract, pin_overlay) \<Rightarrow>
                     with_tree x (overlay (bz (base H)) pin_overlay (subtract (bz (base H)) (rw_tree x) pin_subtract)))
             in someH (create_filtered_commit_with_meta H oid c filtered_parent_ids x f (into_meta commit_filter)))))))"

text \<open>The filter of each parent, for the filters that are looked up in the tree of a commit.\<close>

definition parent_tree_filters :: "(obj \<Rightarrow> filt hrun) \<Rightarrow> cdata \<Rightarrow> (oid \<times> filt) list hrun" where
  "parent_tree_filters lookup c =
    mapH (\<lambda>p.
      bindH (readH (\<lambda>st. read_tree_id st p)) (\<lambda>tree.
      bindH (liftH (tree_readable tree)) (\<lambda>_.
      bindH (lookup tree) (\<lambda>g. returnH (p, g))))) (parent_ids c)"

definition tree_filter_commit ::
  "henv \<Rightarrow> commit_fn \<Rightarrow> oid \<Rightarrow> cdata \<Rightarrow> filt \<Rightarrow> (obj \<Rightarrow> filt hrun) \<Rightarrow> oid option hrun" where
  "tree_filter_commit H rec oid c f lookup =
    bindH (liftH (tree_id c)) (\<lambda>tree.
    bindH (liftH (tree_readable tree)) (\<lambda>_.
    bindH (lookup tree) (\<lambda>commit_filter.
    bindH (parent_tree_filters lookup c) (\<lambda>parent_filters.
      per_rev_filter H rec oid c f commit_filter parent_filters))))"

definition commit_workspace :: "henv \<Rightarrow> commit_fn \<Rightarrow> oid \<Rightarrow> cdata \<Rightarrow> filt \<Rightarrow> path \<Rightarrow> oid option hrun" where
  "commit_workspace H rec oid c f ws_path =
    bindH (liftH (tree_id c)) (\<lambda>tree.
    bindH (liftH (tree_readable tree)) (\<lambda>_.
    bindH (treeH H (\<lambda>E. resolve_workspace_redirect E tree ws_path)) (\<lambda>redirect.
      case redirect of
        Some (g, _) \<Rightarrow>
          bindO (rec g oid) (\<lambda>r.
          bindH (insert_commit H f oid r True) (\<lambda>_. returnH (Some r)))
      | None \<Rightarrow> tree_filter_commit H rec oid c f (\<lambda>t. runnerH H (\<lambda>E R. get_workspace E R t ws_path)))))"

text \<open>\<^verbatim>\<open>:rev\<close> and hooks: the filter is looked up by the commit.\<close>

definition commit_resolved ::
  "henv \<Rightarrow> commit_fn \<Rightarrow> oid \<Rightarrow> cdata \<Rightarrow> filt \<Rightarrow> (oid \<Rightarrow> filt hrun) \<Rightarrow> oid option hrun" where
  "commit_resolved H rec oid c f lookup =
    bindH (lookup oid) (\<lambda>commit_filter.
    bindH (mapH (\<lambda>p. bindH (lookup p) (\<lambda>g. returnH (p, g))) (parent_ids c)) (\<lambda>parent_filters.
      per_rev_filter H rec oid c f commit_filter parent_filters))"

subsection \<open>The arms of the match\<close>

text \<open>An arm ends with the rewrite of this commit, or with the answer.\<close>

datatype outcome = Rewritten rewrite | Done "oid option"

definition doneH :: "oid option hrun \<Rightarrow> outcome hrun" where
  "doneH m = bindH m (\<lambda>r. returnH (Done r))"

definition rewrittenH :: "rewrite hrun \<Rightarrow> outcome hrun" where
  "rewrittenH m = bindH m (\<lambda>x. returnH (Rewritten x))"

definition commit_squash_ids ::
  "henv \<Rightarrow> commit_fn \<Rightarrow> oid \<Rightarrow> cdata \<Rightarrow> filt \<Rightarrow> (lazy_ref \<times> filt) list \<Rightarrow> outcome hrun" where
  "commit_squash_ids H rec oid c f ids =
    (case map_of ids (Resolved (hex_oid oid)) of
       Some sq \<Rightarrow>
         (let n = opt_fuel (base H) in
          bindH (fuelH (Option.bind (chain_with n Nop (Squash None)) (\<lambda>s. chain_with n s sq))) (\<lambda>g.
          bindH (rec g oid) (\<lambda>r.
            case r of
              None \<Rightarrow> returnH (Done None)
            | Some r \<Rightarrow>
                bindH (readH (\<lambda>st. commit_read st r)) (\<lambda>rc.
                bindH (liftH (parsed rc)) (\<lambda>d.
                  returnH (Rewritten (from_tree_with_metadata (co_tree d)
                    (Some (RawSig (co_author d))) (Some (RawSig (co_committer d))) (Some (co_message d)))))))))
     | None \<Rightarrow>
         (case first_parent_id c of
            Some p \<Rightarrow> doneH (bindO (get_commit H f p) (\<lambda>fparent. someH (drop_commit H oid [fparent] f)))
          | None \<Rightarrow> doneH (someH (drop_commit H oid [] f))))"

definition commit_prune :: "henv \<Rightarrow> oid \<Rightarrow> cdata \<Rightarrow> filt \<Rightarrow> outcome hrun" where
  "commit_prune H oid c f =
    (let here = bindH (liftH (commit_rewrite oid c)) (\<lambda>x. returnH (Rewritten x)) in
     if length (parent_ids c) > 1
     then
       bindH (get_commit H f (hd (parent_ids c))) (\<lambda>parent.
         case parent of
           None \<Rightarrow> returnH (Done None)
         | Some parent \<Rightarrow>
             bindH (filtered_parent_tree_id parent) (\<lambda>parent_tree.
             bindH (liftH (tree_id c)) (\<lambda>tree.
               if parent_tree = tree then doneH (someH (drop_commit H oid [parent] f)) else here)))
     else here)"

text \<open>\<^verbatim>\<open>rotate_right(1)\<close> until the linked commit is first; it is one of the parents, so as many turns as there are parents are enough.\<close>

definition rotate_right :: "'a list \<Rightarrow> 'a list" where
  "rotate_right xs = (if xs = [] then [] else last xs # butlast xs)"

primrec rotate_until :: "nat \<Rightarrow> oid \<Rightarrow> oid list \<Rightarrow> oid list" where
  "rotate_until 0 oid ids = ids"
| "rotate_until (Suc n) oid ids = (if hd ids = oid then ids else rotate_until n oid (rotate_right ids))"

definition linked_commit :: "henv \<Rightarrow> filt \<Rightarrow> oid option" where
  "linked_commit H link = Option.bind (get_meta link ''commit'') (oid_of_str H)"

definition commit_export :: "henv \<Rightarrow> oid \<Rightarrow> cdata \<Rightarrow> filt \<Rightarrow> oid option hrun" where
  "commit_export H oid c f =
    bindH (liftH (check_experimental (base H) ''export filter'')) (\<lambda>_.
    bindO (filtered_parents H f c) (\<lambda>ids.
    bindH (liftH (tree_id c)) (\<lambda>tree.
    bindH (liftH (tree_readable tree)) (\<lambda>_.
      let linked = Option.bind (read_josh_link (base H) tree [] dot_link_josh) (linked_commit H);
          ids = (case linked of
              Some l \<Rightarrow> if l \<in> set ids then rotate_until (length ids) l ids else ids
            | None \<Rightarrow> ids)
      in bindH (apply_commit_tree H f oid c) (\<lambda>x. someH (create_filtered_commit H oid c ids x f))))))"

text \<open>A link file without a usable commit ends the arm with \<^verbatim>\<open>None\<close>, and nothing is added to the missing commits.\<close>

fun link_parents :: "henv \<Rightarrow> (path \<times> filt) list \<Rightarrow> oid list option hrun" where
  "link_parents H [] = returnH (Some [])"
| "link_parents H ((p, link) # links) =
    (case linked_commit H link of
       None \<Rightarrow> returnH None
     | Some l \<Rightarrow>
         bindO (get_commit H (Prefix p) l) (\<lambda>r.
         bindO (link_parents H links) (\<lambda>rs. returnH (Some (r # rs)))))"

definition commit_unlink :: "henv \<Rightarrow> oid \<Rightarrow> cdata \<Rightarrow> filt \<Rightarrow> oid option hrun" where
  "commit_unlink H oid c f =
    bindH (liftH (check_experimental (base H) ''unlink filter'')) (\<lambda>_.
    bindO (filtered_parents H f c) (\<lambda>ids.
    bindH (liftH (tree_id c)) (\<lambda>tree.
    bindH (liftH (find_link_files (base H) tree)) (\<lambda>links.
    bindO (link_parents H links) (\<lambda>lps.
    bindH (apply_commit_tree H f oid c) (\<lambda>x.
      someH (create_filtered_commit H oid c (List.filter (\<lambda>i. i \<notin> set lps) ids) x f)))))))"

definition same_entry :: "obj \<Rightarrow> obj \<Rightarrow> path \<Rightarrow> bool" where
  "same_entry t u p =
    (case (get_path_entry t p, get_path_entry u p) of
       (Some a, Some b) \<Rightarrow> e_oid a = e_oid b
     | _ \<Rightarrow> False)"

definition changed_link_roots :: "henv \<Rightarrow> cdata \<Rightarrow> obj \<Rightarrow> path list hrun" where
  "changed_link_roots H c tree =
    bindH (runnerH H (\<lambda>E R. get_link_roots E R tree)) (\<lambda>roots.
      case first_parent_id c of
        None \<Rightarrow> returnH roots
      | Some p \<Rightarrow>
          bindH (readH (\<lambda>st. read_tree_id st p)) (\<lambda>parent_tree.
          bindH (liftH (tree_readable parent_tree)) (\<lambda>_.
            returnH (List.filter (\<lambda>root. \<not> same_entry tree parent_tree root) roots))))"

definition embed_parent :: "henv \<Rightarrow> commit_fn \<Rightarrow> oid \<Rightarrow> path \<Rightarrow> oid option hrun" where
  "embed_parent H rec oid root =
    (let n = opt_fuel (base H) in
     bindH (fuelH (Option.bind (chain_with n Nop (Message ''{@}'' message_match_all))
         (\<lambda>m. file_filter n m (path_join root [Normal dot_link_josh])))) (\<lambda>g.
     bindO (rec g oid) (\<lambda>embedding. rec (Embed root) embedding)))"

definition commit_link :: "henv \<Rightarrow> commit_fn \<Rightarrow> oid \<Rightarrow> cdata \<Rightarrow> filt \<Rightarrow> link_mode option \<Rightarrow> outcome hrun" where
  "commit_link H rec oid c f mode =
    bindH (liftH (check_experimental (base H) ''link filter'')) (\<lambda>_.
    bindH (liftH (tree_id c)) (\<lambda>tree.
    bindH (liftH (tree_readable tree)) (\<lambda>_.
    bindH (changed_link_roots H c tree) (\<lambda>roots.
      let embedded = List.filter (\<lambda>(_, link). link_mode_of mode link = Embedded) (links_from_roots (base H) tree roots) in
      if embedded = [] then rewrittenH (apply_commit_tree H f oid c)
      else
        doneH (bindO (filtered_parents H f c) (\<lambda>normal_parents.
          bindO (mapOH (\<lambda>(root, _). embed_parent H rec oid root) embedded) (\<lambda>extra_parents.
          bindH (apply_commit_tree H f oid c) (\<lambda>x.
            someH (create_filtered_commit H oid c (normal_parents @ extra_parents) x f)))))))))"

definition commit_fold :: "henv \<Rightarrow> oid \<Rightarrow> cdata \<Rightarrow> filt \<Rightarrow> outcome hrun" where
  "commit_fold H oid c f =
    bindH (filtered_parents H f c) (\<lambda>ids.
      case ids of
        None \<Rightarrow> returnH (Done None)
      | Some ids \<Rightarrow>
          bindH (mapH filtered_parent_tree_id ids) (\<lambda>trees.
          bindH (liftH (commit_rewrite oid c)) (\<lambda>x.
            returnH (Rewritten (with_tree x (foldl (overlay (bz (base H))) (rw_tree x) trees))))))"

text \<open>The link in the filtered first parent of the target, when it points to this commit.\<close>

definition unapply_link :: "henv \<Rightarrow> oid \<Rightarrow> oid \<Rightarrow> filt \<Rightarrow> oid option hrun" where
  "unapply_link H oid target uf =
    bindH (readH (\<lambda>st. commit_read st target)) (\<lambda>tc.
      case first_parent_id tc of
        None \<Rightarrow> returnH None
      | Some p \<Rightarrow>
          bindH (readH (\<lambda>st. commit_read st p)) (\<lambda>pc.
          bindH (apply_commit_tree H uf p pc) (\<lambda>ptree.
          bindH (liftH (tree_readable (rw_tree ptree))) (\<lambda>_.
            returnH (case Option.bind (read_josh_link (base H) (rw_tree ptree) [] dot_link_josh) (linked_commit H) of
                Some l \<Rightarrow> if l = oid then Some p else None
              | None \<Rightarrow> None)))))"

definition commit_unapply :: "henv \<Rightarrow> oid \<Rightarrow> cdata \<Rightarrow> filt \<Rightarrow> lazy_ref \<Rightarrow> filt \<Rightarrow> outcome hrun" where
  "commit_unapply H oid c f target uf =
    bindH (liftH (check_experimental (base H) ''unapply filter'')) (\<lambda>_.
      case target of
        Lazy _ \<Rightarrow> liftH (Inl UnresolvedRef)
      | Resolved t \<Rightarrow>
          bindH (unapply_link H oid (raw_oid (base H) t) uf) (\<lambda>linked.
            case linked of
              Some p \<Rightarrow>
                doneH (bindO (get_commit H (Unapply (Resolved (hex_oid p)) uf) oid) (\<lambda>r.
                  bindH (insert_commit H f oid r True) (\<lambda>_. returnH (Some r))))
            | None \<Rightarrow> rewrittenH (apply_commit_tree H f oid c)))"

definition commit_embed :: "henv \<Rightarrow> oid \<Rightarrow> cdata \<Rightarrow> filt \<Rightarrow> path \<Rightarrow> oid option hrun" where
  "commit_embed H oid c f p =
    bindH (liftH (check_experimental (base H) ''embed filter'')) (\<lambda>_.
    bindH (liftH (tree_id c)) (\<lambda>tree.
    bindH (liftH (tree_readable tree)) (\<lambda>_.
      case read_josh_link (base H) tree p dot_link_josh of
        None \<Rightarrow> returnH (Some zero_sha1)
      | Some link \<Rightarrow>
          bindH (liftH (invert (peel link))) (\<lambda>subdir.
            case linked_commit H link of
              None \<Rightarrow> returnH (Some zero_sha1)
            | Some l \<Rightarrow>
                bindO (get_commit H (Unapply (Resolved (hex_oid oid)) subdir) l) (\<lambda>r.
                bindH (insert_commit H f oid r True) (\<lambda>_. returnH (Some r)))))))"

subsection \<open>One commit\<close>

text \<open>The code after the match.\<close>

definition finish_commit :: "henv \<Rightarrow> oid \<Rightarrow> cdata \<Rightarrow> filt \<Rightarrow> outcome \<Rightarrow> oid option hrun" where
  "finish_commit H oid c f out =
    (case out of
       Done r \<Rightarrow> returnH r
     | Rewritten x \<Rightarrow>
         bindO (filtered_parents H f c) (\<lambda>ids. someH (create_filtered_commit H oid c ids x f)))"

definition commit_arm :: "henv \<Rightarrow> commit_fn \<Rightarrow> oid \<Rightarrow> cdata \<Rightarrow> filt \<Rightarrow> outcome hrun" where
  "commit_arm H rec oid c f =
    (case peel f of
       Squash (Some ids) \<Rightarrow> commit_squash_ids H rec oid c f ids
     | Prune \<Rightarrow> commit_prune H oid c f
     | Export \<Rightarrow> doneH (commit_export H oid c f)
     | Unlink \<Rightarrow> doneH (commit_unlink H oid c f)
     | Link mode \<Rightarrow> commit_link H rec oid c f mode
     | Workspace p \<Rightarrow> doneH (commit_workspace H rec oid c f p)
     | Stored p \<Rightarrow> doneH (tree_filter_commit H rec oid c f (\<lambda>t. runnerH H (\<lambda>E R. get_stored E R t p)))
     | Starlark p g \<Rightarrow>
         doneH (bindH (liftH (check_experimental (base H) ''Starlark filter'')) (\<lambda>_.
           tree_filter_commit H rec oid c f (\<lambda>t. runnerH H (\<lambda>E R. get_starlark E R t p g))))
     | Rev arms \<Rightarrow> doneH (commit_resolved H rec oid c f (\<lambda>i. treeH H (\<lambda>E. get_rev_filter E (hex_oid i) arms)))
     | Fold \<Rightarrow> commit_fold H oid c f
     | Hook hook \<Rightarrow> doneH (commit_resolved H rec oid c f (\<lambda>i. liftH (filter_hook (base H) hook (hex_oid i))))
     | Unapply target uf \<Rightarrow> commit_unapply H oid c f target uf
     | Embed p \<Rightarrow> doneH (commit_embed H oid c f p)
     | _ \<Rightarrow> rewrittenH (apply_commit_tree H f oid c))"

fun chain_commits :: "commit_fn \<Rightarrow> filt list \<Rightarrow> oid \<Rightarrow> oid option hrun" where
  "chain_commits rec [] oid = returnH (Some oid)"
| "chain_commits rec (f # fs) oid =
    (if oid = zero_sha1 then returnH (Some oid)
     else bindO (rec f oid) (chain_commits rec fs))"

definition commit_body :: "henv \<Rightarrow> commit_fn \<Rightarrow> filt \<Rightarrow> oid \<Rightarrow> oid option hrun" where
  "commit_body H rec f oid =
    bindH (readH (\<lambda>st. commit_read st oid)) (\<lambda>c.
    bindH (liftH (tree_id c)) (\<lambda>_.
    bindH (commit_arm H rec oid c f) (finish_commit H oid c f)))"

definition commit_step :: "henv \<Rightarrow> commit_fn \<Rightarrow> commit_fn" where
  "commit_step H rec f oid =
    (if f = Nop then returnH (Some oid)
     else case peel f of
       Empty \<Rightarrow> returnH (Some zero_sha1)
     | Chain _ \<Rightarrow> chain_commits rec (flatten_chain f) oid
     | Squash None \<Rightarrow>
         bindH (readH (\<lambda>st. commit_read st oid)) (\<lambda>c.
         bindH (liftH (commit_rewrite oid c)) (\<lambda>x.
           someH (rewrite_commit H c [] x RemoveSig)))
     | Downstack (Resolved b) \<Rightarrow>
         bindH (get_commit H f oid) (\<lambda>cached.
           case cached of
             Some r \<Rightarrow> returnH (Some r)
           | None \<Rightarrow>
               bindH (downstack H oid (raw_oid (base H) b)) (\<lambda>r.
               bindH (insert_commit H f oid r False) (\<lambda>_. returnH (Some r))))
     | Downstack (Lazy _) \<Rightarrow> liftH (Inl UnresolvedRef)
     | _ \<Rightarrow>
         bindH (get_commit H f oid) (\<lambda>cached.
           case cached of
             Some r \<Rightarrow> returnH (Some r)
           | None \<Rightarrow> commit_body H rec f oid))"

primrec apply_to_commit2 :: "henv \<Rightarrow> nat \<Rightarrow> commit_fn" where
  "apply_to_commit2 H 0 = (\<lambda>f oid t. None)"
| "apply_to_commit2 H (Suc n) = commit_step H (apply_to_commit2 H n)"

subsection \<open>Walking a history\<close>

fun walk_commits :: "commit_fn \<Rightarrow> filt \<Rightarrow> oid list \<Rightarrow> unit hrun" where
  "walk_commits ap f [] = returnH ()"
| "walk_commits ap f (oid # oids) =
    bindH (ap f oid) (\<lambda>r. case r of Some _ \<Rightarrow> walk_commits ap f oids | None \<Rightarrow> returnH ())"

text \<open>
  The walk is pruned where the answer is known when it starts. The lookups it makes only fill caches with
  entries that a later lookup computes again; those are not kept.
\<close>

definition known_now :: "henv \<Rightarrow> filt \<Rightarrow> tx \<Rightarrow> oid \<Rightarrow> bool" where
  "known_now H f t oid = (case known H f oid t of Some (Inr b, _) \<Rightarrow> b | _ \<Rightarrow> False)"

definition walk2 :: "henv \<Rightarrow> nat \<Rightarrow> filt \<Rightarrow> oid \<Rightarrow> unit hrun" where
  "walk2 H n f input =
    bindH (known H f input) (\<lambda>k.
      if k then returnH ()
      else
        bindH (\<lambda>t.
            let odb = graph_of (store t);
                w = (if history_flag (get_meta f ''history'') ''linear'' then simplify_first_parent new_walk else new_walk)
            in Some (bindR (push odb w input) (\<lambda>w. into_topo_vec odb w (known_now H f t)), t)) (\<lambda>sorted.
          walk_commits (apply_to_commit2 H n) f (rev sorted)))"

subsection \<open>The loop over missing commits\<close>

text \<open>Of the missing commits those of the highest level, from the last of the sorted list.\<close>

definition walk_missing :: "henv \<Rightarrow> nat \<Rightarrow> (nat \<times> filt \<times> oid) list \<Rightarrow> unit hrun" where
  "walk_missing H n ms =
    (let max_level = (if ms = [] then 0 else fst (last ms)) in
     foldH (\<lambda>_ (level, f, input).
       bindH (set_nesting (Suc level)) (\<lambda>_. walk2 H n f input)) ()
       (takeWhile (\<lambda>(level, _, _). level = max_level) (rev ms)))"

primrec apply_loop :: "henv \<Rightarrow> nat \<Rightarrow> nat \<Rightarrow> filt \<Rightarrow> oid \<Rightarrow> oid hrun" where
  "apply_loop H n 0 f oid = (\<lambda>t. None)"
| "apply_loop H n (Suc k) f oid =
    bindH (apply_to_commit2 H n f oid) (\<lambda>r.
      case r of
        Some i \<Rightarrow> returnH i
      | None \<Rightarrow> bindH (get_missing H) (\<lambda>ms. bindH (walk_missing H n ms) (\<lambda>_. apply_loop H n k f oid)))"

definition apply_to_commit :: "henv \<Rightarrow> nat \<Rightarrow> nat \<Rightarrow> filt \<Rightarrow> oid \<Rightarrow> oid hrun" where
  "apply_to_commit H n k f oid =
    bindH (fuelH (optimize (opt_fuel (base H)) f)) (\<lambda>f. apply_loop H n k f oid)"

end
