(* ===== verification/Commit_Unapply.thy ===== *)
theory Commit_Unapply
  imports Commit_Filter
begin

text \<open>
  Bringing filtered commits back: \<^verbatim>\<open>find_original\<close>, \<^verbatim>\<open>find_unapply_base\<close> and \<^verbatim>\<open>unapply_filter\<close> of
  \<^verbatim>\<open>josh-core/src/history.rs\<close>. The numbers \<open>n\<close> and \<open>k\<close> are the fuel of \<open>apply_to_commit\<close>.

  A walk reads the store as it is when the walk starts; what the filtering writes meanwhile are new objects.
\<close>

subsection \<open>Errors as values\<close>

definition catchH :: "'a hrun \<Rightarrow> 'a result hrun" where
  "catchH m t = map_option (\<lambda>(r, t'). (Inr r, t')) (m t)"

subsection \<open>Finding the original of a filtered commit\<close>

type_synonym fmap = "oid \<Rightarrow> oid option"

record search =
  unlocked :: "oid set"
  pending :: "oid list"
  found :: "oid option"
  failed :: "error option"
  starved :: bool
  search_tx :: tx

text \<open>
  The loop over the pending commits that are unlocked. Each round takes one of them away, so as many
  rounds as there are pending commits are enough. The second component asks the walk to stop.
\<close>

primrec unlock_loop :: "henv \<Rightarrow> nat \<Rightarrow> nat \<Rightarrow> filt \<Rightarrow> oid \<Rightarrow> nat \<Rightarrow> search \<Rightarrow> search \<times> bool" where
  "unlock_loop H n k f filtered 0 s = (s, False)"
| "unlock_loop H n k f filtered (Suc m) s =
    (case find (\<lambda>p. p \<in> unlocked s) (hash_order H (pending s)) of
       None \<Rightarrow> (s, False)
     | Some p \<Rightarrow>
        (let s = s\<lparr> pending := removeAll p (pending s) \<rparr> in
         case apply_to_commit H n k f p (search_tx s) of
           None \<Rightarrow> (s\<lparr> starved := True \<rparr>, True)
         | Some (Inl e, t) \<Rightarrow> (s\<lparr> failed := Some e, search_tx := t \<rparr>, True)
         | Some (Inr i, t) \<Rightarrow>
             (let s = s\<lparr> search_tx := t \<rparr> in
              if i = filtered then (s\<lparr> found := Some p \<rparr>, True)
              else case read_parent_ids (graph_of (store t)) p of
                Inl e \<Rightarrow> (s\<lparr> failed := Some e \<rparr>, True)
              | Inr ps \<Rightarrow> unlock_loop H n k f filtered m (s\<lparr> unlocked := unlocked s \<union> set ps \<rparr>))))"

definition search_visit :: "henv \<Rightarrow> nat \<Rightarrow> nat \<Rightarrow> filt \<Rightarrow> oid \<Rightarrow> (search, oid) visit" where
  "search_visit H n k f filtered s oid =
    (let s = s\<lparr> pending := List.insert oid (pending s) \<rparr> in
     Inr (if oid \<notin> unlocked s then (s, False) else unlock_loop H n k f filtered (length (pending s)) s))"

definition search_history :: "henv \<Rightarrow> nat \<Rightarrow> nat \<Rightarrow> filt \<Rightarrow> oid \<Rightarrow> oid \<Rightarrow> oid option hrun" where
  "search_history H n k f contained_in filtered t =
    (let odb = graph_of (store t) in
     case bindR (push odb new_walk contained_in) (\<lambda>w. discover odb w (search_visit H n k f filtered)
         \<lparr> unlocked = {contained_in}, pending = [], found = None, failed = None, starved = False, search_tx = t \<rparr>) of
       Inl e \<Rightarrow> Some (Inl e, t)
     | Inr s \<Rightarrow>
         if starved s then None
         else Some (case failed s of Some e \<Rightarrow> Inl e | None \<Rightarrow> Inr (found s), search_tx s))"

definition find_unapply_base ::
  "henv \<Rightarrow> nat \<Rightarrow> nat \<Rightarrow> filt \<Rightarrow> oid \<Rightarrow> oid \<Rightarrow> fmap \<Rightarrow> (oid result \<times> fmap) hrun" where
  "find_unapply_base H n k f contained_in filtered m =
    (case m filtered of
       Some orig \<Rightarrow> returnH (Inr orig, m)
     | None \<Rightarrow>
        if contained_in = zero_sha1 then returnH (Inr zero_sha1, m)
        else
          bindH (catchH (apply_to_commit H n k f contained_in)) (\<lambda>r.
            case r of
              Inl e \<Rightarrow> returnH (Inl e, m)
            | Inr i \<Rightarrow>
                (let m = (if i \<noteq> zero_sha1 then m(i \<mapsto> contained_in) else m) in
                 bindH (catchH (search_history H n k f contained_in filtered)) (\<lambda>r.
                   returnH (case r of
                       Inl e \<Rightarrow> (Inl e, m)
                     | Inr None \<Rightarrow> (Inr zero_sha1, m)
                     | Inr (Some orig) \<Rightarrow> (Inr orig, m(filtered \<mapsto> orig)))))))"

definition topo_from :: "bool \<Rightarrow> oid \<Rightarrow> cstore \<Rightarrow> oid list result" where
  "topo_from fp_only oid st =
    (let odb = graph_of st in
     bindR (push odb (if fp_only then simplify_first_parent new_walk else new_walk) oid) (\<lambda>w.
       into_topo_vec odb w (\<lambda>_. False)))"

fun first_original :: "henv \<Rightarrow> nat \<Rightarrow> nat \<Rightarrow> filt \<Rightarrow> oid \<Rightarrow> oid list \<Rightarrow> oid hrun" where
  "first_original H n k f filtered [] = returnH zero_sha1"
| "first_original H n k f filtered (orig # rest) =
    bindH (apply_to_commit H n k f orig) (\<lambda>i.
      if i = filtered then
        bindH (readH (\<lambda>st. read_parent_ids (graph_of st) orig)) (\<lambda>ps.
          if length ps = 1 then
            bindH (apply_to_commit H n k f (hd ps)) (\<lambda>fp.
              if fp = filtered then first_original H n k f filtered rest else returnH orig)
          else returnH orig)
      else first_original H n k f filtered rest)"

definition find_original :: "henv \<Rightarrow> nat \<Rightarrow> nat \<Rightarrow> filt \<Rightarrow> oid \<Rightarrow> oid \<Rightarrow> bool \<Rightarrow> oid hrun" where
  "find_original H n k f contained_in filtered fp_only =
    (if contained_in = zero_sha1 then returnH zero_sha1
     else if f = Nop then returnH filtered
     else bindH (readH (topo_from fp_only contained_in)) (first_original H n k f filtered))"

fun oldest_similar :: "henv \<Rightarrow> nat \<Rightarrow> nat \<Rightarrow> filt \<Rightarrow> oid \<Rightarrow> oid \<Rightarrow> oid list \<Rightarrow> oid hrun" where
  "oldest_similar H n k f filtered prev [] = returnH prev"
| "oldest_similar H n k f filtered prev (r # rs) =
    bindH (apply_to_commit H n k f r) (\<lambda>i.
      if filtered \<noteq> i then returnH prev else oldest_similar H n k f filtered r rs)"

definition find_oldest_similar_commit :: "henv \<Rightarrow> nat \<Rightarrow> nat \<Rightarrow> filt \<Rightarrow> oid \<Rightarrow> oid hrun" where
  "find_oldest_similar_commit H n k f unfiltered =
    bindH (readH (\<lambda>st. push (graph_of st) new_walk unfiltered)) (\<lambda>_.
    bindH (apply_to_commit H n k f unfiltered) (\<lambda>filtered.
    bindH (readH (topo_from False unfiltered)) (oldest_similar H n k f filtered unfiltered)))"

fun branch_base :: "henv \<Rightarrow> nat \<Rightarrow> nat \<Rightarrow> filt \<Rightarrow> oid \<Rightarrow> fmap \<Rightarrow> oid list \<Rightarrow> (oid \<times> fmap) hrun" where
  "branch_base H n k f contained_in m [] = returnH (zero_sha1, m)"
| "branch_base H n k f contained_in m (r # rs) =
    bindH (find_unapply_base H n k f contained_in r m) (\<lambda>(res, m).
      case res of
        Inl _ \<Rightarrow> branch_base H n k f contained_in m rs
      | Inr b \<Rightarrow>
          if b = zero_sha1 then branch_base H n k f contained_in m rs
          else
            bindH (catchH (find_oldest_similar_commit H n k f b)) (\<lambda>new_base.
              returnH (r, m(r \<mapsto> (case new_base of Inr nb \<Rightarrow> nb | Inl _ \<Rightarrow> b)))))"

definition find_new_branch_base :: "henv \<Rightarrow> nat \<Rightarrow> nat \<Rightarrow> filt \<Rightarrow> oid \<Rightarrow> oid \<Rightarrow> (oid \<times> fmap) hrun" where
  "find_new_branch_base H n k f contained_in filtered =
    bindH (readH (topo_from False filtered)) (branch_base H n k f contained_in Map.empty)"

subsection \<open>Reversing a filter over a range of commits\<close>

datatype orphans_mode = KeepOrphans | RemoveOrphans | FailOrphans

definition unapplyH :: "henv \<Rightarrow> filt \<Rightarrow> obj \<Rightarrow> obj \<Rightarrow> oid \<Rightarrow> oid \<Rightarrow> obj hrun" where
  "unapplyH H f tree parent_tree commit parent =
    treeH H (\<lambda>E. unapply E (tree_fuel H) f tree parent_tree (Some (hex_oid commit, hex_oid parent)))"

text \<open>The originals of the filtered parents, as far as there are any.\<close>

fun original_parents ::
  "henv \<Rightarrow> nat \<Rightarrow> nat \<Rightarrow> filt \<Rightarrow> oid \<Rightarrow> fmap \<Rightarrow> oid list \<Rightarrow> ((oid \<times> cdata) list \<times> fmap) hrun" where
  "original_parents H n k f target m [] = returnH ([], m)"
| "original_parents H n k f target m (p # ps) =
    bindH (find_unapply_base H n k f target p m) (\<lambda>(res, m).
    bindH (liftH res) (\<lambda>b.
      if b = zero_sha1 then original_parents H n k f target m ps
      else
        bindH (readH (\<lambda>st. commit_read st b)) (\<lambda>c.
        bindH (original_parents H n k f target m ps) (\<lambda>(cs, m).
          returnH ((b, c) # cs, m)))))"

text \<open>The first of the candidates that is, or descends from, the target.\<close>

fun descendant_tree :: "henv \<Rightarrow> oid \<Rightarrow> (oid \<times> obj) list \<Rightarrow> obj option hrun" where
  "descendant_tree H target [] = returnH None"
| "descendant_tree H target ((p, t) # ps) =
    bindH (if p = target then returnH True else readH (\<lambda>st. is_descendant_of H st p target)) (\<lambda>d.
      if d then returnH (Some t) else descendant_tree H target ps)"

definition merged_tree :: "henv \<Rightarrow> filt \<Rightarrow> oid \<Rightarrow> obj \<Rightarrow> oid \<Rightarrow> oid \<Rightarrow> obj option hrun" where
  "merged_tree H f rv tree p0 p1 =
    bindH (readH (\<lambda>st. merge_commits H st p0 p1 Ours)) (\<lambda>base_ours.
    bindH (unapplyH H f tree base_ours rv p0) (\<lambda>tid_ours.
    bindH (readH (\<lambda>st. merge_commits H st p0 p1 Theirs)) (\<lambda>base_theirs.
    bindH (unapplyH H f tree base_theirs rv p0) (\<lambda>tid_theirs.
      returnH (if tid_ours = tid_theirs then Some tid_ours else None)))))"

definition choose_tree ::
  "henv \<Rightarrow> filt \<Rightarrow> oid \<Rightarrow> oid \<Rightarrow> obj \<Rightarrow> (oid \<times> cdata) list \<Rightarrow> obj list \<Rightarrow> obj hrun" where
  "choose_tree H f target rv tree parents new_trees =
    (let parent_count = length (remdups new_trees) in
     if parent_count = 1 then returnH (hd new_trees)
     else if parent_count = 0 then unapplyH H f tree empty_id rv rv
     else
       bindH (descendant_tree H target (take parent_count (zip (map fst parents) new_trees))) (\<lambda>tid.
       bindH (if tid = None \<and> parent_count = 2
              then merged_tree H f rv tree (fst (parents ! 0)) (fst (parents ! 1))
              else returnH tid) (\<lambda>tid.
         liftH (of_option (Failed ''rejecting merge'') tid))))"

definition drop_orphan :: "henv \<Rightarrow> orphans_mode \<Rightarrow> oid list \<Rightarrow> oid list hrun" where
  "drop_orphan H mode ids =
    (if length ids > 1
     then
       bindH (readH (\<lambda>st. merge_base_octopus H st ids)) (\<lambda>b.
         if b = None
         then (case mode of
             KeepOrphans \<Rightarrow> returnH ids
           | RemoveOrphans \<Rightarrow> returnH (butlast ids)
           | FailOrphans \<Rightarrow> liftH (Inl (Failed ''rejecting new orphan branch'')))
         else returnH ids)
     else returnH ids)"

definition unapply_commit ::
  "henv \<Rightarrow> nat \<Rightarrow> nat \<Rightarrow> filt \<Rightarrow> oid \<Rightarrow> orphans_mode \<Rightarrow> oid option \<Rightarrow> oid \<times> fmap \<Rightarrow> oid \<Rightarrow> (oid \<times> fmap) hrun" where
  "unapply_commit H n k f target mode reparent s rv =
    bindH (readH (\<lambda>st. commit_read st rv)) (\<lambda>module_commit.
      if snd s rv \<noteq> None then returnH s
      else
        bindH (drop_orphan H mode (parent_ids module_commit)) (\<lambda>ids.
        bindH (original_parents H n k f target (snd s) ids) (\<lambda>(parents, m).
        bindH (case (parents, reparent) of
                 ([], Some r) \<Rightarrow> bindH (readH (\<lambda>st. commit_read st r)) (\<lambda>c. returnH [(r, c)])
               | _ \<Rightarrow> returnH parents) (\<lambda>parents.
        bindH (liftH (tree_id module_commit)) (\<lambda>tree.
        bindH (mapH (\<lambda>(p, c). bindH (liftH (tree_id c)) (\<lambda>pt. unapplyH H f tree pt rv p)) parents) (\<lambda>new_trees.
        bindH (choose_tree H f target rv tree parents new_trees) (\<lambda>new_tree.
        bindH (rewrite_commit H module_commit (map fst parents) (from_tree new_tree) Preserve) (\<lambda>ret.
        bindH (case parents of
                 [(p, c)] \<Rightarrow>
                   bindH (liftH (tree_id c)) (\<lambda>pt.
                     if new_tree = pt
                     then readH (\<lambda>st. Inr (Some tree \<noteq> (case first_parent_id module_commit of
                         None \<Rightarrow> None
                       | Some q \<Rightarrow> (case read_tree_id st q of Inr u \<Rightarrow> Some u | Inl _ \<Rightarrow> None))))
                     else returnH False)
               | _ \<Rightarrow> returnH False) (\<lambda>invisible.
          let ret = (if invisible then fst (hd parents) else ret)
          in returnH (ret, m(rv \<mapsto> ret)))))))))))"

definition commit_exists :: "cstore \<Rightarrow> oid \<Rightarrow> bool" where
  "commit_exists st oid = (case map_of st oid of Some (GCommit _) \<Rightarrow> True | _ \<Rightarrow> False)"

definition revs_to_unapply :: "oid \<Rightarrow> oid \<Rightarrow> tx \<Rightarrow> oid list result" where
  "revs_to_unapply new_oid old_oid t =
    (if commit_exists (store t) old_oid
     then range_topo_vec (graph_of (store t)) (josh_sequence (graph_of (store t)) (graph (tx_caches t))) new_oid old_oid
     else topo_from False new_oid (store t))"

definition unapply_filter ::
  "henv \<Rightarrow> nat \<Rightarrow> nat \<Rightarrow> filt \<Rightarrow> oid \<Rightarrow> oid \<Rightarrow> oid \<Rightarrow> orphans_mode \<Rightarrow> oid option \<Rightarrow> oid hrun" where
  "unapply_filter H n k f target old_oid new_oid mode reparent =
    bindH (if old_oid = zero_sha1
           then bindH (catchH (find_new_branch_base H n k f target new_oid)) (\<lambda>r.
             returnH (case r of Inr (b, m) \<Rightarrow> (b, m) | Inl _ \<Rightarrow> (old_oid, Map.empty)))
           else returnH (old_oid, Map.empty)) (\<lambda>(old_oid, m).
      if new_oid = old_oid
      then (case m new_oid of
          Some orig \<Rightarrow> returnH orig
        | None \<Rightarrow> find_original H n k f target new_oid False)
      else
        bindH (\<lambda>t. Some (revs_to_unapply new_oid old_oid t, t)) (\<lambda>revs.
        bindH (foldH (unapply_commit H n k f target mode reparent) (target, m) (rev revs)) (\<lambda>(ret, _).
          returnH ret)))"

end
