(* ===== verification/Filtered_Form.thy ===== *)
theory Filtered_Form
  imports Commit_Unapply
begin

text \<open>
  Filtering a whole history computes the filtered form of every commit. The commits that exist or may be
  written are those of a world: a store without collisions in which every commit has its id. The
  filtered form of a commit is defined by recursion over its parents, in the world; the transaction, its
  caches and its walks compute it.
\<close>

subsection \<open>Stores within a world\<close>

definition sub_store :: "cstore \<Rightarrow> cstore \<Rightarrow> bool" where
  "sub_store S W \<longleftrightarrow> distinct (map fst S) \<and> map_of S \<subseteq>\<^sub>m map_of W"

lemma sub_storeD: "sub_store S W \<Longrightarrow> map_of S c = Some g \<Longrightarrow> map_of W c = Some g"
  by (metis domI map_le_def sub_store_def)

lemma map_of_graph:
  "map_of (graph_of st) c = map_option (\<lambda>g. case g of
      GCommit (Parsed d) \<Rightarrow> Commit (co_parents d) | GCommit (Unparsed t ps) \<Rightarrow> Malformed ps | GOther \<Rightarrow> NonCommit) (map_of st c)"
  unfolding graph_of_def by (induction st) auto

lemma graph_sub: "sub_store S W \<Longrightarrow> map_of (graph_of S) c = Some s \<Longrightarrow> map_of (graph_of W) c = Some s"
  by (auto simp: map_of_graph dest: sub_storeD)

lemma read_sub: "sub_store S W \<Longrightarrow> read_parent_oids (graph_of S) c = Inr ps \<Longrightarrow> read_parent_oids (graph_of W) c = Inr ps"
  by (auto simp: read_parent_oids.simps split: option.splits stored.splits dest: graph_sub)

lemma edge_sub: "sub_store S W \<Longrightarrow> edge (graph_of S) c p \<Longrightarrow> edge (graph_of W) c p"
  by (auto simp: edge_def dest: read_sub)

lemma graph_entry:
  assumes "sub_store S W" "(c, s) \<in> set (graph_of S)"
  shows "(c, s) \<in> set (graph_of W)"
proof -
  have "map fst (graph_of S) = map fst S" by (auto simp: graph_of_def)
  then have "map_of (graph_of S) c = Some s" using assms by (simp add: sub_store_def)
  then show ?thesis using graph_sub [OF assms(1)] map_of_SomeD by fast
qed

lemma sub_store_length: "sub_store S W \<Longrightarrow> length S \<le> length W"
proof -
  assume s: "sub_store S W"
  have "set (map fst S) \<subseteq> set (map fst W)"
  proof
    fix c assume "c \<in> set (map fst S)"
    then obtain g where "map_of S c = Some g" by (cases "map_of S c") (auto simp: map_of_eq_None_iff)
    then have "map_of W c = Some g" by (rule sub_storeD [OF s])
    then show "c \<in> set (map fst W)" by (force dest!: map_of_SomeD)
  qed
  then have "card (set (map fst S)) \<le> card (set (map fst W))" by (intro card_mono) auto
  moreover have "card (set (map fst S)) = length S" using s distinct_card [of "map fst S"] by (simp add: sub_store_def)
  ultimately show ?thesis using card_length [of "map fst W"] by simp
qed

lemma sane_sub: "sane (graph_of W) \<Longrightarrow> sub_store S W \<Longrightarrow> sane (graph_of S)"
proof -
  assume w: "sane (graph_of W)" and s: "sub_store S W"
  have "length (graph_of S) < 2 ^ 64" using w sub_store_length [OF s] by (simp add: sane_def graph_of_def)
  moreover have "universe (graph_of S) \<subseteq> universe (graph_of W)"
    unfolding universe_def using graph_entry [OF s] by fast
  moreover have "ranked (graph_of W) rank \<Longrightarrow> ranked (graph_of S) rank" for rank
    using edge_sub [OF s] by (auto simp: ranked_def)
  moreover have "(c, s') \<in> set (graph_of S) \<Longrightarrow> s' \<noteq> Malformed ps" for c s' ps
    using w graph_entry [OF s] unfolding sane_def by blast
  ultimately show ?thesis using w unfolding sane_def by blast
qed

text \<open>A commit whose history is complete looks the same in the smaller and in the larger store.\<close>

lemma complete_read: "complete odb c \<Longrightarrow> a \<in> ancestors odb c \<Longrightarrow> \<exists>ps. read_parent_oids odb a = Inr ps"
  unfolding complete_def ok_def by (metis sum.case(1) sum.exhaust)

lemma ancestors_sub:
  assumes "sub_store S W" "complete (graph_of S) c"
  shows "ancestors (graph_of W) c = ancestors (graph_of S) c"
proof
  show "ancestors (graph_of S) c \<subseteq> ancestors (graph_of W) c"
    using edge_sub [OF assms(1)] rtranclp_mono [of "edge (graph_of S)" "edge (graph_of W)"]
    by (auto simp: ancestors_def)
  show "ancestors (graph_of W) c \<subseteq> ancestors (graph_of S) c"
  proof
    fix a assume "a \<in> ancestors (graph_of W) c"
    then have "(edge (graph_of W))\<^sup>*\<^sup>* c a" by (simp add: ancestors_def)
    then show "a \<in> ancestors (graph_of S) c"
    proof (induction rule: rtranclp_induct)
      case base
      then show ?case by (simp add: ancestors_def)
    next
      case (step b p)
      then obtain ps where "read_parent_oids (graph_of S) b = Inr ps"
        using complete_read [OF assms(2)] by blast
      then have "edge (graph_of S) b p" using step(2) read_sub [OF assms(1)] by (auto simp: edge_def)
      then show ?case using step(3) by (auto simp: ancestors_def)
    qed
  qed
qed

lemma read_parents_sub:
  assumes "sub_store S W" "complete (graph_of S) c" "a \<in> ancestors (graph_of S) c"
  shows "read_parent_oids (graph_of W) a = read_parent_oids (graph_of S) a"
proof -
  obtain ps where "read_parent_oids (graph_of S) a = Inr ps"
    using complete_read [OF assms(2,3)] by blast
  then show ?thesis using read_sub [OF assms(1)] by simp
qed

lemma complete_sub: "sub_store S W \<Longrightarrow> complete (graph_of S) c \<Longrightarrow> complete (graph_of W) c"
  using ancestors_sub read_parents_sub unfolding complete_def by metis

lemma roots_sub: "sub_store S W \<Longrightarrow> complete (graph_of S) c \<Longrightarrow> roots (graph_of W) c = roots (graph_of S) c"
  using read_parents_sub [of S W c] by (auto simp: roots_def ancestors_sub)

lemma pow_edge_sub:
  assumes "sub_store S W" "complete (graph_of S) c"
  shows "(edge (graph_of W) ^^ n) c p \<longleftrightarrow> (edge (graph_of S) ^^ n) c p"
proof (induction n arbitrary: p)
  case (Suc n)
  have "(edge (graph_of S) ^^ n) c q \<Longrightarrow> edge (graph_of W) q p \<longleftrightarrow> edge (graph_of S) q p" for q
  proof -
    assume "(edge (graph_of S) ^^ n) c q"
    then have "q \<in> ancestors (graph_of S) c" by (auto simp: ancestors_def dest: relpowp_imp_rtranclp)
    from read_parents_sub [OF assms this] show ?thesis by (simp add: edge_def)
  qed
  then show ?case using Suc by auto
qed simp

lemma depth_sub: "sub_store S W \<Longrightarrow> complete (graph_of S) c \<Longrightarrow> depth (graph_of W) c = depth (graph_of S) c"
  by (simp add: depth_def pow_edge_sub)

lemma hint_sub:
  assumes "sub_store S W" "complete (graph_of S) c"
  shows "hint_of (graph_of W) c = hint_of (graph_of S) c"
proof -
  note r = read_parents_sub [OF assms ancestors_self]
  have p: "parents_of (graph_of W) c = parents_of (graph_of S) c" by (simp add: parents_of_def r)
  have "p \<in> set (parents_of (graph_of S) c) \<Longrightarrow> complete (graph_of S) p" for p
    using assms(2) complete_parents [of "graph_of S" c] unfolding parents_of_def
    by (cases "read_parent_oids (graph_of S) c") auto
  then have "p \<in> set (parents_of (graph_of S) c) \<Longrightarrow> depth (graph_of W) p = depth (graph_of S) p" for p
    using depth_sub [OF assms(1)] by blast
  then have "jump (graph_of W) c = jump (graph_of S) c"
    using depth_sub [OF assms] by (auto simp: jump_def p split: list.splits)
  then show ?thesis by (simp add: hint_of_def depth_sub [OF assms] p)
qed

lemma cache_ok_sub: "cache_ok (graph_of S) gc \<Longrightarrow> sub_store S W \<Longrightarrow> cache_ok (graph_of W) gc"
  unfolding cache_ok_def roots_blob_def
  by (auto dest: complete_sub simp: hint_sub roots_sub)

subsection \<open>The filtered form of a commit\<close>

definition filtered_tree :: "henv \<Rightarrow> filt \<Rightarrow> obj \<Rightarrow> obj" where
  "filtered_tree H f t =
    (case apply_filter (base H) (tree_fuel H) f (from_tree t) empty_caches of
       Some (Inr x, _) \<Rightarrow> rw_tree x
     | _ \<Rightarrow> empty_id)"

definition tree_of :: "cstore \<Rightarrow> oid \<Rightarrow> obj" where
  "tree_of W i = (case read_tree_id W i of Inr t \<Rightarrow> t | Inl _ \<Rightarrow> empty_id)"

definition flagged :: "filt \<Rightarrow> string \<Rightarrow> bool" where
  "flagged f flag = history_flag (bt_get (into_meta f) ''history'') flag"

text \<open>The filtered parents that count, given the filtered forms of all parents.\<close>

definition kept_parents :: "filt \<Rightarrow> cstore \<Rightarrow> oid list \<Rightarrow> oid list" where
  "kept_parents f W rs =
    (let ps = List.filter (\<lambda>r. r \<noteq> zero_sha1) rs;
         empties = (\<exists>p \<in> set ps. tree_of W p = empty_id);
         unrelated = (length ps > 1 \<and> (\<Inter>p \<in> set ps. roots (graph_of W) p) = {});
         others = (\<exists>p \<in> set ps. tree_of W p \<noteq> empty_id);
         ps = (if empties \<and> unrelated \<and> others then List.filter (\<lambda>p. tree_of W p \<noteq> empty_id) ps else ps)
     in if flagged f ''linear'' then take 1 ps else ps)"

datatype verdict = Dropped oid | Written gcommit

text \<open>A commit that changes nothing the filter shows is dropped for its first parent.\<close>

definition written_verdict :: "henv \<Rightarrow> filt \<Rightarrow> cstore \<Rightarrow> gcommit \<Rightarrow> oid list \<Rightarrow> verdict" where
  "written_verdict H f W d ps =
    (let tree = filtered_tree H f (co_tree d);
         unchanged = (\<forall>p \<in> set (co_parents d). tree_of W p = co_tree d);
         selected = (if (\<exists>p \<in> set ps. tree_of W p \<noteq> tree) \<or> unchanged then ps else []);
         droppable = (selected = [] \<and> \<not> (co_parents d = [] \<and> is_empty_root (co_tree d) = Inr True))
     in
     if droppable \<and> ps \<noteq> [] then Dropped (hd ps)
     else if droppable \<and> tree = empty_id then Dropped zero_sha1
     else Written (d\<lparr> co_tree := tree, co_parents := selected,
       co_extra := gpgsig_headers (gpgsig_mode_of (bt_get (into_meta f) ''gpgsig'')) (co_extra d) \<rparr>))"

text \<open>So is a merge that became trivial.\<close>

definition filtered_verdict :: "henv \<Rightarrow> filt \<Rightarrow> cstore \<Rightarrow> gcommit \<Rightarrow> oid list \<Rightarrow> verdict" where
  "filtered_verdict H f W d rs =
    (let ps = kept_parents f W rs;
         was_trivial = (co_parents d \<noteq> [] \<and> tree_of W (hd (co_parents d)) = co_tree d)
     in
     if \<not> flagged f ''keep-trivial-merges'' \<and> length ps > 1 \<and>
        tree_of W (hd ps) = filtered_tree H f (co_tree d) \<and> \<not> was_trivial
     then Dropped (hd ps)
     else written_verdict H f W d ps)"

text \<open>A written commit is in the world under its id.\<close>

definition verdict_id :: "henv \<Rightarrow> cstore \<Rightarrow> verdict \<Rightarrow> oid \<Rightarrow> bool" where
  "verdict_id H W v r \<longleftrightarrow>
    (case v of
       Dropped p \<Rightarrow> r = p
     | Written d \<Rightarrow> r = hash_commit H d \<and> map_of W r = Some (GCommit (Parsed d)))"

inductive filtered_form :: "henv \<Rightarrow> filt \<Rightarrow> cstore \<Rightarrow> oid \<Rightarrow> oid \<Rightarrow> bool" for H f W where
  filtered: "commit_read W c = Inr (Parsed d) \<Longrightarrow> list_all2 (filtered_form H f W) (co_parents d) rs \<Longrightarrow>
    verdict_id H W (filtered_verdict H f W d rs) r \<Longrightarrow> filtered_form H f W c r"

lemma verdict_id_fun: "verdict_id H W v r \<Longrightarrow> verdict_id H W v r' \<Longrightarrow> r = r'"
  by (auto simp: verdict_id_def split: verdict.splits)

lemma filtered_form_fun:
  assumes "filtered_form H f W c r" "filtered_form H f W c r'"
  shows "r = r'"
  using assms
proof (induction arbitrary: r' rule: filtered_form.induct)
  case (filtered c d rs r)
  from filtered.prems obtain rs' where rs': "list_all2 (filtered_form H f W) (co_parents d) rs'"
    "verdict_id H W (filtered_verdict H f W d rs') r'"
    using filtered.hyps(1) by (auto elim: filtered_form.cases)
  have "list_all2 (=) rs rs'"
    using filtered.IH rs'(1) by (auto simp: list_all2_conv_all_nth)
  then have "rs = rs'" by (simp add: list.rel_eq)
  then show ?case using rs'(2) filtered.hyps(2) verdict_id_fun by blast
qed

definition world :: "cstore \<Rightarrow> bool" where
  "world W \<longleftrightarrow> sane (graph_of W) \<and> map_of W zero_sha1 = None"

lemma commit_read_Parsed: "commit_read W c = Inr (Parsed d) \<longleftrightarrow> map_of W c = Some (GCommit (Parsed d))"
  by (auto simp: commit_read_def split: option.splits gobj.splits)

lemma parents_Parsed: "map_of W c = Some (GCommit (Parsed d)) \<Longrightarrow> read_parent_oids (graph_of W) c = Inr (co_parents d)"
  by (simp add: read_parent_oids.simps map_of_graph)

lemma tree_Parsed: "map_of W c = Some (GCommit (Parsed d)) \<Longrightarrow> read_tree_id W c = Inr (co_tree d)"
  by (simp add: read_tree_id_def commit_read_def)

lemma kept_parents_sub: "set (kept_parents f W rs) \<subseteq> {r \<in> set rs. r \<noteq> zero_sha1}"
  by (auto simp: kept_parents_def Let_def dest: in_set_takeD split: if_splits)

text \<open>The form of a commit is a commit with the filtered tree, or it is dropped and the filtered tree is empty.\<close>

lemma hd_kept: "ps \<noteq> [] \<Longrightarrow> set ps \<subseteq> A \<Longrightarrow> hd ps \<in> A"
  by (cases ps) auto

lemma verdict_Dropped:
  assumes "filtered_verdict H f W d rs = Dropped p"
  shows "(p = zero_sha1 \<and> filtered_tree H f (co_tree d) = empty_id) \<or>
    (kept_parents f W rs \<noteq> [] \<and> p = hd (kept_parents f W rs) \<and> tree_of W p = filtered_tree H f (co_tree d))"
proof -
  have "Suc 0 < length ps \<Longrightarrow> ps \<noteq> []" and "ps \<noteq> [] \<Longrightarrow> (\<forall>q \<in> set ps. P q) \<Longrightarrow> P (hd ps)" for ps :: "oid list" and P
    by auto
  then show ?thesis using assms by (auto simp: filtered_verdict_def written_verdict_def Let_def split: if_splits)
qed

lemma verdict_tree:
  assumes "verdict_id H W (filtered_verdict H f W d rs) r" "zero_sha1 \<notin> dom (map_of W)"
    and "\<And>p. p \<in> set rs \<Longrightarrow> p \<noteq> zero_sha1 \<Longrightarrow> p \<in> dom (map_of W)"
  shows "(r = zero_sha1 \<and> filtered_tree H f (co_tree d) = empty_id) \<or>
    (r \<noteq> zero_sha1 \<and> r \<in> dom (map_of W) \<and> tree_of W r = filtered_tree H f (co_tree d))"
proof -
  let ?ps = "kept_parents f W rs"
  have hd: "?ps \<noteq> [] \<Longrightarrow> hd ?ps \<noteq> zero_sha1 \<and> hd ?ps \<in> dom (map_of W)"
    using hd_kept [OF _ kept_parents_sub] assms(3) by blast
  show ?thesis
  proof (cases "filtered_verdict H f W d rs")
    case (Dropped p)
    from verdict_Dropped [OF this] show ?thesis using assms(1) hd by (auto simp: verdict_id_def Dropped)
  next
    case (Written d')
    then have "co_tree d' = filtered_tree H f (co_tree d)"
      by (auto simp: filtered_verdict_def written_verdict_def Let_def split: if_splits)
    then show ?thesis using assms(1,2) Written tree_Parsed [of W r d'] by (auto simp: verdict_id_def tree_of_def)
  qed
qed

lemma filtered_form_tree:
  assumes "filtered_form H f W c r" "world W" "commit_read W c = Inr (Parsed d)"
  shows "(r = zero_sha1 \<and> filtered_tree H f (co_tree d) = empty_id) \<or>
    (r \<noteq> zero_sha1 \<and> r \<in> dom (map_of W) \<and> tree_of W r = filtered_tree H f (co_tree d))"
  using assms
proof (induction arbitrary: d rule: filtered_form.induct)
  case (filtered c d0 rs r)
  have "p \<in> set rs \<Longrightarrow> p \<noteq> zero_sha1 \<Longrightarrow> p \<in> dom (map_of W)" for p
  proof -
    assume "p \<in> set rs" "p \<noteq> zero_sha1"
    then obtain q where q: "filtered_form H f W q p"
      "\<And>d. commit_read W q = Inr (Parsed d) \<Longrightarrow> p \<in> dom (map_of W)"
      using filtered.IH filtered.prems(1) by (auto simp: list_all2_conv_all_nth in_set_conv_nth)
    then show ?thesis by (auto elim: filtered_form.cases)
  qed
  then show ?case using verdict_tree [OF filtered.hyps(2)] filtered.prems filtered.hyps(1) by (auto simp: world_def)
qed

end
