(* ===== verification/Filtered_Run.thy ===== *)
theory Filtered_Run
  imports Filtered_Form
begin

text \<open>
  The steps that filter one commit, over a transaction whose store lies in a world and whose caches hold
  filtered forms: looking a commit up, filtering its tree, choosing its parents, writing it. Each lemma runs one operation
  of \<^verbatim>\<open>history.rs\<close> or \<^verbatim>\<open>transaction.rs\<close> and says what it answers and what it leaves behind.
\<close>

subsection \<open>Running a step\<close>

lemma bindH_step: "m t = Some (Inr x, t') \<Longrightarrow> bindH m f t = f x t'"
  by (simp add: bindH_def)

lemma bindH_fails: "m t = Some (Inl e, t') \<Longrightarrow> bindH m f t = Some (Inl e, t')"
  by (simp add: bindH_def)

lemma liftH_step [simp]: "liftH r t = Some (r, t)" "bindH (returnH x) f t = f x t"
  "bindH (modifyH u) g t = g () (u t)" "modifyH u t = Some (Inr (), u t)"
  by (simp_all add: liftH_def bindH_def modifyH_def)

lemma readH_step [simp]: "readH q t = Some (q (store t), t)"
  by (simp add: readH_def)

lemma bindO_step: "m t = Some (Inr (Some x), t') \<Longrightarrow> bindO m f t = f x t'"
  by (simp add: bindO_def bindH_def)

lemma bindO_None: "m t = Some (Inr None, t') \<Longrightarrow> bindO m f t = Some (Inr None, t')"
  by (simp add: bindO_def bindH_def)

subsection \<open>What a transaction must hold\<close>

definition filter_text :: "henv \<Rightarrow> filt \<Rightarrow> string option" where
  "filter_text H f = spec (printer.truncate (base H)) (opt_fuel (base H)) f"

definition looked_up :: "henv \<Rightarrow> filt \<Rightarrow> tx \<Rightarrow> oid \<Rightarrow> oid option" where
  "looked_up H f t c =
    (case commit_map t (f, c) of
       Some r \<Rightarrow> Some r
     | None \<Rightarrow>
        (case first_hit sled_read (backends t) (the (filter_text H f), c) of
           None \<Rightarrow> None
         | Some r \<Rightarrow> if r = zero_sha1 \<or> map_of (store t) r \<noteq> None then Some r else None))"

lemma looked_up_upd [simp]:
  "looked_up H f (t\<lparr> tx_caches := x1 \<rparr>) c = looked_up H f t c" "looked_up H f (t\<lparr> missing := x2 \<rparr>) c = looked_up H f t c"
  "looked_up H f (t\<lparr> misses := x3 \<rparr>) c = looked_up H f t c" "looked_up H f (t\<lparr> nesting_level := x4 \<rparr>) c = looked_up H f t c"
  "looked_up H f (t\<lparr> last_written_commit := x5 \<rparr>) c = looked_up H f t c"
  by (simp_all add: looked_up_def cong: option.case_cong)

definition settled :: "cstore \<Rightarrow> oid \<Rightarrow> bool" where
  "settled S r \<longleftrightarrow> r = zero_sha1 \<or> complete (graph_of S) r"

text \<open>
  The store is part of the world, every cached entry is right, and what was missed belongs to this filter
  and has a readable history.
\<close>

definition tx_ok :: "henv \<Rightarrow> filt \<Rightarrow> cstore \<Rightarrow> tx \<Rightarrow> bool" where
  "tx_ok H f W t \<longleftrightarrow>
    sub_store (store t) W \<and> cache_ok (graph_of (store t)) (graph (tx_caches t)) \<and>
    (\<forall>i tree. last_written_commit t = Some (i, tree) \<longrightarrow> read_tree_id (store t) i = Inr tree) \<and>
    (\<forall>c r. commit_map t (f, c) = Some r \<longrightarrow> filtered_form H f W c r \<and> settled (store t) r) \<and>
    (\<forall>c r. first_hit sled_read (backends t) (the (filter_text H f), c) = Some r \<longrightarrow>
      filtered_form H f W c r \<and> (map_of (store t) r \<noteq> None \<longrightarrow> settled (store t) r)) \<and>
    (\<forall>(l, g, i) \<in> set (missing t). g = f \<and> complete (graph_of (store t)) i)"

lemma tx_okD:
  assumes "tx_ok H f W t"
  shows "sub_store (store t) W" "cache_ok (graph_of (store t)) (graph (tx_caches t))"
    "last_written_commit t = Some (i, tree) \<Longrightarrow> read_tree_id (store t) i = Inr tree"
    "(l, g, i) \<in> set (missing t) \<Longrightarrow> g = f \<and> complete (graph_of (store t)) i"
  using assms by (auto simp: tx_ok_def)

lemma looked_up_right: "tx_ok H f W t \<Longrightarrow> looked_up H f t c = Some r \<Longrightarrow> filtered_form H f W c r \<and> settled (store t) r"
proof -
  assume t: "tx_ok H f W t" and l: "looked_up H f t c = Some r"
  show ?thesis
  proof (cases "commit_map t (f, c)")
    case None
    then have "first_hit sled_read (backends t) (the (filter_text H f), c) = Some r"
      "r = zero_sha1 \<or> map_of (store t) r \<noteq> None"
      using l by (auto simp: looked_up_def split: option.splits if_splits)
    with t show ?thesis unfolding tx_ok_def settled_def by blast
  next
    case (Some r')
    then show ?thesis using t l by (simp add: looked_up_def tx_ok_def)
  qed
qed

text \<open>Lookups change nothing that matters.\<close>

definition unmoved :: "henv \<Rightarrow> filt \<Rightarrow> tx \<Rightarrow> tx \<Rightarrow> bool" where
  "unmoved H f t t' \<longleftrightarrow> store t' = store t \<and> commit_map t' = commit_map t \<and> nesting_level t' = nesting_level t \<and>
    last_written_commit t' = last_written_commit t \<and> (\<forall>c. looked_up H f t' c = looked_up H f t c)"

lemma unmoved_refl: "unmoved H f t t"
  by (simp add: unmoved_def)

lemma unmoved_trans: "unmoved H f t u \<Longrightarrow> unmoved H f u v \<Longrightarrow> unmoved H f t v"
  by (simp add: unmoved_def)

lemma unmoved_store: "unmoved H f t t' \<Longrightarrow> store t' = store t"
  by (simp add: unmoved_def)

lemma unmoved_looked_up: "unmoved H f t t' \<Longrightarrow> looked_up H f t' c = looked_up H f t c"
  by (simp add: unmoved_def)

lemma tx_sane: "world W \<Longrightarrow> tx_ok H f W t \<Longrightarrow> sane (graph_of (store t))"
  using sane_sub tx_okD(1) unfolding world_def by blast

lemma graphH_ok:
  assumes "world W" "tx_ok H f W t" "cache_ok (graph_of (store t)) g"
  shows "tx_ok H f W (t\<lparr> tx_caches := (tx_caches t)\<lparr> graph := g \<rparr> \<rparr>)" (is ?a)
    "unmoved H f t (t\<lparr> tx_caches := (tx_caches t)\<lparr> graph := g \<rparr> \<rparr>)" (is ?b)
  using assms by (simp_all add: tx_ok_def unmoved_def)

lemma hint_step:
  assumes "world W" "tx_ok H f W t" "complete (graph_of (store t)) c"
  shows "\<exists>t'. graphH (\<lambda>odb. compute_history_hint odb c) t = Some (Inr (hint_of (graph_of (store t)) c), t') \<and>
    tx_ok H f W t' \<and> unmoved H f t t' \<and> missing t' = missing t \<and> backends t' = backends t"
proof -
  obtain r gc where e: "ensure_hint_cached (graph_of (store t)) c (graph (tx_caches t)) = (r, gc)" by fastforce
  from ensure_correct [OF tx_sane [OF assms(1,2)] tx_okD(2) [OF assms(2)], of c] e assms(3)
  obtain b where r: "r = Inr (hint_of (graph_of (store t)) c, b)" and gc: "cache_ok (graph_of (store t)) gc"
    by (auto split: sum.splits)
  show ?thesis using e r graphH_ok [OF assms(1,2) gc] by (simp add: graphH_def compute_history_hint_def)
qed

lemma get2_step:
  assumes "world W" "tx_ok H f W t" "complete (graph_of (store t)) c" "f \<noteq> Nop" "filter_text H f = Some key"
  shows "\<exists>t'. get2 H f c t = Some (Inr (looked_up H f t c), t') \<and> tx_ok H f W t' \<and> unmoved H f t t' \<and> missing t' = missing t"
proof -
  obtain u where u: "graphH (\<lambda>odb. compute_history_hint odb c) t = Some (Inr (hint_of (graph_of (store t)) c), u)"
    "tx_ok H f W u" "unmoved H f t u" "missing u = missing t" "backends u = backends t"
    using hint_step [OF assms(1-3)] by blast
  show ?thesis
  proof (cases "commit_map u (f, c)")
    case (Some r)
    then have "looked_up H f t c = Some r" using u(3) by (simp add: unmoved_def looked_up_def)
    then show ?thesis using u Some assms(4) by (simp add: get2_def bindH_def)
  next
    case None
    obtain r bs where p: "read_propagate sled_read sled_write (backends u) (key, c) = (r, bs)" by fastforce
    have r: "r = first_hit sled_read (backends u) (key, c)" using sl.propagate_first [of "backends u" "(key, c)"] p by simp
    have bs: "first_hit sled_read bs k = first_hit sled_read (backends u) k" for k
      using sl.propagate_keeps [of "backends u" "(key, c)" k] p by simp
    have l: "looked_up H f (u\<lparr> backends := bs \<rparr>) c' = looked_up H f u c'" for c'
      by (simp add: looked_up_def bs cong: option.case_cong)
    have "get2 H f c t = Some (Inr (looked_up H f u c), u\<lparr> backends := bs \<rparr>)"
      using u(1) p r None assms(4,5) u(3)
      by (simp add: get2_def bindH_def sled_tree_def fuelH_def filter_text_def looked_up_def split: option.split)
    moreover have "tx_ok H f W (u\<lparr> backends := bs \<rparr>)" using u(2) by (simp add: tx_ok_def bs)
    moreover have "unmoved H f t (u\<lparr> backends := bs \<rparr>)" using u(3) l by (simp add: unmoved_def)
    ultimately show ?thesis using u(4) unmoved_looked_up [OF u(3)] by auto
  qed
qed

lemma known_step:
  assumes "world W" "tx_ok H f W t" "complete (graph_of (store t)) c" "f \<noteq> Nop" "filter_text H f = Some key"
  shows "\<exists>t'. known H f c t = Some (Inr (looked_up H f t c \<noteq> None), t') \<and> tx_ok H f W t' \<and> unmoved H f t t' \<and> missing t' = missing t"
  using get2_step [OF assms] by (auto simp: known_def bindH_def)

lemma get_step:
  assumes "world W" "tx_ok H f W t" "complete (graph_of (store t)) c" "f \<noteq> Nop" "filter_text H f = Some key"
  shows "\<exists>t'. get_commit H f c t = Some (Inr (looked_up H f t c), t') \<and> tx_ok H f W t' \<and> unmoved H f t t' \<and>
    missing t' = missing t @ (if looked_up H f t c = None then [(nesting_level t, f, c)] else [])"
proof -
  obtain u where u: "get2 H f c t = Some (Inr (looked_up H f t c), u)" "tx_ok H f W u" "unmoved H f t u" "missing u = missing t"
    using get2_step [OF assms] by blast
  show ?thesis
  proof (cases "looked_up H f t c")
    case None
    let ?v = "u\<lparr> misses := Suc (misses u), missing := missing u @ [(nesting_level u, f, c)] \<rparr>"
    have "tx_ok H f W ?v" using u(2) assms(3) unmoved_store [OF u(3)] by (auto simp: tx_ok_def)
    moreover have "unmoved H f t ?v" using u(3) by (simp add: unmoved_def)
    ultimately show ?thesis using None u by (simp add: get_commit_def bindH_def unmoved_def)
  qed (use u in \<open>simp add: get_commit_def bindH_def\<close>)
qed

subsection \<open>Filtered parents\<close>

definition nests :: "tx \<Rightarrow> tx \<Rightarrow> filt \<Rightarrow> oid set \<Rightarrow> bool" where
  "nests t t' f C \<longleftrightarrow> set (missing t) \<subseteq> set (missing t') \<and>
    set (missing t') \<subseteq> set (missing t) \<union> {nesting_level t} \<times> {f} \<times> C"

lemma all_looked_up:
  assumes "tx_ok H f W t" "\<forall>p \<in> set ps. looked_up H f t p \<noteq> None"
  shows "\<exists>rs. map (looked_up H f t) ps = map Some rs \<and> list_all2 (filtered_form H f W) ps rs \<and> (\<forall>r \<in> set rs. settled (store t) r)"
  using assms(2)
proof (induction ps)
  case (Cons p ps)
  then obtain rs r where "map (looked_up H f t) ps = map Some rs" "list_all2 (filtered_form H f W) ps rs"
    "\<forall>r \<in> set rs. settled (store t) r" "looked_up H f t p = Some r" by auto
  then show ?case using looked_up_right [OF assms(1), of p r] by (intro exI [of _ "r # rs"]) auto
qed simp

lemma mapOH_get:
  assumes "world W" "tx_ok H f W t" "\<forall>p \<in> set ps. complete (graph_of (store t)) p" "f \<noteq> Nop" "filter_text H f = Some key"
  shows "\<exists>t'. mapOH (get_commit H f) ps t =
      Some (Inr (if \<forall>p \<in> set ps. looked_up H f t p \<noteq> None then Some (map (the \<circ> looked_up H f t) ps) else None), t') \<and>
    tx_ok H f W t' \<and> unmoved H f t t' \<and> nests t t' f {p \<in> set ps. looked_up H f t p = None} \<and>
    ((\<forall>p \<in> set ps. looked_up H f t p \<noteq> None) \<longrightarrow> missing t' = missing t)"
  using assms(2,3)
proof (induction ps arbitrary: t)
  case Nil
  then show ?case by (auto simp: unmoved_refl nests_def)
next
  case (Cons p ps)
  obtain u where u: "get_commit H f p t = Some (Inr (looked_up H f t p), u)" "tx_ok H f W u" "unmoved H f t u"
    "missing u = missing t @ (if looked_up H f t p = None then [(nesting_level t, f, p)] else [])"
    using get_step [OF assms(1) Cons.prems(1) _ assms(4,5), of p] Cons.prems(2) by auto
  show ?case
  proof (cases "looked_up H f t p")
    case None
    then show ?thesis using u by (auto simp: bindH_def nests_def)
  next
    case (Some r)
    have l: "looked_up H f u = looked_up H f t" using unmoved_looked_up [OF u(3)] by (simp add: fun_eq_iff)
    obtain v where v: "mapOH (get_commit H f) ps u =
        Some (Inr (if \<forall>p \<in> set ps. looked_up H f t p \<noteq> None then Some (map (the \<circ> looked_up H f t) ps) else None), v)"
      "tx_ok H f W v" "unmoved H f u v" "nests u v f {p \<in> set ps. looked_up H f t p = None}"
      "(\<forall>p \<in> set ps. looked_up H f t p \<noteq> None) \<Longrightarrow> missing v = missing u"
      using Cons.IH [OF u(2)] Cons.prems(2) unmoved_store [OF u(3)] unfolding l by auto
    have "nests t v f {p' \<in> set (p # ps). looked_up H f t p' = None}"
      using v(4) u(3,4) Some by (auto simp: nests_def unmoved_def)
    then show ?thesis using u(1,4) v Some unmoved_trans [OF u(3) v(3)] by (auto simp: bindH_def)
  qed
qed

subsection \<open>Filtering the tree\<close>

text \<open>What the filter does to a good tree, for every store.\<close>

definition tree_law :: "henv \<Rightarrow> filt \<Rightarrow> bool" where
  "tree_law H f \<longleftrightarrow>
    (\<forall>S x c. good (rw_tree x) \<longrightarrow>
      apply_filter (env_at H S) (tree_fuel H) f x c = Some (Inr (with_tree x (filtered_tree H f (rw_tree x))), c))"

lemma moved_fun: "moved_tree f t u \<Longrightarrow> moved_tree f t v \<Longrightarrow> u = v"
  by (rule view_ext [OF moved_good moved_good]) (auto simp: moved_iff)

lemma bz_env_at [simp]: "bz (env_at H S) = bz (base H)"
  by (simp add: env_at_def)

lemma tree_law_reloc:
  assumes "bisect_ok (bz (base H))" "reloc f" "height f < tree_fuel H"
  shows "tree_law H f"
  unfolding tree_law_def
proof (intro allI impI)
  fix S c and x :: rewrite assume g: "good (rw_tree x)"
  obtain s where s: "apply_filter (base H) (tree_fuel H) f (from_tree (rw_tree x)) empty_caches =
      Some (Inr (from_tree s), empty_caches)" "moved_tree f (rw_tree x) s"
    using apply_reloc [OF assms g] by blast
  have "bisect_ok (bz (env_at H S))" using assms(1) by simp
  from applies_reloc [OF this assms(2,3)] obtain u where
    u: "r_apply (runs (env_at H S) (tree_fuel H)) f x c = Some (Inr (with_tree x u), c)" "moved_tree f (rw_tree x) u"
    by (rule appliesE [OF _ g])
  have "u = filtered_tree H f (rw_tree x)" using s moved_fun [OF u(2) s(2)] by (simp add: filtered_tree_def)
  then show "apply_filter (env_at H S) (tree_fuel H) f x c = Some (Inr (with_tree x (filtered_tree H f (rw_tree x))), c)"
    using u(1) by (simp add: apply_filter_def)
qed

definition tree_rewrite :: "oid \<Rightarrow> obj \<Rightarrow> rewrite" where
  "tree_rewrite oid t = \<lparr> rw_tree = t, rw_commit = hex_oid oid, rw_author = None, rw_committer = None, rw_message = None \<rparr>"

lemma apply_tree_step:
  assumes "tree_law H f" "good (co_tree d)"
  shows "apply_commit_tree H f oid (Parsed d) t = Some (Inr (tree_rewrite oid (filtered_tree H f (co_tree d))), t)"
proof -
  have r: "from_commit_data (hex_oid oid) \<lparr> cd_tree = co_tree d, cd_parents = [], cd_message = [] \<rparr> = tree_rewrite oid (co_tree d)"
    by (simp add: from_commit_data_def tree_rewrite_def)
  have "good (rw_tree (tree_rewrite oid (co_tree d)))" using assms(2) by (simp add: tree_rewrite_def)
  then have "apply_filter (env_at H (store t)) (tree_fuel H) f (tree_rewrite oid (co_tree d)) (tx_caches t) =
    Some (Inr (tree_rewrite oid (filtered_tree H f (co_tree d))), tx_caches t)"
    using assms(1) unfolding tree_law_def by (simp add: with_tree_def tree_rewrite_def)
  then show ?thesis
    by (simp add: apply_commit_tree_def commit_rewrite_def bindH_def applyH_def treeH_def r)
qed

subsection \<open>Commits of the store\<close>

lemma complete_commit:
  assumes "complete (graph_of S) p"
  obtains d where "map_of S p = Some (GCommit (Parsed d))"
proof -
  obtain ps where "read_parent_oids (graph_of S) p = Inr ps" using complete_read [OF assms ancestors_self] ..
  then show thesis using that
    by (auto simp: read_parent_oids.simps map_of_graph split: option.splits gobj.splits cdata.splits stored.splits)
qed

lemma complete_tree:
  assumes "sub_store S W" "complete (graph_of S) p"
  shows "read_tree_id S p = Inr (tree_of W p)"
proof -
  obtain d where d: "map_of S p = Some (GCommit (Parsed d))" by (rule complete_commit [OF assms(2)])
  then show ?thesis using tree_Parsed [OF d] tree_Parsed [OF sub_storeD [OF assms(1) d]] by (simp add: tree_of_def)
qed

lemma zero_not_complete: "world W \<Longrightarrow> sub_store S W \<Longrightarrow> complete (graph_of S) p \<Longrightarrow> p \<noteq> zero_sha1"
  by (auto simp: world_def elim!: complete_commit dest: sub_storeD)

lemma filtered_parent_step:
  assumes "tx_ok H f W t" "complete (graph_of (store t)) p"
  shows "filtered_parent_tree_id p t = Some (Inr (tree_of W p), t)"
proof -
  have "read_tree_id (store t) p = Inr (tree_of W p)" by (rule complete_tree [OF tx_okD(1) [OF assms(1)] assms(2)])
  then show ?thesis using tx_okD(3) [OF assms(1)]
    by (auto simp: filtered_parent_tree_id_def split: option.splits)
qed

definition with_trees :: "cstore \<Rightarrow> oid list \<Rightarrow> (oid \<times> obj) list" where
  "with_trees W ps = map (\<lambda>p. (p, tree_of W p)) ps"

lemma with_trees_simps [simp]: "map fst (with_trees W ps) = ps" "length (with_trees W ps) = length ps"
  "with_trees W ps = [] \<longleftrightarrow> ps = []" "take n (with_trees W ps) = with_trees W (take n ps)"
  "ps \<noteq> [] \<Longrightarrow> hd (with_trees W ps) = (hd ps, tree_of W (hd ps))"
  "list_ex (\<lambda>(_, t). P t) (with_trees W ps) \<longleftrightarrow> (\<exists>p \<in> set ps. P (tree_of W p))"
  "List.filter (\<lambda>(_, t). P t) (with_trees W ps) = with_trees W (List.filter (\<lambda>p. P (tree_of W p)) ps)"
  by (auto simp: with_trees_def comp_def take_map hd_map list_ex_iff filter_map)

lemma parent_trees_step:
  assumes "tx_ok H f W t" "\<forall>p \<in> set ps. complete (graph_of (store t)) p"
  shows "mapH (\<lambda>p. bindH (filtered_parent_tree_id p) (\<lambda>tree. returnH (p, tree))) ps t = Some (Inr (with_trees W ps), t)"
  using assms(2) by (induction ps) (simp_all add: bindH_def filtered_parent_step [OF assms(1)] with_trees_def)

subsection \<open>Choosing the parents\<close>

definition related_parents :: "cstore \<Rightarrow> oid list \<Rightarrow> oid list" where
  "related_parents W ps =
    (if (\<exists>p \<in> set ps. tree_of W p = empty_id) \<and> length ps > 1 \<and> (\<Inter>p \<in> set ps. roots (graph_of W) p) = {} \<and>
        (\<exists>p \<in> set ps. tree_of W p \<noteq> empty_id)
     then List.filter (\<lambda>p. tree_of W p \<noteq> empty_id) ps else ps)"

lemma kept_parents_alt:
  "kept_parents f W rs =
    (let ps = related_parents W (List.filter (\<lambda>r. r \<noteq> zero_sha1) rs) in if flagged f ''linear'' then take 1 ps else ps)"
  by (simp add: kept_parents_def related_parents_def Let_def conj_assoc)

lemma prune_step:
  assumes "world W" "tx_ok H f W t" "\<forall>p \<in> set ps. complete (graph_of (store t)) p"
  shows "\<exists>t'. prune_empty_parents (with_trees W ps) t = Some (Inr (with_trees W (related_parents W ps)), t') \<and>
    tx_ok H f W t' \<and> unmoved H f t t' \<and> missing t' = missing t"
proof (cases "(\<exists>p \<in> set ps. tree_of W p = empty_id) \<and> length ps > 1")
  case True
  have "zero_sha1 \<notin> set ps" using zero_not_complete [OF assms(1) tx_okD(1) [OF assms(2)]] assms(3) by blast
  then obtain gc where share: "parents_share_root (graph_of (store t)) ps (graph (tx_caches t)) =
      (Inr ((\<Inter>p \<in> set ps. roots (graph_of (store t)) p) \<noteq> {}), gc)" "cache_ok (graph_of (store t)) gc"
    using share_root_step [OF tx_sane [OF assms(1,2)] tx_okD(2) [OF assms(2)] assms(3)] True
    by (cases ps) auto
  have "(\<Inter>p \<in> set ps. roots (graph_of (store t)) p) = (\<Inter>p \<in> set ps. roots (graph_of W) p)"
    using roots_sub [OF tx_okD(1) [OF assms(2)]] assms(3) by simp
  then show ?thesis using True share graphH_ok [OF assms(1,2) share(2)]
    by (auto simp: prune_empty_parents_def bindH_def graphH_def related_parents_def)
next
  case False
  then show ?thesis using assms(2) unmoved_refl [of H f t]
    by (auto simp: prune_empty_parents_def related_parents_def bindH_def)
qed

lemma all_diffs_empty_step:
  assumes "sub_store S W" "\<forall>p \<in> set ps. complete (graph_of S) p"
  shows "all_diffs_empty S tree ps = Inr (\<forall>p \<in> set ps. tree_of W p = tree)"
  using assms(2) by (induction ps) (auto simp: complete_tree [OF assms(1)])

subsection \<open>Writing a commit of the world\<close>

definition tx_grows :: "henv \<Rightarrow> filt \<Rightarrow> tx \<Rightarrow> tx \<Rightarrow> bool" where
  "tx_grows H f t t' \<longleftrightarrow> map_of (store t) \<subseteq>\<^sub>m map_of (store t') \<and> nesting_level t' = nesting_level t \<and>
    (\<forall>c r. looked_up H f t c = Some r \<longrightarrow> looked_up H f t' c = Some r)"

lemma tx_grows_unmoved: "unmoved H f t t' \<Longrightarrow> tx_grows H f t t'"
  by (simp add: unmoved_def tx_grows_def)

lemma tx_grows_trans: "tx_grows H f t u \<Longrightarrow> tx_grows H f u v \<Longrightarrow> tx_grows H f t v"
  unfolding tx_grows_def using map_le_trans by auto

lemma tx_grows_refl: "tx_grows H f t t"
  by (simp add: tx_grows_def)

lemma tx_grows_sub: "tx_grows H f t t' \<Longrightarrow> tx_ok H f W t \<Longrightarrow> sub_store (store t) (store t')"
  by (simp add: tx_grows_def tx_ok_def sub_store_def)

lemma tx_grows_complete: "tx_grows H f t t' \<Longrightarrow> tx_ok H f W t \<Longrightarrow> complete (graph_of (store t)) c \<Longrightarrow> complete (graph_of (store t')) c"
  by (rule complete_sub [OF tx_grows_sub])

lemma tx_grows_looked_up: "tx_grows H f t t' \<Longrightarrow> looked_up H f t c \<noteq> None \<Longrightarrow> looked_up H f t' c \<noteq> None"
  by (auto simp: tx_grows_def)

lemma settled_sub: "sub_store S S' \<Longrightarrow> settled S r \<Longrightarrow> settled S' r"
  by (auto simp: settled_def dest: complete_sub)

lemma read_tree_sub: "sub_store S S' \<Longrightarrow> read_tree_id S i = Inr tree \<Longrightarrow> read_tree_id S' i = Inr tree"
  by (auto simp: read_tree_id_def commit_read_def bindR_def split: option.splits gobj.splits sum.splits dest: sub_storeD)

lemma tx_ok_store:
  assumes "tx_ok H f W t" "sub_store (store t) S" "sub_store S W"
    and "\<And>r. map_of S r \<noteq> None \<Longrightarrow> map_of (store t) r = None \<Longrightarrow> settled S r"
  shows "tx_ok H f W (t\<lparr> store := S \<rparr>)"
proof -
  have "map_of S r \<noteq> None \<longrightarrow> settled S r" if "map_of (store t) r \<noteq> None \<longrightarrow> settled (store t) r" for r
    using that assms(4) [of r] settled_sub [OF assms(2)] by blast
  then show ?thesis
    using assms(1) unfolding tx_ok_def
    by (auto intro: assms(3) cache_ok_sub [OF _ assms(2)] read_tree_sub [OF assms(2)] settled_sub [OF assms(2)]
        complete_sub [OF assms(2)])
qed

lemma write_step:
  assumes "world W" "tx_ok H f W t" "map_of W (hash_commit H d) = Some (GCommit (Parsed d))"
    and "\<forall>p \<in> set (co_parents d). complete (graph_of (store t)) p"
  shows "\<exists>t'. write_commit H d t = Some (Inr (hash_commit H d), t') \<and> tx_ok H f W t' \<and> tx_grows H f t t' \<and>
    missing t' = missing t \<and> map_of (store t') (hash_commit H d) = Some (GCommit (Parsed d)) \<and>
    complete (graph_of (store t')) (hash_commit H d)"
proof -
  let ?h = "hash_commit H d" and ?e = "GCommit (Parsed d)"
  let ?S = "if map_of (store t) ?h = None then (?h, ?e) # store t else store t"
  let ?t = "t\<lparr> store := ?S \<rparr>"
  have run: "write_commit H d t = Some (Inr ?h, ?t)" by (simp add: write_commit_def Let_def)
  have S: "map_of ?S ?h = Some ?e"
    using assms(3) sub_storeD [OF tx_okD(1) [OF assms(2)], of ?h] by (cases "map_of (store t) ?h") auto
  have le: "map_of (store t) \<subseteq>\<^sub>m map_of ?S" by (auto simp: map_le_def)
  have subW: "sub_store ?S W"
    using tx_okD(1) [OF assms(2)] assms(3) by (auto simp: sub_store_def map_le_def map_of_eq_None_iff)
  have sub: "sub_store (store t) ?S" using le tx_okD(1) [OF assms(2)] by (simp add: sub_store_def)
  have c: "complete (graph_of ?S) ?h"
    using complete_parents [OF parents_Parsed [OF S]] assms(4) complete_sub [OF sub] by blast
  have "tx_ok H f W ?t"
    by (rule tx_ok_store [OF assms(2) sub subW]) (use c in \<open>auto simp: settled_def split: if_splits\<close>)
  moreover have "looked_up H f ?t c = Some r" if "looked_up H f t c = Some r" for c r
    using that sub_storeD [OF sub, of r] by (auto simp: looked_up_def split: option.splits if_splits)
  ultimately show ?thesis using run S c le by (simp add: tx_grows_def)
qed

subsection \<open>Writing the filtered commit\<close>

lemma select_step:
  assumes "sub_store S W" "\<forall>p \<in> set (co_parents d). complete (graph_of S) p"
  shows "select_parent_commits (Parsed d) tree (with_trees W ps) S =
    Inr (if (\<exists>p \<in> set ps. tree_of W p \<noteq> tree) \<or> (\<forall>p \<in> set (co_parents d). tree_of W p = co_tree d) then ps else [])"
  by (auto simp: select_parent_commits_def all_diffs_empty_step [OF assms])

lemma is_empty_root_good: "good t \<Longrightarrow> \<exists>b. is_empty_root t = Inr b"
  by (cases t) (auto simp: good_def wf_tree_def is_empty_root_def)

lemma rewrite_step:
  assumes "rw_author x = None" "rw_committer x = None" "rw_message x = None"
  shows "rewrite_commit H (Parsed d) ps x mode =
    write_commit H (d\<lparr> co_tree := rw_tree x, co_parents := ps, co_extra := gpgsig_headers mode (co_extra d) \<rparr>)"
  by (rule ext) (simp add: rewrite_commit_def assms)

lemma written_step:
  assumes "world W" "tx_ok H f W t" "\<forall>p \<in> set ps. complete (graph_of (store t)) p"
    and "\<forall>p \<in> set (co_parents d). complete (graph_of (store t)) p" "good (co_tree d)"
    and "verdict_id H W (written_verdict H f W d ps) r"
  shows "\<exists>new t'. write_filtered H (Parsed d) (with_trees W ps) (tree_rewrite oid (filtered_tree H f (co_tree d))) (into_meta f) t =
      Some (Inr (r, new), t') \<and> tx_ok H f W t' \<and> tx_grows H f t t' \<and> missing t' = missing t \<and> settled (store t') r"
proof -
  let ?tree = "filtered_tree H f (co_tree d)" and ?mode = "gpgsig_mode_of (bt_get (into_meta f) ''gpgsig'')"
  define sel where "sel = (if (\<exists>p \<in> set ps. tree_of W p \<noteq> ?tree) \<or> (\<forall>p \<in> set (co_parents d). tree_of W p = co_tree d) then ps else [])"
  define droppable where "droppable = (sel = [] \<and> \<not> (co_parents d = [] \<and> is_empty_root (co_tree d) = Inr True))"
  let ?d = "d\<lparr> co_tree := ?tree, co_parents := sel, co_extra := gpgsig_headers ?mode (co_extra d) \<rparr>"
  let ?x = "tree_rewrite oid ?tree"
  obtain e where e: "is_empty_root (co_tree d) = Inr e" using is_empty_root_good [OF assms(5)] ..
  have run: "write_filtered H (Parsed d) (with_trees W ps) ?x (into_meta f) t =
    (if droppable \<and> ps \<noteq> [] then Some (Inr (hd ps, False), t)
     else if droppable \<and> ?tree = empty_id then Some (Inr (zero_sha1, False), t)
     else bindH (write_commit H ?d) (\<lambda>oid. bindH (modifyH (\<lambda>t. t\<lparr> last_written_commit := Some (oid, ?tree) \<rparr>)) (\<lambda>_. returnH (oid, True))) t)"
    using select_step [OF tx_okD(1) [OF assms(2)] assms(4), of ?tree ps] e
    by (simp add: write_filtered_def bindH_step [where m = "readH _"] tree_rewrite_def rewrite_step sel_def [symmetric] droppable_def
        bindH_def [of "if _ then _ else _"] bindH_def [of "liftH _"])
  have v: "written_verdict H f W d ps =
    (if droppable \<and> ps \<noteq> [] then Dropped (hd ps) else if droppable \<and> ?tree = empty_id then Dropped zero_sha1 else Written ?d)"
    by (simp only: written_verdict_def Let_def sel_def [symmetric] droppable_def [symmetric])
  show ?thesis
  proof (cases "droppable \<and> (ps \<noteq> [] \<or> ?tree = empty_id)")
    case True
    then have "ps \<noteq> [] \<Longrightarrow> settled (store t) (hd ps)" using assms(3) by (cases ps) (auto simp: settled_def)
    then show ?thesis using True run v assms(2,6) tx_grows_refl [of H f t]
      by (cases "ps = []") (auto simp: verdict_id_def settled_def)
  next
    case False
    then have "map_of W (hash_commit H ?d) = Some (GCommit (Parsed ?d))" "r = hash_commit H ?d"
      using assms(6) v by (auto simp: verdict_id_def split: if_splits)
    moreover have "\<forall>p \<in> set (co_parents ?d). complete (graph_of (store t)) p" using assms(3) by (auto simp: sel_def)
    ultimately obtain u where u: "write_commit H ?d t = Some (Inr r, u)" "tx_ok H f W u" "tx_grows H f t u"
      "missing u = missing t" "map_of (store u) r = Some (GCommit (Parsed ?d))" "complete (graph_of (store u)) r"
      using write_step [OF assms(1,2), of ?d] by auto
    let ?u = "u\<lparr> last_written_commit := Some (r, ?tree) \<rparr>"
    have "tx_ok H f W ?u" using u(2) tree_Parsed [OF u(5)] by (simp add: tx_ok_def)
    moreover have "tx_grows H f t ?u" using u(3) by (simp add: tx_grows_def)
    ultimately show ?thesis using run u False by (auto simp: bindH_def settled_def)
  qed
qed

lemma trivial_step:
  assumes "sub_store S W" "\<forall>p \<in> set (co_parents d). complete (graph_of S) p"
  shows "was_trivial_merge (Parsed d) S = Inr (co_parents d \<noteq> [] \<and> tree_of W (hd (co_parents d)) = co_tree d)"
  using assms(2) by (cases "co_parents d") (auto simp: was_trivial_merge_def first_parent_id_def complete_tree [OF assms(1)])

lemma related_sub: "set (related_parents W ps) \<subseteq> set ps"
  by (auto simp: related_parents_def)

lemma create_step:
  assumes "world W" "tx_ok H f W t" "\<forall>p \<in> set rs. settled (store t) p"
    and "\<forall>p \<in> set (co_parents d). complete (graph_of (store t)) p" "good (co_tree d)"
    and "verdict_id H W (filtered_verdict H f W d rs) r"
  shows "\<exists>new t'. create_filtered_commit2 H (Parsed d) rs (tree_rewrite oid (filtered_tree H f (co_tree d))) (into_meta f) t =
      Some (Inr (r, new), t') \<and> tx_ok H f W t' \<and> tx_grows H f t t' \<and> missing t' = missing t \<and> settled (store t') r"
proof -
  let ?x = "tree_rewrite oid (filtered_tree H f (co_tree d))"
  let ?nz = "List.filter (\<lambda>r. r \<noteq> zero_sha1) rs"
  have nz: "\<forall>p \<in> set ?nz. complete (graph_of (store t)) p" using assms(3) by (auto simp: settled_def)
  obtain u where u: "prune_empty_parents (with_trees W ?nz) t = Some (Inr (with_trees W (related_parents W ?nz)), u)"
    "tx_ok H f W u" "unmoved H f t u" "missing u = missing t"
    using prune_step [OF assms(1,2) nz] by blast
  define ps where "ps = kept_parents f W rs"
  have kept: "(if flagged f ''linear'' then take 1 (with_trees W (related_parents W ?nz)) else with_trees W (related_parents W ?nz)) = with_trees W ps"
    by (simp add: ps_def kept_parents_alt Let_def)
  have S: "store u = store t" by (rule unmoved_store [OF u(3)])
  have psc: "\<forall>p \<in> set ps. complete (graph_of (store u)) p"
    using kept_parents_sub [of f W rs] assms(3) unfolding S ps_def by (auto simp: settled_def)
  have pc: "\<forall>p \<in> set (co_parents d). complete (graph_of (store u)) p" using assms(4) S by simp
  let ?keep = "\<not> flagged f ''keep-trivial-merges'' \<and> length ps > 1"
  let ?was = "co_parents d \<noteq> [] \<and> tree_of W (hd (co_parents d)) = co_tree d"
  have ptrees: "bindH (mapH (\<lambda>p. bindH (filtered_parent_tree_id p) (\<lambda>tree. returnH (p, tree))) ?nz) k t = k (with_trees W ?nz) t"
    and prune: "bindH (prune_empty_parents (with_trees W ?nz)) k' t = k' (with_trees W (related_parents W ?nz)) u"
    for k :: "_ \<Rightarrow> (oid \<times> bool) hrun" and k' :: "_ \<Rightarrow> (oid \<times> bool) hrun"
    using parent_trees_step [OF assms(2) nz] u(1) by (simp_all add: bindH_def)
  have run: "create_filtered_commit2 H (Parsed d) rs ?x (into_meta f) t =
    (if ?keep \<and> tree_of W (hd ps) = filtered_tree H f (co_tree d) \<and> \<not> ?was then Some (Inr (hd ps, False), u)
     else write_filtered H (Parsed d) (with_trees W ps) ?x (into_meta f) u)"
    using trivial_step [OF tx_okD(1) [OF u(2)] pc]
    unfolding create_filtered_commit2_def ptrees prune flagged_def [symmetric] Let_def kept
    by (cases ps) (auto simp: bindH_def [of "readH _"] tree_rewrite_def)
  show ?thesis
  proof (cases "?keep \<and> tree_of W (hd ps) = filtered_tree H f (co_tree d) \<and> \<not> ?was")
    case True
    then have "r = hd ps" using assms(6) by (auto simp: filtered_verdict_def Let_def ps_def [symmetric] verdict_id_def)
    moreover have "settled (store u) (hd ps)" using True psc by (cases ps) (auto simp: settled_def)
    ultimately show ?thesis using True run u(2,4) tx_grows_unmoved [OF u(3)] by auto
  next
    case False
    then have "verdict_id H W (written_verdict H f W d ps) r"
      using assms(6) by (auto simp: filtered_verdict_def Let_def ps_def [symmetric] split: if_splits)
    from written_step [OF assms(1) u(2) psc pc assms(5) this, of oid] obtain new v where
      v: "write_filtered H (Parsed d) (with_trees W ps) ?x (into_meta f) u = Some (Inr (r, new), v)" "tx_ok H f W v"
      "tx_grows H f u v" "missing v = missing u" "settled (store v) r" by blast
    have "create_filtered_commit2 H (Parsed d) rs ?x (into_meta f) t = Some (Inr (r, new), v)"
      unfolding run using False v(1) by (simp only: if_not_P if_False)
    then show ?thesis using v u(4) tx_grows_trans [OF tx_grows_unmoved [OF u(3)] v(3)] by auto
  qed
qed

end
