(* ===== verification/Filtered_History.thy ===== *)
theory Filtered_History
  imports Filtered_Run
begin

text \<open>
  Filtering a history: one call of \<^verbatim>\<open>apply_to_commit2\<close>, the walk over the commits it misses, and the
  loop of \<^verbatim>\<open>apply_to_commit\<close> around both compute the filtered form of the commit.
\<close>

subsection \<open>Remembering the filtered commit\<close>

lemma insert_step:
  assumes "world W" "tx_ok H f W t" "complete (graph_of (store t)) c" "filter_text H f = Some key"
    and "filtered_form H f W c r" "settled (store t) r"
  shows "\<exists>t'. insert_commit H f c r st t = Some (Inr (), t') \<and> tx_ok H f W t' \<and> tx_grows H f t t' \<and>
    missing t' = missing t \<and> store t' = store t \<and> looked_up H f t' c = Some r"
proof -
  obtain u where u: "graphH (\<lambda>odb. compute_history_hint odb c) t = Some (Inr (hint_of (graph_of (store t)) c), u)"
    "tx_ok H f W u" "unmoved H f t u" "missing u = missing t" "backends u = backends t"
    using hint_step [OF assms(1-3)] by blast
  let ?v = "u\<lparr> commit_map := (commit_map u)((f, c) \<mapsto> r) \<rparr>"
  let ?w = "?v\<lparr> backends := write_all sled_write (backends u) (key, c) r \<rparr>"
  have S: "store u = store t" by (rule unmoved_store [OF u(3)])
  have hits: "first_hit sled_read (write_all sled_write (backends u) (key, c) r) k =
      (if k = (key, c) \<and> backends u \<noteq> [] then Some r else first_hit sled_read (backends u) k)" for k
    by (rule sl.written_first)
  have old: "looked_up H f u c' = Some r' \<Longrightarrow> c' = c \<Longrightarrow> r' = r" for c' r'
    using looked_up_right [OF u(2)] filtered_form_fun assms(5) by blast
  have v: "looked_up H f ?v c' = (if c' = c then Some r else looked_up H f u c')" for c'
    by (simp add: looked_up_def cong: option.case_cong)
  have w: "looked_up H f ?w c' = (if c' = c then Some r else looked_up H f u c')" for c'
    using assms(4) by (simp add: looked_up_def hits cong: option.case_cong)
  have ok: "tx_ok H f W ?v" "tx_ok H f W ?w"
    using u(2) assms(4-6) S by (auto simp: tx_ok_def hits split: if_splits)
  have grow: "tx_grows H f t ?v" "tx_grows H f t ?w"
    using u(3) old v w unmoved_looked_up [OF u(3)] by (auto simp: tx_grows_def unmoved_def)
  show ?thesis
  proof (cases "st \<or> is_sample_point (hint_of (graph_of (store t)) c)")
    case True
    then have "insert_commit H f c r st t = Some (Inr (), ?w)"
      using u(1) assms(4) by (simp add: insert_commit_def bindH_def sled_tree_def fuelH_def filter_text_def)
    then show ?thesis using ok(2) grow(2) w u(4) S by auto
  next
    case False
    then have "insert_commit H f c r st t = Some (Inr (), ?v)"
      using u(1) by (simp add: insert_commit_def bindH_def)
    then show ?thesis using ok(1) grow(1) v u(4) S by auto
  qed
qed

subsection \<open>Filtering one commit\<close>

text \<open>The operations that only filter the tree of each commit.\<close>

fun tree_op :: "filt \<Rightarrow> bool" where
  "tree_op (Meta m f) = tree_op f"
| "tree_op Paths = True"
| "tree_op (Adapt a) = True"
| "tree_op (Author a e) = True"
| "tree_op (Committer a e) = True"
| "tree_op (RegexReplace rs) = True"
| "tree_op Index = True"
| "tree_op Invert = True"
| "tree_op (Insert p i) = True"
| "tree_op (File d s) = True"
| "tree_op (Prefix p) = True"
| "tree_op (Subdir p) = True"
| "tree_op (TreeId p f) = True"
| "tree_op (ObjectDeref p) = True"
| "tree_op (ObjectRef p) = True"
| "tree_op (Pattern g) = True"
| "tree_op (Message m r) = True"
| "tree_op (Compose fs) = True"
| "tree_op (Subtract a b) = True"
| "tree_op (Exclude f) = True"
| "tree_op (Select f) = True"
| "tree_op (Pin f) = True"
| "tree_op f = False"

lemma tree_op_peel: "tree_op (peel f) \<longleftrightarrow> tree_op f"
  by (induction f rule: peel.induct) auto

lemma tree_op_arm:
  assumes "tree_op f"
  shows "commit_arm H rec oid c f = rewrittenH (apply_commit_tree H f oid c)"
    "commit_step H rec f oid = bindH (get_commit H f oid) (\<lambda>cached.
      case cached of Some r \<Rightarrow> returnH (Some r) | None \<Rightarrow> commit_body H rec f oid)"
  using assms tree_op_peel [of f] by (cases "peel f"; auto simp: commit_arm_def commit_step_def)+

text \<open>A filter whose runs the lemmas describe.\<close>

definition plain_filter :: "henv \<Rightarrow> filt \<Rightarrow> bool" where
  "plain_filter H f \<longleftrightarrow> tree_op f \<and> tree_law H f \<and> filter_text H f \<noteq> None"

lemma plain_filterD:
  assumes "plain_filter H f"
  shows "tree_op f" "tree_law H f" "f \<noteq> Nop" "\<exists>key. filter_text H f = Some key"
  using assms by (auto simp: plain_filter_def)

text \<open>The commits whose histories are readable and have a filtered form.\<close>

definition readable :: "henv \<Rightarrow> filt \<Rightarrow> cstore \<Rightarrow> cstore \<Rightarrow> oid \<Rightarrow> bool" where
  "readable H f W S c \<longleftrightarrow> complete (graph_of S) c \<and>
    (\<forall>a \<in> ancestors (graph_of S) c. (\<exists>r. filtered_form H f W a r) \<and> good (tree_of W a))"

lemma readableD:
  assumes "readable H f W S c"
  shows "complete (graph_of S) c" "\<exists>r. filtered_form H f W c r" "good (tree_of W c)"
  using assms bspec [OF _ ancestors_self, of "graph_of S" c] unfolding readable_def by auto

lemma readable_sub: "sub_store S S' \<Longrightarrow> readable H f W S c \<Longrightarrow> readable H f W S' c"
  by (auto simp: readable_def ancestors_sub dest: complete_sub)

lemma readable_parents:
  assumes "readable H f W S c" "map_of S c = Some (GCommit (Parsed d))"
  shows "\<forall>p \<in> set (co_parents d). readable H f W S p"
proof
  fix p assume "p \<in> set (co_parents d)"
  then have "complete (graph_of S) p" "ancestors (graph_of S) p \<subseteq> ancestors (graph_of S) c"
    using assms(1) complete_parents [OF parents_Parsed [OF assms(2)]] ancestors_unfold [OF parents_Parsed [OF assms(2)]]
    by (auto simp: readable_def)
  then show "readable H f W S p" using assms(1) by (auto simp: readable_def)
qed

lemma filtered_forms_fun:
  "list_all2 (filtered_form H f W) ps rs \<Longrightarrow> list_all2 (filtered_form H f W) ps rs' \<Longrightarrow> rs = rs'"
  by (induction ps arbitrary: rs rs') (auto simp: list_all2_Cons1 dest: filtered_form_fun)

lemma body_step:
  assumes "world W" "tx_ok H f W t" "readable H f W (store t) c" "plain_filter H f"
    and "\<forall>p \<in> set (co_parents d). looked_up H f t p \<noteq> None" "map_of (store t) c = Some (GCommit (Parsed d))"
  shows "\<exists>r t'. commit_body H rec f c t = Some (Inr (Some r), t') \<and> tx_ok H f W t' \<and> tx_grows H f t t' \<and>
    missing t' = missing t \<and> looked_up H f t' c = Some r"
proof -
  note p = plain_filterD [OF assms(4)]
  obtain key where key: "filter_text H f = Some key" using p(4) ..
  have W: "map_of W c = Some (GCommit (Parsed d))" by (rule sub_storeD [OF tx_okD(1) [OF assms(2)] assms(6)])
  have pc: "\<forall>p \<in> set (co_parents d). complete (graph_of (store t)) p"
    using readable_parents [OF assms(3,6)] by (auto simp: readable_def)
  have gd: "good (co_tree d)" using readableD(3) [OF assms(3)] tree_Parsed [OF W] by (simp add: tree_of_def)
  obtain u where u: "filtered_parents H f (Parsed d) t = Some (Inr (Some (map (the \<circ> looked_up H f t) (co_parents d))), u)"
    "tx_ok H f W u" "unmoved H f t u" "missing u = missing t"
    using mapOH_get [OF assms(1,2) pc p(3) key] assms(5) by (auto simp: filtered_parents_def)
  have S: "store u = store t" by (rule unmoved_store [OF u(3)])
  define rs where "rs = map (the \<circ> looked_up H f t) (co_parents d)"
  obtain rs' where rs': "map (looked_up H f t) (co_parents d) = map Some rs'"
    "list_all2 (filtered_form H f W) (co_parents d) rs'" "\<forall>r \<in> set rs'. settled (store t) r"
    using all_looked_up [OF assms(2,5)] by blast
  have "rs = map the (map (looked_up H f t) (co_parents d))" by (simp add: rs_def)
  also have "\<dots> = rs'" unfolding rs'(1) by (simp add: comp_def)
  finally have rs: "rs = rs'" .
  obtain r where r: "filtered_form H f W c r" using readableD(2) [OF assms(3)] ..
  then obtain rs'' where "list_all2 (filtered_form H f W) (co_parents d) rs''" "verdict_id H W (filtered_verdict H f W d rs'') r"
    using W by (auto elim!: filtered_form.cases simp: commit_read_Parsed)
  moreover then have "rs'' = rs" using rs rs'(2) filtered_forms_fun by blast
  ultimately have vid: "verdict_id H W (filtered_verdict H f W d rs) r" by simp
  obtain new v where v: "create_filtered_commit2 H (Parsed d) rs (tree_rewrite c (filtered_tree H f (co_tree d))) (into_meta f) u =
      Some (Inr (r, new), v)" "tx_ok H f W v" "tx_grows H f u v" "missing v = missing u" "settled (store v) r"
    using create_step [OF assms(1) u(2) _ _ gd vid, of c] rs rs'(3) pc S by auto
  have "complete (graph_of (store v)) c"
    using tx_grows_complete [OF v(3) u(2)] assms(3) S by (simp add: readable_def)
  then obtain w where w: "insert_commit H f c r (new \<or> length (co_parents d) \<noteq> 1) v = Some (Inr (), w)" "tx_ok H f W w"
    "tx_grows H f v w" "missing w = missing v" "looked_up H f w c = Some r"
    using insert_step [OF assms(1) v(2) _ key r v(5)] by blast
  have "commit_body H rec f c t = Some (Inr (Some r), w)"
    using u(1) v(1) w(1) assms(6) apply_tree_step [OF p(2) gd, of c t]
    by (simp add: commit_body_def bindH_def tree_op_arm [OF p(1)] rewrittenH_def finish_commit_def bindO_def someH_def
        create_filtered_commit_def create_filtered_commit_with_meta_def rs_def commit_read_def)
  then show ?thesis
    using w tx_grows_trans [OF tx_grows_unmoved [OF u(3)] tx_grows_trans [OF v(3) w(3)]] u(4) v(4) by auto
qed

subsection \<open>One call for one commit\<close>

definition answered :: "henv \<Rightarrow> filt \<Rightarrow> tx \<Rightarrow> oid \<Rightarrow> bool" where
  "answered H f t c \<longleftrightarrow> looked_up H f t c \<noteq> None"

text \<open>What a call leaves behind: new misses at the present level, for commits of a set.\<close>

definition call_ok :: "henv \<Rightarrow> filt \<Rightarrow> cstore \<Rightarrow> tx \<Rightarrow> tx \<Rightarrow> oid set \<Rightarrow> bool" where
  "call_ok H f W t t' C \<longleftrightarrow> tx_ok H f W t' \<and> tx_grows H f t t' \<and> nests t t' f C"

lemma call_okI: "tx_ok H f W t' \<Longrightarrow> tx_grows H f t t' \<Longrightarrow> nests t t' f C \<Longrightarrow> call_ok H f W t t' C"
  by (simp add: call_ok_def)

lemma call_ok_trans: "call_ok H f W t u C \<Longrightarrow> call_ok H f W u v D \<Longrightarrow> call_ok H f W t v (C \<union> D)"
proof -
  assume a: "call_ok H f W t u C" and b: "call_ok H f W u v D"
  then have "nesting_level u = nesting_level t" by (simp add: call_ok_def tx_grows_def)
  then have "nests t v f (C \<union> D)" using a b unfolding call_ok_def nests_def by auto
  then show ?thesis using a b tx_grows_trans unfolding call_ok_def by blast
qed

lemma step_known:
  assumes "world W" "tx_ok H f W t" "readable H f W (store t) c" "plain_filter H f" "looked_up H f t c = Some r"
  shows "\<exists>t'. commit_step H rec f c t = Some (Inr (Some r), t') \<and> call_ok H f W t t' {}"
proof -
  note p = plain_filterD [OF assms(4)]
  obtain key where key: "filter_text H f = Some key" using p(4) ..
  from get_step [OF assms(1,2) readableD(1) [OF assms(3)] p(3) key] assms(5)
  show ?thesis by (auto simp: tree_op_arm [OF p(1)] bindH_def call_ok_def nests_def intro: tx_grows_unmoved)
qed

lemma step_parents:
  assumes "world W" "tx_ok H f W t" "readable H f W (store t) c" "plain_filter H f" "looked_up H f t c = None"
    and "map_of (store t) c = Some (GCommit (Parsed d))" "\<forall>p \<in> set (co_parents d). answered H f t p"
  shows "\<exists>r t'. commit_step H rec f c t = Some (Inr (Some r), t') \<and> call_ok H f W t t' {c} \<and> looked_up H f t' c = Some r"
proof -
  note p = plain_filterD [OF assms(4)]
  obtain key where key: "filter_text H f = Some key" using p(4) ..
  obtain u where u: "get_commit H f c t = Some (Inr None, u)" "tx_ok H f W u" "unmoved H f t u"
    "missing u = missing t @ [(nesting_level t, f, c)]"
    using get_step [OF assms(1,2) readableD(1) [OF assms(3)] p(3) key] assms(5) by auto
  have S: "store u = store t" by (rule unmoved_store [OF u(3)])
  have "\<forall>p \<in> set (co_parents d). looked_up H f u p \<noteq> None"
    using assms(7) unmoved_looked_up [OF u(3)] by (simp add: answered_def)
  with body_step [OF assms(1) u(2) _ assms(4), of c d rec] assms(3,6) S obtain r v where
    v: "commit_body H rec f c u = Some (Inr (Some r), v)" "tx_ok H f W v" "tx_grows H f u v" "missing v = missing u"
    "looked_up H f v c = Some r" by auto
  have "commit_step H rec f c t = Some (Inr (Some r), v)" using u(1) v(1) by (simp add: tree_op_arm [OF p(1)] bindH_def)
  moreover have "call_ok H f W t v {c}"
    using v(2,4) u(4) tx_grows_trans [OF tx_grows_unmoved [OF u(3)] v(3)] by (auto simp: call_ok_def nests_def)
  ultimately show ?thesis using v(5) by blast
qed

lemma step_missing:
  assumes "world W" "tx_ok H f W t" "readable H f W (store t) c" "plain_filter H f" "looked_up H f t c = None"
    and "map_of (store t) c = Some (GCommit (Parsed d))" "\<not> (\<forall>p \<in> set (co_parents d). answered H f t p)"
  shows "\<exists>t'. commit_step H rec f c t = Some (Inr None, t') \<and> call_ok H f W t t' (insert c (set (co_parents d))) \<and>
    (nesting_level t, f, c) \<in> set (missing t') \<and> unmoved H f t t'"
proof -
  note p = plain_filterD [OF assms(4)]
  obtain key where key: "filter_text H f = Some key" using p(4) ..
  obtain u where u: "get_commit H f c t = Some (Inr None, u)" "tx_ok H f W u" "unmoved H f t u"
    "missing u = missing t @ [(nesting_level t, f, c)]"
    using get_step [OF assms(1,2) readableD(1) [OF assms(3)] p(3) key] assms(5) by auto
  have S: "store u = store t" by (rule unmoved_store [OF u(3)])
  have W: "map_of W c = Some (GCommit (Parsed d))" by (rule sub_storeD [OF tx_okD(1) [OF assms(2)] assms(6)])
  have gd: "good (co_tree d)" using readableD(3) [OF assms(3)] tree_Parsed [OF W] by (simp add: tree_of_def)
  have pc: "\<forall>p \<in> set (co_parents d). complete (graph_of (store u)) p"
    using readable_parents [OF assms(3,6)] S by (auto simp: readable_def)
  have no: "\<not> (\<forall>p \<in> set (co_parents d). looked_up H f u p \<noteq> None)"
    using assms(7) unmoved_looked_up [OF u(3)] by (simp add: answered_def)
  from mapOH_get [OF assms(1) u(2) pc p(3) key] obtain v where
    v: "filtered_parents H f (Parsed d) u = Some (Inr None, v)" "tx_ok H f W v" "unmoved H f u v"
    "nests u v f {p \<in> set (co_parents d). looked_up H f u p = None}"
    unfolding filtered_parents_def if_not_P [OF no] parent_ids.simps by blast
  have "commit_step H rec f c t = Some (Inr None, v)"
    using u(1) v(1) assms(6) S apply_tree_step [OF p(2) gd, of c u]
    by (simp add: tree_op_arm [OF p(1)] bindH_def commit_body_def commit_read_def rewrittenH_def finish_commit_def bindO_def)
  moreover have "nests t v f (insert c (set (co_parents d)))"
    using v(4) u(3,4) by (auto simp: nests_def unmoved_def)
  moreover have "(nesting_level t, f, c) \<in> set (missing v)" using v(4) u(4) by (auto simp: nests_def)
  ultimately show ?thesis using v(2) unmoved_trans [OF u(3) v(3)] tx_grows_unmoved by (auto simp: call_ok_def)
qed

lemma step_ready:
  assumes "world W" "tx_ok H f W t" "readable H f W (store t) c" "plain_filter H f"
    and "\<forall>p. edge (graph_of (store t)) c p \<longrightarrow> answered H f t p"
  shows "\<exists>r t'. commit_step H rec f c t = Some (Inr (Some r), t') \<and> call_ok H f W t t' {c} \<and> looked_up H f t' c = Some r"
proof (cases "looked_up H f t c")
  case (Some r)
  with step_known [OF assms(1-4) Some, of rec] show ?thesis
    by (auto simp: call_ok_def nests_def tx_grows_def)
next
  case None
  obtain d where d: "map_of (store t) c = Some (GCommit (Parsed d))" by (rule complete_commit [OF readableD(1) [OF assms(3)]])
  have "\<forall>p \<in> set (co_parents d). answered H f t p" using assms(5) parents_Parsed [OF d] by (simp add: edge_def)
  from step_parents [OF assms(1-4) None d this] show ?thesis .
qed

subsection \<open>Walking a history\<close>

lemma edge_readable:
  assumes "sub_store S S'" "complete (graph_of S) c"
  shows "edge (graph_of S') c p \<longleftrightarrow> edge (graph_of S) c p"
  using read_parents_sub [OF assms ancestors_self] by (simp add: edge_def)

lemma walk_ready:
  assumes "world W" "plain_filter H f" and "parents_first (edge (graph_of S)) P out" "\<forall>c \<in> set out. readable H f W S c"
    and "\<forall>c \<in> set out. \<forall>p. edge (graph_of S) c p \<and> P p \<longrightarrow> answered H f t p" "tx_ok H f W t" "sub_store S (store t)"
  shows "\<exists>t'. (\<forall>rest. walk_commits (commit_step H rec) f (rev out @ rest) t = walk_commits (commit_step H rec) f rest t') \<and>
    call_ok H f W t t' (set out) \<and> (\<forall>c \<in> set out. answered H f t' c)"
  using assms(3-5)
proof (induction out)
  case Nil
  show ?case using assms(6) tx_grows_refl by (auto simp: call_ok_def nests_def)
next
  case (Cons c cs)
  then obtain u where u: "\<And>rest. walk_commits (commit_step H rec) f (rev cs @ rest) t = walk_commits (commit_step H rec) f rest u"
    "call_ok H f W t u (set cs)" "\<forall>c \<in> set cs. answered H f u c" by auto
  have ok: "tx_ok H f W u" "tx_grows H f t u" using u(2) by (simp_all add: call_ok_def)
  have sub: "sub_store S (store u)" using tx_grows_sub [OF ok(2) assms(6)] assms(7) map_le_trans
    by (auto simp: sub_store_def)
  have rc: "readable H f W S c" using Cons.prems(2) by simp
  have "answered H f u p" if "edge (graph_of (store u)) c p" for p
  proof -
    have e: "edge (graph_of S) c p" using that edge_readable [OF sub readableD(1) [OF rc]] by simp
    show ?thesis
    proof (cases "P p")
      case True
      then have "answered H f t p" using Cons.prems(3) e by simp
      then show ?thesis using ok(2) tx_grows_looked_up by (simp add: answered_def)
    qed (use Cons.prems(1) e u(3) in auto)
  qed
  with step_ready [OF assms(1) ok(1) readable_sub [OF sub rc] assms(2), of rec] obtain r v where
    v: "commit_step H rec f c u = Some (Inr (Some r), v)" "call_ok H f W u v {c}" "looked_up H f v c = Some r" by blast
  have "walk_commits (commit_step H rec) f (rev (c # cs) @ rest) t = walk_commits (commit_step H rec) f rest v" for rest
    using u(1) [of "c # rest"] v(1) by (simp add: bindH_def)
  moreover have "call_ok H f W t v (set (c # cs))" using call_ok_trans [OF u(2) v(2)] by simp
  moreover have "\<forall>a \<in> set (c # cs). answered H f v a"
    using u(3) v(2,3) by (auto simp: answered_def call_ok_def dest: tx_grows_looked_up)
  ultimately show ?case by blast
qed

lemma known_now_iff:
  assumes "world W" "tx_ok H f W t" "complete (graph_of (store t)) c" "plain_filter H f"
  shows "known_now H f t c \<longleftrightarrow> answered H f t c"
proof -
  obtain key where key: "filter_text H f = Some key" using plain_filterD(4) [OF assms(4)] ..
  from known_step [OF assms(1-3) plain_filterD(3) [OF assms(4)] key]
  show ?thesis by (auto simp: known_now_def answered_def)
qed

lemma get_meta_into: "get_meta f k = bt_get (into_meta f) k"
  by (cases f) (simp_all add: bt_get_def)

lemma steps_to_False: "steps_to odb False prune c p \<longleftrightarrow> \<not> prune c \<and> edge odb c p"
  by (auto simp: steps_to_def edge_def explored_def)

lemma readable_ancestor: "readable H f W S c \<Longrightarrow> a \<in> ancestors (graph_of S) c \<Longrightarrow> readable H f W S a"
  using complete_ancestor [of "graph_of S" c a] ancestors_trans [of a "graph_of S" c] by (simp add: readable_def)

lemma pruned_walk:
  assumes "ranked odb rank" "complete odb c"
  shows "\<exists>out. into_topo_vec odb \<lparr> tips = [c], first_parent = False \<rparr> prune = Inr out \<and>
    set out = {a \<in> reached odb False prune {c}. \<not> prune a} \<and> parents_first (edge odb) prune out"
proof (cases "into_topo_vec odb \<lparr> tips = [c], first_parent = False \<rparr> prune")
  case (Inl e)
  with into_topo_vec_correct [OF assms(1), of "\<lparr> tips = [c], first_parent = False \<rparr>" prune]
  obtain a where "a \<in> reached odb False prune {c}" "\<not> ok (read_parent_oids odb a)" by auto
  then show ?thesis using complete_read [OF assms(2)] reached_ancestors [of odb False prune c] by fastforce
next
  case (Inr out)
  with into_topo_vec_correct [OF assms(1), of "\<lparr> tips = [c], first_parent = False \<rparr>" prune]
  have "set out = {a \<in> reached odb False prune {c}. \<not> prune a}" "parents_first (steps_to odb False prune) prune out" by simp_all
  then show ?thesis using Inr parents_first_edges [of odb prune out] by simp
qed

lemma history_walk:
  assumes "world W" "tx_ok H f W t" "readable H f W (store t) c" "plain_filter H f" "\<not> answered H f t c"
  shows "\<exists>out. bindR (push (graph_of (store t)) new_walk c) (\<lambda>w. into_topo_vec (graph_of (store t)) w (known_now H f t)) = Inr out \<and>
    c \<in> set out \<and> (\<forall>a \<in> set out. readable H f W (store t) a) \<and>
    parents_first (edge (graph_of (store t))) (known_now H f t) out \<and>
    (\<forall>a \<in> set out. \<forall>p. edge (graph_of (store t)) a p \<and> known_now H f t p \<longrightarrow> answered H f t p)"
proof -
  let ?odb = "graph_of (store t)" and ?prune = "known_now H f t"
  obtain rank where rank: "ranked ?odb rank" using tx_sane [OF assms(1,2)] by (auto simp: sane_def)
  obtain out where out: "into_topo_vec ?odb \<lparr> tips = [c], first_parent = False \<rparr> ?prune = Inr out"
    "set out = {a \<in> reached ?odb False ?prune {c}. \<not> ?prune a}" "parents_first (edge ?odb) ?prune out"
    using pruned_walk [OF rank readableD(1) [OF assms(3)], of ?prune] by blast
  have r: "readable H f W (store t) a" if "a \<in> set out" for a
    by (rule readable_ancestor [OF assms(3) subsetD [OF reached_ancestors [of ?odb False ?prune]]]) (use that out(2) in simp)
  have "answered H f t p" if "a \<in> set out" "edge ?odb a p" "?prune p" for a p
    using that(3) known_now_iff [OF assms(1,2) complete_ancestor [OF readableD(1) [OF r [OF that(1)]]
        ancestors_edge [OF ancestors_self that(2)]] assms(4)] by simp
  moreover have "c \<in> set out"
    using out(2) reached_tip [of c "{c}"] known_now_iff [OF assms(1,2) readableD(1) [OF assms(3)] assms(4)] assms(5) by simp
  moreover have "push ?odb new_walk c = Inr \<lparr> tips = [c], first_parent = False \<rparr>"
    by (rule complete_commit [OF readableD(1) [OF assms(3)]]) (simp add: push_def ensure_commit.simps map_of_graph new_walk_def)
  ultimately show ?thesis using out(1,3) r by auto
qed

lemma walk2_step:
  assumes "world W" "tx_ok H f W t" "readable H f W (store t) c" "plain_filter H f" "\<not> flagged f ''linear''"
  shows "\<exists>t'. walk2 H (Suc n) f c t = Some (Inr (), t') \<and> call_ok H f W t t' {a. answered H f t' a} \<and> answered H f t' c"
proof -
  obtain key where key: "filter_text H f = Some key" using plain_filterD(4) [OF assms(4)] ..
  obtain u where u: "known H f c t = Some (Inr (answered H f t c), u)" "tx_ok H f W u" "unmoved H f t u" "missing u = missing t"
    using known_step [OF assms(1,2) readableD(1) [OF assms(3)] plain_filterD(3) [OF assms(4)] key] unfolding answered_def by blast
  have S: "store u = store t" by (rule unmoved_store [OF u(3)])
  have l: "answered H f u a \<longleftrightarrow> answered H f t a" for a using unmoved_looked_up [OF u(3)] by (simp add: answered_def)
  have tu: "call_ok H f W t u {}" using u(2-4) tx_grows_unmoved by (auto simp: call_ok_def nests_def)
  show ?thesis
  proof (cases "answered H f t c")
    case True
    then show ?thesis using u(1) l tu by (auto simp: walk2_def bindH_def call_ok_def nests_def)
  next
    case False
    with history_walk [OF assms(1) u(2) _ assms(4), of c] assms(3) S l obtain out where
      out: "bindR (push (graph_of (store u)) new_walk c) (\<lambda>w. into_topo_vec (graph_of (store u)) w (known_now H f u)) = Inr out"
      "c \<in> set out" "\<forall>a \<in> set out. readable H f W (store u) a" "parents_first (edge (graph_of (store u))) (known_now H f u) out"
      "\<forall>a \<in> set out. \<forall>p. edge (graph_of (store u)) a p \<and> known_now H f u p \<longrightarrow> answered H f u p" by auto
    have "sub_store (store u) (store u)" using tx_okD(1) [OF u(2)] by (simp add: sub_store_def)
    from walk_ready [OF assms(1,4) out(4,3,5) u(2) this, of "apply_to_commit2 H n"] obtain v where
      v: "\<And>rest. walk_commits (commit_step H (apply_to_commit2 H n)) f (rev out @ rest) u =
        walk_commits (commit_step H (apply_to_commit2 H n)) f rest v" "call_ok H f W u v (set out)" "\<forall>c \<in> set out. answered H f v c"
      by blast
    have "\<not> history_flag (get_meta f ''history'') ''linear''" using assms(5) by (simp add: flagged_def get_meta_into)
    then have "walk2 H (Suc n) f c t = Some (Inr (), v)"
      using u(1) False out(1) v(1) [of "[]"] by (simp add: walk2_def bindH_def Let_def)
    moreover have "call_ok H f W t v {a. answered H f v a}"
      using call_ok_trans [OF tu v(2)] v(3) by (auto simp: call_ok_def nests_def)
    ultimately show ?thesis using v(3) out(2) by blast
  qed
qed

subsection \<open>The missing commits\<close>

lemma dedup_by_sub: "set (dedup_by k xs) \<subseteq> set xs"
  by (induction k xs rule: dedup_by.induct) auto

lemma dedup_by_keys: "k ` set (dedup_by k xs) = k ` set xs"
  by (induction k xs rule: dedup_by.induct) auto

text \<open>The cache has a place for the filter.\<close>

definition named_filter :: "henv \<Rightarrow> filt \<Rightarrow> bool" where
  "named_filter H f \<longleftrightarrow> f \<noteq> Nop \<and> filter_text H f \<noteq> None"

lemma plain_named: "plain_filter H f \<Longrightarrow> named_filter H f"
  using plain_filterD(3) by (auto simp: named_filter_def plain_filter_def)

lemma retained_step:
  assumes "world W" "named_filter H f" "tx_ok H f W t" "\<forall>(l, g, i) \<in> set ms. g = f \<and> complete (graph_of (store t)) i"
  shows "\<exists>t'. foldH (\<lambda>retained (level, f, i).
      bindH (known H f i) (\<lambda>k. returnH (if k then retained else retained @ [(level, f, i)]))) acc ms t =
      Some (Inr (acc @ List.filter (\<lambda>(l, g, i). \<not> answered H f t i) ms), t') \<and>
    tx_ok H f W t' \<and> unmoved H f t t' \<and> missing t' = missing t"
  using assms(3,4)
proof (induction ms arbitrary: acc t)
  case Nil
  then show ?case by (simp add: unmoved_refl)
next
  case (Cons m ms)
  obtain l i where m: "m = (l, f, i)" "complete (graph_of (store t)) i" using Cons.prems(2) by (cases m) auto
  obtain key where key: "f \<noteq> Nop" "filter_text H f = Some key" using assms(2) by (auto simp: named_filter_def)
  obtain u where u: "known H f i t = Some (Inr (answered H f t i), u)" "tx_ok H f W u" "unmoved H f t u" "missing u = missing t"
    using known_step [OF assms(1) Cons.prems(1) m(2) key] unfolding answered_def by blast
  have a: "answered H f u j \<longleftrightarrow> answered H f t j" for j using unmoved_looked_up [OF u(3)] by (simp add: answered_def)
  have "\<forall>(l, g, i) \<in> set ms. g = f \<and> complete (graph_of (store u)) i"
    using Cons.prems(2) unmoved_store [OF u(3)] by simp
  from Cons.IH [OF u(2) this, of "if answered H f t i then acc else acc @ [m]"]
  show ?case using u(1,4) unmoved_trans [OF u(3)] by (auto simp: bindH_def m(1) a)
qed

lemma missing_step:
  assumes "world W" "named_filter H f" "tx_ok H f W t"
  shows "\<exists>ms t'. get_missing H t = Some (Inr ms, t') \<and> tx_ok H f W t' \<and> unmoved H f t t' \<and> missing t' = ms \<and>
    (\<forall>(l, g, i) \<in> set ms. (l, g, i) \<in> set (missing t) \<and> \<not> answered H f t i) \<and>
    (\<forall>(l, g, i) \<in> set (missing t). \<not> answered H f t i \<longrightarrow> (\<exists>l'. (l', g, i) \<in> set ms))"
proof -
  let ?r = "List.filter (\<lambda>(l, g, i). \<not> answered H f t i) (missing t)"
  let ?s = "sort_key (\<lambda>(l, f, i). (filter_key H f, i, l)) ?r"
  let ?d = "dedup_by (\<lambda>(l, f, i). (f, i)) ?s"
  let ?ms = "sort_key (\<lambda>(l, f, i). (l, filter_key H f, i)) ?d"
  have "\<forall>(l, g, i) \<in> set (missing t). g = f \<and> complete (graph_of (store t)) i" using assms(3) by (simp add: tx_ok_def)
  from retained_step [OF assms(1,2,3) this, of "[]"] obtain u where
    u: "foldH (\<lambda>retained (level, f, i).
      bindH (known H f i) (\<lambda>k. returnH (if k then retained else retained @ [(level, f, i)]))) [] (missing t) t = Some (Inr ?r, u)"
    "tx_ok H f W u" "unmoved H f t u" "missing u = missing t" by auto
  have sub: "set ?ms \<subseteq> set ?r" using dedup_by_sub [of "\<lambda>(l, f, i). (f, i)" ?s] by simp
  have keys: "(\<lambda>(l, f, i). (f, i)) ` set ?ms = (\<lambda>(l, f, i). (f, i)) ` set ?r"
    using dedup_by_keys [of "\<lambda>(l, f, i). (f, i)" ?s] by simp
  let ?u = "u\<lparr> missing := ?ms \<rparr>"
  have run: "get_missing H t = Some (Inr ?ms, ?u)" using u(1) by (simp add: get_missing_def bindH_def Let_def)
  have "\<forall>(l, g, i) \<in> set ?ms. g = f \<and> complete (graph_of (store u)) i"
    using u(2,4) sub unfolding tx_ok_def by auto
  then have "tx_ok H f W ?u" using u(2) by (simp add: tx_ok_def)
  moreover have "unmoved H f t ?u" using u(3) by (simp add: unmoved_def)
  moreover have "\<exists>l'. (l', g, i) \<in> set ?ms" if "(l, g, i) \<in> set (missing t)" "\<not> answered H f t i" for l g i
  proof -
    have "(g, i) \<in> (\<lambda>(l, f, i). (f, i)) ` set ?r" using that by force
    then show ?thesis unfolding keys [symmetric] by auto
  qed
  ultimately show ?thesis using run sub by (intro exI [of _ ?ms] exI [of _ ?u]) auto
qed

subsection \<open>The loop\<close>

definition tx_later :: "henv \<Rightarrow> filt \<Rightarrow> tx \<Rightarrow> tx \<Rightarrow> bool" where
  "tx_later H f t t' \<longleftrightarrow> map_of (store t) \<subseteq>\<^sub>m map_of (store t') \<and>
    (\<forall>c r. looked_up H f t c = Some r \<longrightarrow> looked_up H f t' c = Some r)"

lemma tx_later_grows: "tx_grows H f t t' \<Longrightarrow> tx_later H f t t'"
  by (simp add: tx_grows_def tx_later_def)

lemma tx_later_trans: "tx_later H f t u \<Longrightarrow> tx_later H f u v \<Longrightarrow> tx_later H f t v"
  unfolding tx_later_def using map_le_trans by auto

lemma tx_later_answered: "tx_later H f t t' \<Longrightarrow> answered H f t c \<Longrightarrow> answered H f t' c"
  by (auto simp: tx_later_def answered_def)

lemma tx_later_readable: "tx_later H f t t' \<Longrightarrow> tx_ok H f W t \<Longrightarrow> readable H f W (store t) c \<Longrightarrow> readable H f W (store t') c"
  by (rule readable_sub) (auto simp: tx_later_def sub_store_def tx_ok_def)

text \<open>Nothing is missing that is not answered by now.\<close>

definition caught_up :: "henv \<Rightarrow> filt \<Rightarrow> tx \<Rightarrow> bool" where
  "caught_up H f t \<longleftrightarrow> (\<forall>(l, g, i) \<in> set (missing t). answered H f t i)"

lemma foldH_step: "g a x t = Some (Inr b, u) \<Longrightarrow> foldH g b xs u = r \<Longrightarrow> foldH g a (x # xs) t = r"
  by (simp add: bindH_def)

lemma walk_all_missing:
  assumes "world W" "plain_filter H f" "\<not> flagged f ''linear''" "tx_ok H f W t"
    and "\<forall>(l, g, i) \<in> set ms. g = f \<and> readable H f W (store t) i"
  shows "\<exists>t'. foldH (\<lambda>_ (level, f, input). bindH (set_nesting (Suc level)) (\<lambda>_. walk2 H (Suc n) f input)) () ms t = Some (Inr (), t') \<and>
    tx_ok H f W t' \<and> tx_later H f t t' \<and> set (missing t') \<subseteq> set (missing t) \<union> UNIV \<times> UNIV \<times> {a. answered H f t' a} \<and>
    (\<forall>(l, g, i) \<in> set ms. answered H f t' i)"
  using assms(4,5)
proof (induction ms arbitrary: t)
  case Nil
  then show ?case by (auto simp: tx_later_def)
next
  case (Cons m ms)
  obtain l i where m: "m = (l, f, i)" "readable H f W (store t) i" using Cons.prems(2) by (cases m) auto
  let ?t = "t\<lparr> nesting_level := Suc l \<rparr>"
  have t: "tx_ok H f W ?t" "tx_later H f t ?t" using Cons.prems(1) by (simp_all add: tx_ok_def tx_later_def)
  obtain u where u: "walk2 H (Suc n) f i ?t = Some (Inr (), u)" "call_ok H f W ?t u {a. answered H f u a}" "answered H f u i"
    using walk2_step [OF assms(1) t(1) _ assms(2,3), of i n] m(2) by auto
  have ok: "tx_ok H f W u" "tx_later H f t u"
    using u(2) t(2) tx_later_trans tx_later_grows unfolding call_ok_def by blast+
  have "\<forall>(l, g, i) \<in> set ms. g = f \<and> readable H f W (store u) i"
    using Cons.prems tx_later_readable [OF ok(2) Cons.prems(1)] by auto
  from Cons.IH [OF ok(1) this] obtain v where
    v: "foldH (\<lambda>_ (level, f, input). bindH (set_nesting (Suc level)) (\<lambda>_. walk2 H (Suc n) f input)) () ms u = Some (Inr (), v)"
    "tx_ok H f W v" "tx_later H f u v" "set (missing v) \<subseteq> set (missing u) \<union> UNIV \<times> UNIV \<times> {a. answered H f v a}"
    "\<forall>(l, g, i) \<in> set ms. answered H f v i" by blast
  have "answered H f v a" if "answered H f u a" for a by (rule tx_later_answered [OF v(3) that])
  then have "set (missing v) \<subseteq> set (missing t) \<union> UNIV \<times> UNIV \<times> {a. answered H f v a}" "answered H f v i"
    using u(2,3) v(4) by (auto simp: call_ok_def nests_def)
  moreover have "foldH (\<lambda>_ (level, f, input). bindH (set_nesting (Suc level)) (\<lambda>_. walk2 H (Suc n) f input)) () (m # ms) t = Some (Inr (), v)"
    by (rule foldH_step [OF _ v(1)]) (use u(1) in \<open>simp add: m(1) set_nesting_def\<close>)
  ultimately show ?case using v(2,5) tx_later_trans [OF ok(2) v(3)] by (auto simp: m(1))
qed

lemma walk_missing_level:
  assumes "\<forall>(l, g, i) \<in> set ms. l = L" "ms \<noteq> []"
  shows "walk_missing H n ms = foldH (\<lambda>_ (level, f, input). bindH (set_nesting (Suc level)) (\<lambda>_. walk2 H n f input)) () (rev ms)"
proof -
  have "fst (last ms) = L" using assms by (cases ms rule: rev_cases) auto
  then have "takeWhile (\<lambda>(level, _, _). level = fst (last ms)) (rev ms) = rev ms"
    using assms(1) by (auto simp: takeWhile_eq_all_conv)
  moreover have "walk_missing H n ms = foldH (\<lambda>_ (level, f, input). bindH (set_nesting (Suc level)) (\<lambda>_. walk2 H n f input)) ()
      (takeWhile (\<lambda>(level, _, _). level = fst (last ms)) (rev ms))"
    using assms(2) by (simp add: walk_missing_def)
  ultimately show ?thesis by (simp only:)
qed

lemma step_direct:
  assumes "world W" "tx_ok H f W t" "readable H f W (store t) c" "plain_filter H f" "map_of (store t) c = Some (GCommit (Parsed d))"
    and "answered H f t c \<or> (\<forall>p \<in> set (co_parents d). answered H f t p)"
  shows "\<exists>r t'. commit_step H rec f c t = Some (Inr (Some r), t') \<and> call_ok H f W t t' {c} \<and> looked_up H f t' c = Some r"
proof (cases "answered H f t c")
  case True
  then obtain r where r: "looked_up H f t c = Some r" by (auto simp: answered_def)
  from step_known [OF assms(1-4) r, of rec] r show ?thesis by (auto simp: call_ok_def nests_def tx_grows_def)
next
  case False
  then have "looked_up H f t c = None" "\<forall>p \<in> set (co_parents d). answered H f t p" using assms(6) by (auto simp: answered_def)
  from step_parents [OF assms(1-4) this(1) assms(5) this(2)] show ?thesis .
qed

text \<open>After a call that misses, the walk over what is missing answers for the commit.\<close>

lemma catch_up_step:
  assumes "world W" "plain_filter H f" "\<not> flagged f ''linear''" "tx_ok H f W t" "caught_up H f t" "readable H f W (store t) c"
    and "map_of (store t) c = Some (GCommit (Parsed d))" "call_ok H f W t u (insert c (set (co_parents d)))"
    and "(nesting_level t, f, c) \<in> set (missing u)" "unmoved H f t u" "\<not> answered H f t c"
  shows "\<exists>v. bindH (get_missing H) (walk_missing H (Suc n)) u = Some (Inr (), v) \<and> tx_ok H f W v \<and> tx_later H f u v \<and>
    caught_up H f v \<and> answered H f v c"
proof -
  have a: "answered H f u j \<longleftrightarrow> answered H f t j" for j using unmoved_looked_up [OF assms(10)] by (simp add: answered_def)
  have ok: "tx_ok H f W u" using assms(8) by (simp add: call_ok_def)
  obtain ms v where v: "get_missing H u = Some (Inr ms, v)" "tx_ok H f W v" "unmoved H f u v" "missing v = ms"
    "\<forall>(l, g, i) \<in> set ms. (l, g, i) \<in> set (missing u) \<and> \<not> answered H f u i"
    "\<forall>(l, g, i) \<in> set (missing u). \<not> answered H f u i \<longrightarrow> (\<exists>l'. (l', g, i) \<in> set ms)"
    using missing_step [OF assms(1) plain_named [OF assms(2)] ok] by blast
  have new: "l = nesting_level t \<and> g = f \<and> i \<in> insert c (set (co_parents d))" if "(l, g, i) \<in> set ms" for l g i
    using that v(5) assms(5,8) a by (fastforce simp: caught_up_def call_ok_def nests_def)
  obtain l where l: "(l, f, c) \<in> set ms" using v(6) assms(9,11) a by fastforce
  have S: "store v = store t" using unmoved_store [OF v(3)] unmoved_store [OF assms(10)] by simp
  have "\<forall>(l, g, i) \<in> set (rev ms). g = f \<and> readable H f W (store v) i"
    using new readable_parents [OF assms(6,7)] assms(6) S by auto
  from walk_all_missing [OF assms(1-3) v(2) this, of n] obtain w where
    w: "foldH (\<lambda>_ (level, f, input). bindH (set_nesting (Suc level)) (\<lambda>_. walk2 H (Suc n) f input)) () (rev ms) v = Some (Inr (), w)"
    "tx_ok H f W w" "tx_later H f v w" "set (missing w) \<subseteq> set (missing v) \<union> UNIV \<times> UNIV \<times> {a. answered H f w a}"
    "\<forall>(l, g, i) \<in> set (rev ms). answered H f w i" by blast
  have "caught_up H f w" using w(4,5) v(4) by (fastforce simp: caught_up_def)
  moreover have "walk_missing H (Suc n) ms v = Some (Inr (), w)"
  proof -
    have "\<forall>(l, g, i) \<in> set ms. l = nesting_level t" "ms \<noteq> []" using new l by (blast, auto)
    from walk_missing_level [OF this] w(1) show ?thesis by (simp only:)
  qed
  moreover have "tx_later H f u w" using tx_later_trans [OF tx_later_grows [OF tx_grows_unmoved [OF v(3)]] w(3)] .
  ultimately show ?thesis using v(1) w(2,5) l by (auto simp: bindH_def)
qed

lemma loop_step:
  assumes "world W" "plain_filter H f" "\<not> flagged f ''linear''" "tx_ok H f W t" "caught_up H f t" "readable H f W (store t) c"
  shows "\<exists>r t'. apply_loop H (Suc n) (Suc (Suc k)) f c t = Some (Inr r, t') \<and> tx_ok H f W t' \<and> caught_up H f t' \<and>
    tx_later H f t t' \<and> looked_up H f t' c = Some r"
proof -
  obtain d where d: "map_of (store t) c = Some (GCommit (Parsed d))" by (rule complete_commit [OF readableD(1) [OF assms(6)]])
  show ?thesis
  proof (cases "answered H f t c \<or> (\<forall>p \<in> set (co_parents d). answered H f t p)")
    case True
    then obtain r u where u: "commit_step H (apply_to_commit2 H n) f c t = Some (Inr (Some r), u)" "call_ok H f W t u {c}"
      "looked_up H f u c = Some r"
      using step_direct [OF assms(1,4,6,2) d, of "apply_to_commit2 H n"] by blast
    moreover have "answered H f u i" if "answered H f t i" for i
      using u(2) that by (auto simp: call_ok_def intro: tx_later_answered [OF tx_later_grows])
    moreover have "set (missing u) \<subseteq> insert (nesting_level t, f, c) (set (missing t))" using u(2) by (auto simp: call_ok_def nests_def)
    moreover have "answered H f u c" using u(3) by (simp add: answered_def)
    ultimately have "caught_up H f u" using assms(5) unfolding caught_up_def by blast
    then show ?thesis using u tx_later_grows by (auto simp: bindH_def call_ok_def)
  next
    case False
    then have no: "looked_up H f t c = None" "\<not> (\<forall>p \<in> set (co_parents d). answered H f t p)" by (auto simp: answered_def)
    obtain u where u: "commit_step H (apply_to_commit2 H n) f c t = Some (Inr None, u)"
      "call_ok H f W t u (insert c (set (co_parents d)))" "(nesting_level t, f, c) \<in> set (missing u)" "unmoved H f t u"
      using step_missing [OF assms(1,4,6,2) no(1) d no(2)] by blast
    have un: "\<not> answered H f t c" using no(1) by (simp add: answered_def)
    obtain v where v: "bindH (get_missing H) (walk_missing H (Suc n)) u = Some (Inr (), v)" "tx_ok H f W v" "tx_later H f u v"
      "caught_up H f v" "answered H f v c"
      using catch_up_step [OF assms(1-6) d u(2,3,4) un] by blast
    have l: "tx_later H f t v" using tx_later_trans [OF tx_later_grows [OF tx_grows_unmoved [OF u(4)]] v(3)] .
    then have "readable H f W (store v) c" using tx_later_readable assms(4,6) by blast
    moreover obtain r where r: "looked_up H f v c = Some r" using v(5) by (auto simp: answered_def)
    ultimately obtain x where x: "commit_step H (apply_to_commit2 H n) f c v = Some (Inr (Some r), x)" "call_ok H f W v x {}"
      using step_known [OF assms(1) v(2) _ assms(2)] by blast
    have "set (missing x) = set (missing v)" "tx_later H f v x" "looked_up H f x c = Some r"
      using r x(2) by (auto simp: call_ok_def nests_def tx_later_def tx_grows_def)
    moreover from this(1) have "caught_up H f x" using v(4) tx_later_answered [OF calculation(2)] unfolding caught_up_def by blast
    moreover have "apply_loop H (Suc n) (Suc (Suc k)) f c t = Some (Inr r, x)"
      using u(1) v(1) x(1) by (auto simp: bindH_def split: option.splits prod.splits sum.splits)
    ultimately show ?thesis using x(2) tx_later_trans [OF l] by (auto simp: call_ok_def)
  qed
qed

subsection \<open>A small world\<close>

text \<open>
  Two commits, of which the second replaces the directory \<^verbatim>\<open>d\<close>, their filtered forms for the filter that
  shows \<^verbatim>\<open>d\<close>, a commit on top of the second filtered one, and its original.
\<close>

definition demo_id :: "8 word \<Rightarrow> oid" where
  "demo_id k = replicate 19 0 @ [k]"

definition demo_sub :: "nat \<Rightarrow> obj" where
  "demo_sub k =
    (if k = 3 then Tree [Entry mode_blob ''x'' (Blob ''2''), Entry mode_blob ''y'' (Blob ''3'')]
     else if k = 4 then Tree [Entry mode_blob ''x'' (Blob ''4'')]
     else Tree [Entry mode_blob ''x'' (Blob ''6'')])"

definition sample3 :: obj where
  "sample3 = Tree [Entry mode_tree ''d'' (demo_sub 5), Entry mode_blob ''e'' (Blob ''5'')]"

definition demo_hash :: "gcommit \<Rightarrow> oid" where
  "demo_hash d = demo_id
    (if co_tree d = sample1 then 1 else if co_tree d = sample2 then 2 else if co_tree d = demo_sub 3 then 3
     else if co_tree d = demo_sub 4 then 4 else if co_tree d = demo_sub 5 then 5 else 6)"

definition demo_data :: "obj \<Rightarrow> oid list \<Rightarrow> gcommit" where
  "demo_data t ps = \<lparr> co_tree = t, co_parents = ps, co_author = [], co_committer = [],
    co_encoding = None, co_message = [], co_extra = [] \<rparr>"

definition demo_commit :: "obj \<Rightarrow> oid list \<Rightarrow> gobj" where
  "demo_commit t ps = GCommit (Parsed (demo_data t ps))"

definition demo_world :: cstore where
  "demo_world =
    [(demo_id 1, demo_commit sample1 []), (demo_id 2, demo_commit sample2 [demo_id 1]),
     (demo_id 3, demo_commit (demo_sub 3) []), (demo_id 4, demo_commit (demo_sub 4) [demo_id 3]),
     (demo_id 5, demo_commit (demo_sub 5) [demo_id 4]), (demo_id 6, demo_commit sample3 [demo_id 2])]"

definition demo_henv :: henv where
  "demo_henv = \<lparr> base = bare_env\<lparr> opt_fuel := 20 \<rparr>, tree_fuel = 3, hash_commit = demo_hash,
     oid_of_str = \<lambda>_. None, filter_key = \<lambda>_. [], hash_order = \<lambda>xs. xs, sig_time = Inr, sig_write = \<lambda>a b c. a,
     gix_merge_base = \<lambda>_ _ _. Inr None, gix_octopus = \<lambda>_ _ _. Inr None, merge_trees = \<lambda>a b c. Inr b,
     merge_commits = \<lambda>_ _ _ _. Inr empty_id \<rparr>"

definition demo_tx :: "cstore \<Rightarrow> tx" where
  "demo_tx st = \<lparr> tx_caches = empty_caches, store = st, commit_map = \<lambda>_. None, backends = [\<lambda>_. None], missing = [],
     misses = 0, nesting_level = 0, last_written_commit = None \<rparr>"

definition demo_filter :: filt where
  "demo_filter = Subdir [Normal ''d'']"

lemma demo_id_eq [simp]: "demo_id i = demo_id j \<longleftrightarrow> i = j" "demo_id i = zero_sha1 \<longleftrightarrow> i = 0" "zero_sha1 = demo_id i \<longleftrightarrow> i = 0"
  "length (demo_id i) = 20"
proof -
  have z: "zero_sha1 = replicate 19 0 @ [0]" by (simp add: zero_sha1_def numeral_eq_Suc)
  show "demo_id i = demo_id j \<longleftrightarrow> i = j" "demo_id i = zero_sha1 \<longleftrightarrow> i = 0" "zero_sha1 = demo_id i \<longleftrightarrow> i = 0" "length (demo_id i) = 20"
    unfolding demo_id_def z by auto
qed

lemmas demo_defs = demo_world_def demo_commit_def demo_data_def demo_henv_def demo_tx_def demo_filter_def

lemma demo_graph: "graph_of demo_world =
    [(demo_id 1, Commit []), (demo_id 2, Commit [demo_id 1]), (demo_id 3, Commit []), (demo_id 4, Commit [demo_id 3]),
     (demo_id 5, Commit [demo_id 4]), (demo_id 6, Commit [demo_id 2])]"
  by (simp add: graph_of_def demo_defs)

lemma demo_world_ok: "world demo_world"
proof -
  have "ranked (graph_of demo_world) (\<lambda>c. unat (last c))"
    unfolding ranked_def edge_def demo_graph
    by (auto simp: read_parent_oids.simps demo_id_def split: if_splits)
  moreover have "map_of demo_world zero_sha1 = None" by (simp add: demo_defs)
  ultimately show ?thesis unfolding world_def sane_def by (auto simp: demo_graph universe_def)
qed

lemma demo_trees: "wf_tree sample3" "good sample3" "good (demo_sub k)"
  "filtered_tree demo_henv demo_filter sample1 = demo_sub 3" "filtered_tree demo_henv demo_filter sample2 = demo_sub 4"
  "filtered_tree demo_henv demo_filter sample3 = demo_sub 5"
proof -
  have "wf_tree (demo_sub 3)" "wf_tree (demo_sub 4)" "wf_tree (demo_sub 5)" by code_simp+
  show "wf_tree sample3" by code_simp
  show "good sample3" unfolding good_def by code_simp
  show "filtered_tree demo_henv demo_filter sample1 = demo_sub 3" "filtered_tree demo_henv demo_filter sample2 = demo_sub 4"
    "filtered_tree demo_henv demo_filter sample3 = demo_sub 5" by code_simp+
  show "good (demo_sub k)" unfolding good_def demo_sub_def by (simp; code_simp)
qed

lemma ancestors_closed:
  assumes "c \<in> A" "\<And>a p. a \<in> A \<Longrightarrow> edge odb a p \<Longrightarrow> p \<in> A"
  shows "ancestors odb c \<subseteq> A"
proof
  fix a assume "a \<in> ancestors odb c"
  then have "(edge odb)\<^sup>*\<^sup>* c a" by (simp add: ancestors_def)
  then show "a \<in> A" by (induction rule: rtranclp_induct) (use assms in auto)
qed

lemma demo_reads:
  "map_of demo_world (demo_id 1) = Some (demo_commit sample1 [])" "map_of demo_world (demo_id 2) = Some (demo_commit sample2 [demo_id 1])"
  "map_of demo_world (demo_id 3) = Some (demo_commit (demo_sub 3) [])"
  "map_of demo_world (demo_id 4) = Some (demo_commit (demo_sub 4) [demo_id 3])"
  "map_of demo_world (demo_id 5) = Some (demo_commit (demo_sub 5) [demo_id 4])"
  "map_of demo_world (demo_id 6) = Some (demo_commit sample3 [demo_id 2])"
  by (simp_all add: demo_world_def)

lemma demo_differ: "demo_sub 3 \<noteq> demo_sub 4" "demo_sub 4 \<noteq> demo_sub 5" "demo_sub 3 \<noteq> demo_sub 5" "demo_sub k \<noteq> sample1" "demo_sub k \<noteq> sample2"
  "sample1 \<noteq> sample2" "sample3 \<noteq> sample1" "sample3 \<noteq> sample2" "demo_sub k \<noteq> empty_id" "sample3 \<noteq> demo_sub k"
  by (simp_all add: demo_sub_def sample1_def sample2_def sample3_def empty_id_def)

lemma demo_meta: "bt_get (into_meta demo_filter) key = None" "hash_commit demo_henv = demo_hash" "tree_fuel demo_henv = 3"
  "base demo_henv = bare_env\<lparr> opt_fuel := 20 \<rparr>" "hash_order demo_henv xs = xs"
  by (simp_all add: demo_filter_def demo_henv_def bt_get_def)

lemma demo_forms: "filtered_form demo_henv demo_filter demo_world (demo_id 1) (demo_id 3)"
  "filtered_form demo_henv demo_filter demo_world (demo_id 2) (demo_id 4)"
proof -
  note D = commit_read_def verdict_id_def filtered_verdict_def written_verdict_def kept_parents_def flagged_def tree_of_def
    read_tree_id_def demo_trees demo_reads demo_meta demo_commit_def demo_data_def demo_differ demo_differ [symmetric] demo_hash_def
    history_flag_def gpgsig_headers_def gpgsig_mode_of_def Let_def
  have e: "is_empty_root sample1 = Inr False" by code_simp
  show one: "filtered_form demo_henv demo_filter demo_world (demo_id 1) (demo_id 3)"
    by (rule filtered_form.filtered [where d = "demo_data sample1 []" and rs = "[]"]) (simp_all add: D e)
  show "filtered_form demo_henv demo_filter demo_world (demo_id 2) (demo_id 4)"
    by (rule filtered_form.filtered [where d = "demo_data sample2 [demo_id 1]" and rs = "[demo_id 3]"]) (simp_all add: D one)
qed

lemma demo_plain: "plain_filter demo_henv demo_filter" "\<not> flagged demo_filter ''linear''"
  "optimize (opt_fuel (base demo_henv)) demo_filter = Some demo_filter"
proof -
  have plain_demo: "plain_path [Normal ''d'']" by code_simp
  have "reloc demo_filter" using plain_demo by (simp add: demo_filter_def)
  then have "tree_law demo_henv demo_filter"
    by (rule tree_law_reloc [rotated]) (simp_all add: demo_meta demo_filter_def bare_env_def bisect_ok_lin)
  moreover have "filter_text demo_henv demo_filter \<noteq> None" by code_simp
  ultimately show "plain_filter demo_henv demo_filter" by (simp add: plain_filter_def demo_filter_def)
  show "\<not> flagged demo_filter ''linear''" by (simp add: flagged_def demo_meta history_flag_def)
  show "optimize (opt_fuel (base demo_henv)) demo_filter = Some demo_filter" by code_simp
qed

text \<open>The transaction that starts with the two originals, and with as many of the other commits as wanted.\<close>

lemma demo_start:
  assumes "2 \<le> n"
  shows "tx_ok demo_henv demo_filter demo_world (demo_tx (take n demo_world))"
    "caught_up demo_henv demo_filter (demo_tx (take n demo_world))"
    "readable demo_henv demo_filter demo_world (take n demo_world) (demo_id 2)"
proof -
  let ?S = "take n demo_world"
  have d: "distinct (map fst demo_world)" by (simp add: demo_defs)
  have "map_of ?S c = Some g \<Longrightarrow> map_of demo_world c = Some g" for c g
    by (rule map_of_is_SomeI [OF d]) (auto dest!: map_of_SomeD in_set_takeD)
  then have s: "sub_store ?S demo_world"
    using d by (fastforce simp: sub_store_def take_map [symmetric] map_le_def)
  have r: "map_of ?S (demo_id 1) = map_of demo_world (demo_id 1)" "map_of ?S (demo_id 2) = map_of demo_world (demo_id 2)"
    using assms by (cases n; cases "n - 1"; simp add: demo_world_def)+
  have e: "edge (graph_of ?S) (demo_id 1) p \<longleftrightarrow> False" "edge (graph_of ?S) (demo_id 2) p \<longleftrightarrow> p = demo_id 1" for p
    by (simp_all add: edge_def read_parent_oids.simps map_of_graph r demo_reads demo_commit_def demo_data_def)
  have a: "ancestors (graph_of ?S) (demo_id 2) \<subseteq> {demo_id 1, demo_id 2}" by (rule ancestors_closed) (auto simp: e)
  have i: "ok (read_parent_oids (graph_of ?S) i) \<and> good (tree_of demo_world i) \<and> (\<exists>r. filtered_form demo_henv demo_filter demo_world i r)"
    if "i = demo_id 1 \<or> i = demo_id 2" for i
  proof -
    have "ok (read_parent_oids (graph_of ?S) i)" "good (tree_of demo_world i)" using that good_sample1
      by (auto simp: read_parent_oids.simps map_of_graph r demo_reads demo_commit_def demo_data_def tree_of_def read_tree_id_def commit_read_def)
    then show ?thesis using that demo_forms by blast
  qed
  show "readable demo_henv demo_filter demo_world ?S (demo_id 2)" using a i unfolding readable_def complete_def by blast
  have "cache_ok odb (graph empty_caches)" for odb by (simp add: cache_ok_def empty_caches_def try_read_cached_hint_def)
  then show "tx_ok demo_henv demo_filter demo_world (demo_tx ?S)" "caught_up demo_henv demo_filter (demo_tx ?S)"
    using s by (simp_all add: tx_ok_def demo_tx_def caught_up_def sled_read_def)
qed

subsection \<open>Filtering a history\<close>

lemma apply_to_commit_step:
  assumes "world W" "optimize (opt_fuel (base H)) f = Some g" "plain_filter H g" "\<not> flagged g ''linear''"
    and "tx_ok H g W t" "caught_up H g t" "readable H g W (store t) c"
  shows "\<exists>r t'. apply_to_commit H (Suc n) (Suc (Suc k)) f c t = Some (Inr r, t') \<and> filtered_form H g W c r \<and> settled (store t') r \<and>
    tx_ok H g W t' \<and> caught_up H g t' \<and> tx_later H g t t'"
proof -
  obtain r t' where r: "apply_loop H (Suc n) (Suc (Suc k)) g c t = Some (Inr r, t')" "tx_ok H g W t'" "caught_up H g t'"
    "tx_later H g t t'" "looked_up H g t' c = Some r"
    using loop_step [OF assms(1,3-7), of n k] by blast
  have "apply_to_commit H (Suc n) (Suc (Suc k)) f c t = Some (Inr r, t')"
    using r(1) assms(2) by (simp add: apply_to_commit_def bindH_def fuelH_def del: apply_loop.simps)
  then show ?thesis using r looked_up_right [OF r(2,5)] by blast
qed

lemma fuel_Suc: "0 < (n :: nat) \<Longrightarrow> 1 < (k :: nat) \<Longrightarrow> \<exists>n' k'. n = Suc n' \<and> k = Suc (Suc k')"
  by (cases n; cases k; cases "k - 1") auto

lemma filtered_result:
  assumes "world W" "tx_ok H g W t" "readable H g W (store t) c" "tx_ok H g W t'" "filtered_form H g W c r" "settled (store t') r"
  shows "if r = zero_sha1 then filtered_tree H g (tree_of (store t) c) = empty_id
     else complete (graph_of (store t')) r \<and> tree_of (store t') r = filtered_tree H g (tree_of (store t) c)"
proof -
  obtain d where d: "map_of (store t) c = Some (GCommit (Parsed d))" by (rule complete_commit [OF readableD(1) [OF assms(3)]])
  have "map_of W c = Some (GCommit (Parsed d))" by (rule sub_storeD [OF tx_okD(1) [OF assms(2)] d])
  then have law: "(r = zero_sha1 \<and> filtered_tree H g (co_tree d) = empty_id) \<or> (r \<noteq> zero_sha1 \<and> tree_of W r = filtered_tree H g (co_tree d))"
    using filtered_form_tree [OF assms(5,1)] by (auto simp: commit_read_Parsed)
  have t: "tree_of (store t) c = co_tree d" using tree_Parsed [OF d] by (simp add: tree_of_def)
  show ?thesis
  proof (cases "r = zero_sha1")
    case False
    then have "complete (graph_of (store t')) r" using assms(6) by (simp add: settled_def)
    moreover then obtain e where "map_of (store t') r = Some (GCommit (Parsed e))" by (rule complete_commit)
    moreover from this have "map_of W r = Some (GCommit (Parsed e))" by (rule sub_storeD [OF tx_okD(1) [OF assms(4)]])
    ultimately have "tree_of (store t') r = tree_of W r" by (simp add: tree_of_def tree_Parsed)
    then show ?thesis using law t False \<open>complete (graph_of (store t')) r\<close> by simp
  qed (use law t in auto)
qed

text \<open>
  C6. Filtering a commit of a readable history returns, with a fuel of one for the recursion and of two for
  the rounds. In a world of commits without collisions, the result is the filtered form of the
  commit: it has the filtered tree, and the parents, author and message that the rewriting of
  its history gives it; or it is null, and then nothing of the commit is visible. The result and its history are in the
  store afterwards, no commit leaves the store, and the caches of the transaction stay right.
\<close>

theorem apply_to_commit_filters:
  assumes "world W" "optimize (opt_fuel (base H)) f = Some g" "plain_filter H g" "\<not> flagged g ''linear''"
    and "tx_ok H g W t" "caught_up H g t" "readable H g W (store t) c" "0 < n" "1 < k"
  shows "\<exists>r t'. apply_to_commit H n k f c t = Some (Inr r, t') \<and> filtered_form H g W c r \<and>
    (if r = zero_sha1 then filtered_tree H g (tree_of (store t) c) = empty_id
     else complete (graph_of (store t')) r \<and> tree_of (store t') r = filtered_tree H g (tree_of (store t) c)) \<and>
    map_of (store t) \<subseteq>\<^sub>m map_of (store t') \<and> tx_ok H g W t' \<and> caught_up H g t'"
proof -
  obtain n' k' where n: "n = Suc n'" "k = Suc (Suc k')" using fuel_Suc [OF assms(8,9)] by blast
  obtain r t' where r: "apply_to_commit H n k f c t = Some (Inr r, t')" "filtered_form H g W c r" "settled (store t') r"
    "tx_ok H g W t'" "caught_up H g t'" "tx_later H g t t'"
    using apply_to_commit_step [OF assms(1-7)] unfolding n by blast
  show ?thesis using r filtered_result [OF assms(1,5,7) r(4,2,3)] by (auto simp: tx_later_def)
qed

theorem apply_to_commit_filters_witness:
  "\<exists>t'. apply_to_commit demo_henv 1 2 demo_filter (demo_id 2) (demo_tx (take 2 demo_world)) = Some (Inr (demo_id 4), t') \<and>
    tree_of (store t') (demo_id 4) = demo_sub 4"
proof -
  have "store (demo_tx S) = S" for S by (simp add: demo_tx_def)
  note d = apply_to_commit_filters [OF demo_world_ok demo_plain(3,1,2) demo_start(1,2), of 2 "demo_id 2" 1 2, unfolded this]
  then obtain r t' where r: "apply_to_commit demo_henv 1 2 demo_filter (demo_id 2) (demo_tx (take 2 demo_world)) = Some (Inr r, t')"
    "filtered_form demo_henv demo_filter demo_world (demo_id 2) r"
    "r \<noteq> zero_sha1 \<Longrightarrow> tree_of (store t') r = filtered_tree demo_henv demo_filter (tree_of (take 2 demo_world) (demo_id 2))"
    using demo_start(3) [of 2] by (auto split: if_splits)
  have "r = demo_id 4" by (rule filtered_form_fun [OF r(2) demo_forms(2)])
  moreover have "tree_of (take 2 demo_world) (demo_id 2) = sample2"
    by (simp add: tree_of_def read_tree_id_def commit_read_def demo_world_def demo_commit_def demo_data_def)
  ultimately show ?thesis using r(1,3) by (simp add: demo_trees)
qed

text \<open>A transaction that has not cached anything, neither in memory nor on disk.\<close>

definition new_tx :: "tx \<Rightarrow> bool" where
  "new_tx t \<longleftrightarrow> tx_caches t = empty_caches \<and> commit_map t = Map.empty \<and> (\<forall>b \<in> set (backends t). b = Map.empty) \<and>
    missing t = [] \<and> last_written_commit t = None"

lemma first_hit_none: "\<forall>b \<in> set bs. b = Map.empty \<Longrightarrow> first_hit sled_read bs k = None"
  by (induction bs) (auto simp: sled_read_def)

lemma new_tx_ok:
  assumes "new_tx t" "sub_store (store t) W"
  shows "tx_ok H g W t" "caught_up H g t"
proof -
  have "cache_ok odb (graph empty_caches)" for odb by (simp add: cache_ok_def empty_caches_def try_read_cached_hint_def)
  then show "tx_ok H g W t" "caught_up H g t" using assms first_hit_none by (auto simp: new_tx_def tx_ok_def caught_up_def)
qed

lemma filter_each:
  assumes "world W" "optimize (opt_fuel (base H)) f = Some g" "plain_filter H g" "\<not> flagged g ''linear''"
    and "tx_ok H g W t" "caught_up H g t" "\<forall>c \<in> set cs. readable H g W (store t) c"
  shows "\<exists>rs t'. mapH (apply_to_commit H (Suc n) (Suc (Suc k)) f) cs t = Some (Inr rs, t') \<and> list_all2 (filtered_form H g W) cs rs"
  using assms(5-7)
proof (induction cs arbitrary: t)
  case Nil
  then show ?case by simp
next
  case (Cons c cs)
  have "readable H g W (store t) c" using Cons.prems(3) by simp
  from apply_to_commit_step [OF assms(1-4) Cons.prems(1,2) this]
  obtain r u where u: "apply_to_commit H (Suc n) (Suc (Suc k)) f c t = Some (Inr r, u)" "filtered_form H g W c r"
    "tx_ok H g W u" "caught_up H g u" "tx_later H g t u" by blast
  have "\<forall>c \<in> set cs. readable H g W (store u) c" using Cons.prems(3) tx_later_readable [OF u(5) Cons.prems(1)] by simp
  from Cons.IH [OF u(3,4) this] u(1,2) show ?case by (auto simp: bindH_def)
qed

text \<open>
  C7. What a transaction caches does not change what it computes. A transaction that starts with empty caches filters a list of
  commits one after the other, each run filling the caches in memory and on disk that the next ones read; every commit, repeated ones
  included, gets the filtered commit that it gets when it is filtered alone. So neither the order nor the selection of the commits filtered before
  matters.
\<close>

theorem filtering_order_irrelevant:
  assumes "world W" "optimize (opt_fuel (base H)) f = Some g" "plain_filter H g" "\<not> flagged g ''linear''"
    and "new_tx t" "sub_store (store t) W" "\<forall>c \<in> set cs. readable H g W (store t) c" "0 < n" "1 < k"
  shows "\<exists>rs t'. mapH (apply_to_commit H n k f) cs t = Some (Inr rs, t') \<and>
    list_all2 (\<lambda>c r. \<exists>u. apply_to_commit H n k f c t = Some (Inr r, u)) cs rs"
proof -
  obtain n' k' where n: "n = Suc n'" "k = Suc (Suc k')" using fuel_Suc [OF assms(8,9)] by blast
  note t = new_tx_ok [OF assms(5,6)]
  obtain rs t' where rs: "mapH (apply_to_commit H n k f) cs t = Some (Inr rs, t')" "list_all2 (filtered_form H g W) cs rs"
    using filter_each [OF assms(1-4) t assms(7)] unfolding n by blast
  have "\<exists>u. apply_to_commit H n k f c t = Some (Inr r, u)" if "c \<in> set cs" "filtered_form H g W c r" for c r
    using apply_to_commit_step [OF assms(1-4) t, of c n' k'] assms(7) that filtered_form_fun unfolding n by blast
  then show ?thesis using rs by (auto intro: list_all2_mono simp: list_all2_conv_all_nth)
qed

theorem filtering_order_irrelevant_witness:
  "\<exists>rs t'. mapH (apply_to_commit demo_henv 1 2 demo_filter) [demo_id 2, demo_id 1, demo_id 2] (demo_tx (take 2 demo_world)) = Some (Inr rs, t') \<and>
    list_all2 (\<lambda>c r. \<exists>u. apply_to_commit demo_henv 1 2 demo_filter c (demo_tx (take 2 demo_world)) = Some (Inr r, u))
      [demo_id 2, demo_id 1, demo_id 2] rs"
proof (rule filtering_order_irrelevant [OF demo_world_ok demo_plain(3,1,2)])
  let ?S = "take 2 demo_world"
  have s: "store (demo_tx ?S) = ?S" by (simp add: demo_tx_def)
  show "new_tx (demo_tx ?S)" by (simp add: new_tx_def demo_tx_def)
  show "sub_store (store (demo_tx ?S)) demo_world" using tx_okD(1) [OF demo_start(1) [of 2]] by simp
  have r: "readable demo_henv demo_filter demo_world ?S (demo_id 2)" using demo_start(3) [of 2] by simp
  moreover have "map_of ?S (demo_id 2) = Some (GCommit (Parsed (demo_data sample2 [demo_id 1])))"
    by (simp add: demo_world_def demo_commit_def numeral_eq_Suc)
  ultimately have "readable demo_henv demo_filter demo_world ?S (demo_id 1)" using readable_parents [OF r] by (simp add: demo_data_def)
  with r show "\<forall>c \<in> set [demo_id 2, demo_id 1, demo_id 2]. readable demo_henv demo_filter demo_world (store (demo_tx ?S)) c" using s by simp
qed simp_all

end
