(* ===== verification/Push_Roundtrip.thy ===== *)
theory Push_Roundtrip
  imports Filtered_History
begin

text \<open>
  Pushing to a filtered branch: \<^verbatim>\<open>unapply_filter\<close> brings the new commits of a filtered branch back to the
  original history, and filtering the commit it returns gives the pushed commit back, under the same id.
\<close>

subsection \<open>Reversing a filter on trees\<close>

definition reversed_tree :: "henv \<Rightarrow> filt \<Rightarrow> obj \<Rightarrow> obj \<Rightarrow> obj" where
  "reversed_tree H f s t =
    (case unapply (base H) (tree_fuel H) f s t None empty_caches of
       Some (Inr u, _) \<Rightarrow> u
     | _ \<Rightarrow> empty_id)"

lemma put_fun:
  assumes "put_tree E f s t u" "put_tree E' f s t v" "bz E' = bz E"
  shows "u = v"
proof -
  obtain m r where u: "u = overlay (bz E) m r" "good m" "good r"
    "\<And>p x. flat m p = Some x \<longleftrightarrow> (\<exists>q. moves f x q p \<and> flat s q = Some x)"
    "\<And>p x. flat r p = Some x \<longleftrightarrow> flat t p = Some x \<and> \<not> (\<exists>q. moves f x q p)"
    by (rule put_treeE [OF assms(1)]) blast
  obtain m' r' where v: "v = overlay (bz E') m' r'" "good m'" "good r'"
    "\<And>p x. flat m' p = Some x \<longleftrightarrow> (\<exists>q. moves f x q p \<and> flat s q = Some x)"
    "\<And>p x. flat r' p = Some x \<longleftrightarrow> flat t p = Some x \<and> \<not> (\<exists>q. moves f x q p)"
    by (rule put_treeE [OF assms(2)]) blast
  have "m = m'" by (rule view_ext [OF u(2) v(2)]) (simp add: u(4) v(4))
  moreover have "r = r'" by (rule view_ext [OF u(3) v(3)]) (simp add: u(5) v(5))
  ultimately show ?thesis using u(1) v(1) assms(3) by simp
qed

text \<open>The filters a push is about: they move files, and the fuel covers their height.\<close>

definition movable :: "henv \<Rightarrow> filt \<Rightarrow> bool" where
  "movable H f \<longleftrightarrow> bisect_ok (bz (base H)) \<and> reloc f \<and> Suc (height f) < tree_fuel H"

definition shown_tree :: "henv \<Rightarrow> filt \<Rightarrow> obj \<Rightarrow> bool" where
  "shown_tree H f s \<longleftrightarrow> (\<exists>t. good t \<and> filtered_tree H f t = s)"

lemma filtered_moved: "movable H f \<Longrightarrow> good t \<Longrightarrow> moved_tree f t (filtered_tree H f t)"
  using apply_reloc [of "base H" f "tree_fuel H" t empty_caches] by (auto simp: movable_def filtered_tree_def)

lemma shown_good: "movable H f \<Longrightarrow> shown_tree H f s \<Longrightarrow> good s"
  unfolding shown_tree_def using moved_good [OF filtered_moved] by blast

lemma reversed_put:
  assumes "movable H f" "good s" "good t"
  shows "put_tree (base H) f s t (reversed_tree H f s t)"
    "unapply (env_at H S) (tree_fuel H) f s t ctx c = Some (Inr (reversed_tree H f s t), c)"
proof -
  obtain n where n: "tree_fuel H = Suc n" "height f < n" using assms(1) by (cases "tree_fuel H") (auto simp: movable_def)
  have f: "bisect_ok (bz (base H))" "bisect_ok (bz (env_at H S))" "reloc f" using assms(1) by (simp_all add: movable_def)
  obtain u where u: "unapply (base H) (Suc n) f s t None empty_caches = Some (Inr u, empty_caches)" "put_tree (base H) f s t u"
    using unapply_reloc [OF f(1,3) n(2) assms(2,3)] by blast
  then show p: "put_tree (base H) f s t (reversed_tree H f s t)" by (simp add: reversed_tree_def n(1))
  obtain v where "unapply (env_at H S) (Suc n) f s t ctx c = Some (Inr v, c)" "put_tree (env_at H S) f s t v"
    using unapply_reloc [OF f(2,3) n(2) assms(2,3)] by blast
  then show "unapply (env_at H S) (tree_fuel H) f s t ctx c = Some (Inr (reversed_tree H f s t), c)"
    using put_fun [OF p] by (simp add: n(1))
qed

lemma reversed_good: "movable H f \<Longrightarrow> good s \<Longrightarrow> good t \<Longrightarrow> good (reversed_tree H f s t)"
  using put_good [OF _ reversed_put(1)] unfolding movable_def by blast

lemma reversed_shown:
  assumes "movable H f" "shown_tree H f s" "good t"
  shows "filtered_tree H f (reversed_tree H f s t) = s"
proof -
  have f: "bisect_ok (bz (base H))" "reloc f" using assms(1) by (simp_all add: movable_def)
  obtain r where r: "good r" "moved_tree f r s" using assms(1,2) filtered_moved by (auto simp: shown_tree_def)
  note s = moved_good [OF r(2)]
  show ?thesis
    using put_shown [OF f r(2) reversed_put(1) [OF assms(1) s assms(3)] filtered_moved [OF assms(1) reversed_good [OF assms(1) s assms(3)]]] .
qed

lemma reversed_same:
  assumes "movable H f" "good t"
  shows "reversed_tree H f (filtered_tree H f t) t = t"
proof -
  have f: "bisect_ok (bz (base H))" "reloc f" using assms(1) by (simp_all add: movable_def)
  note m = filtered_moved [OF assms]
  show ?thesis using put_unchanged [OF f assms(2) m reversed_put(1) [OF assms(1) moved_good [OF m] assms(2)]] .
qed

subsection \<open>The originals of a chain of commits\<close>

text \<open>
  \<open>pushed H f W b p cs r\<close>: the commits \<open>cs\<close>, oldest first, are a chain on top of \<open>p\<close>; each has an original with the
  reversed tree, on top of \<open>b\<close> and of the originals before it; \<open>r\<close> is the last of them. All of them are in the world.
\<close>

inductive pushed :: "henv \<Rightarrow> filt \<Rightarrow> cstore \<Rightarrow> oid \<Rightarrow> oid \<Rightarrow> oid list \<Rightarrow> oid \<Rightarrow> bool" for H f W where
  pushed_Nil: "pushed H f W b p [] b"
| pushed_Cons: "map_of W c = Some (GCommit (Parsed d)) \<Longrightarrow> co_parents d = [p] \<Longrightarrow>
    d' = d\<lparr> co_tree := reversed_tree H f (co_tree d) (tree_of W b), co_parents := [b] \<rparr> \<Longrightarrow>
    map_of W (hash_commit H d') = Some (GCommit (Parsed d')) \<Longrightarrow>
    pushed H f W (hash_commit H d') c cs r \<Longrightarrow> pushed H f W b p (c # cs) r"

inductive_cases pushed_ConsE: "pushed H f W b p (c # cs) r"

text \<open>A commit that can be pushed: stored under its hash, with a tree the filter can show and a signature that filtering keeps.\<close>

definition pushable :: "henv \<Rightarrow> filt \<Rightarrow> cstore \<Rightarrow> oid \<Rightarrow> bool" where
  "pushable H f W c \<longleftrightarrow>
    (\<exists>d. map_of W c = Some (GCommit (Parsed d)) \<and> hash_commit H d = c \<and> shown_tree H f (co_tree d) \<and>
      gpgsig_headers (gpgsig_mode_of (bt_get (into_meta f) ''gpgsig'')) (co_extra d) = co_extra d)"

lemma tree_of_Parsed: "map_of W c = Some (GCommit (Parsed d)) \<Longrightarrow> tree_of W c = co_tree d"
  by (simp add: tree_of_def tree_Parsed)

lemma single_verdict:
  assumes "co_parents e = [b]" "p \<noteq> zero_sha1" "tree_of W p \<noteq> filtered_tree H f (co_tree e) \<or> tree_of W b = co_tree e"
  shows "filtered_verdict H f W e [p] = Written (e\<lparr> co_tree := filtered_tree H f (co_tree e), co_parents := [p],
    co_extra := gpgsig_headers (gpgsig_mode_of (bt_get (into_meta f) ''gpgsig'')) (co_extra e) \<rparr>)"
proof -
  have "kept_parents f W [p] = [p]" using assms(2) by (simp add: kept_parents_def Let_def)
  then show ?thesis using assms(1,3) by (auto simp: filtered_verdict_def written_verdict_def Let_def)
qed

text \<open>The original of a commit has the commit as its filtered form.\<close>

lemma original_form:
  assumes W: "world W" and f: "movable H f" and b: "filtered_form H f W b p" "p \<noteq> zero_sha1" "good (tree_of W b)"
    and c: "pushable H f W c" "map_of W c = Some (GCommit (Parsed d))" "co_parents d = [p]"
    and d': "d' = d\<lparr> co_tree := reversed_tree H f (co_tree d) (tree_of W b), co_parents := [b] \<rparr>"
      "map_of W (hash_commit H d') = Some (GCommit (Parsed d'))"
  shows "filtered_form H f W (hash_commit H d') c" "good (tree_of W (hash_commit H d'))"
proof -
  let ?u = "reversed_tree H f (co_tree d) (tree_of W b)"
  have d: "hash_commit H d = c" "shown_tree H f (co_tree d)"
    "gpgsig_headers (gpgsig_mode_of (bt_get (into_meta f) ''gpgsig'')) (co_extra d) = co_extra d"
    using c(1,2) by (auto simp: pushable_def)
  have u: "filtered_tree H f ?u = co_tree d" by (rule reversed_shown [OF f d(2) b(3)])
  obtain e where e: "commit_read W b = Inr (Parsed e)" using b(1) by (auto elim: filtered_form.cases)
  have "tree_of W p = filtered_tree H f (tree_of W b)"
    using filtered_form_tree [OF b(1) W e] b(2) e tree_of_Parsed [of W b e] by (simp add: commit_read_Parsed)
  then have "tree_of W p = co_tree d \<Longrightarrow> ?u = tree_of W b" using reversed_same [OF f b(3)] by simp
  then have "filtered_verdict H f W d' [p] = Written d"
    using single_verdict [of d' b p W H f] d(3) u c(3) b(2) by (auto simp: d'(1))
  then show "filtered_form H f W (hash_commit H d') c"
    using d'(2) b(1) c(2) d(1)
    by (intro filtered_form.filtered [where d = d' and rs = "[p]"]) (auto simp: commit_read_Parsed verdict_id_def, simp add: d'(1))
  show "good (tree_of W (hash_commit H d'))"
    using reversed_good [OF f shown_good [OF f d(2)] b(3)] tree_of_Parsed [OF d'(2)] by (simp add: d'(1))
qed

lemma pushed_form:
  assumes "pushed H f W b p cs r" "world W" "movable H f" "filtered_form H f W b p" "p \<noteq> zero_sha1" "good (tree_of W b)"
    and "\<forall>c \<in> set cs. pushable H f W c"
  shows "filtered_form H f W r (last (p # cs)) \<and> good (tree_of W r)"
  using assms
proof (induction rule: pushed.induct)
  case (pushed_Cons c d p d' b cs r)
  have pc: "pushable H f W c" using pushed_Cons.prems by simp
  note o = original_form [OF pushed_Cons.prems(1-5) pc pushed_Cons.hyps(1-4)]
  have "c \<noteq> zero_sha1" using pushed_Cons.hyps(1) pushed_Cons.prems(1) by (auto simp: world_def)
  from pushed_Cons.IH [OF pushed_Cons.prems(1,2) o(1) this o(2)] pushed_Cons.prems(6) show ?case by simp
qed simp

subsection \<open>The range of a push\<close>

lemma pushed_parent:
  assumes "pushed H f W b p (c # cs) r"
  shows "read_parent_oids (graph_of W) c = Inr [p]" "edge (graph_of W) c q \<longleftrightarrow> q = p"
proof -
  obtain d where "map_of W c = Some (GCommit (Parsed d))" "co_parents d = [p]" using assms by (auto elim: pushed_ConsE)
  then show "read_parent_oids (graph_of W) c = Inr [p]" "edge (graph_of W) c q \<longleftrightarrow> q = p"
    using parents_Parsed [of W c d] by (simp_all add: edge_def)
qed

lemma pushed_ranks:
  assumes "pushed H f W b p cs r" "ranked (graph_of W) rank"
  shows "(\<forall>c \<in> set cs. rank p < rank c) \<and> distinct cs"
  using assms
proof (induction rule: pushed.induct)
  case (pushed_Cons c d p d' b cs r)
  then have "rank p < rank c" using parents_Parsed [OF pushed_Cons.hyps(1)] by (intro rankedD [OF pushed_Cons.prems]) (simp add: edge_def)
  then show ?case using pushed_Cons by fastforce
qed simp

lemma pushed_ancestors:
  assumes "pushed H f W b p cs r"
  shows "ancestors (graph_of W) (last (p # cs)) = set cs \<union> ancestors (graph_of W) p"
  using assms
proof (induction rule: pushed.induct)
  case (pushed_Cons c d p d' b cs r)
  have "ancestors (graph_of W) c = insert c (ancestors (graph_of W) p)"
    using ancestors_unfold [OF parents_Parsed [OF pushed_Cons.hyps(1)]] pushed_Cons.hyps(2) by simp
  then show ?case using pushed_Cons.IH by auto
qed simp

lemma pushed_step: "pushed H f W b p cs r \<Longrightarrow> z \<in> set cs \<Longrightarrow> \<exists>q \<in> set (p # cs). edge (graph_of W) z q"
proof (induction rule: pushed.induct)
  case (pushed_Cons c d p d' b cs r)
  have "edge (graph_of W) c p" using parents_Parsed [OF pushed_Cons.hyps(1)] pushed_Cons.hyps(2) by (simp add: edge_def)
  then show ?case using pushed_Cons by auto
qed simp

text \<open>Only one order of a chain puts children before parents.\<close>

lemma parents_first_snoc:
  "parents_first R P (xs @ [z]) \<Longrightarrow> (\<forall>p. R z p \<longrightarrow> P p) \<and> parents_first R (\<lambda>x. P x \<or> x = z) xs"
  by (induction xs) auto

lemma chain_order:
  assumes "pushed H f W b p cs r" "ranked (graph_of W) rank"
    and "parents_first (edge (graph_of W)) P out" "distinct out" "set out = set cs" "\<forall>c \<in> set cs. \<not> P c"
  shows "out = rev cs"
  using assms
proof (induction arbitrary: P out rule: pushed.induct)
  case (pushed_Cons c d p d' b cs r)
  have dist: "c \<notin> set cs" using pushed_ranks [OF pushed.pushed_Cons [OF pushed_Cons.hyps(1-5)] pushed_Cons.prems(1)] by simp
  obtain xs z where o: "out = xs @ [z]" using pushed_Cons.prems(4) by (cases out rule: rev_cases) auto
  note last = parents_first_snoc [OF pushed_Cons.prems(2) [unfolded o]]
  have "z \<notin> set cs" using pushed_step [OF pushed_Cons.hyps(5)] last pushed_Cons.prems(5) by fastforce
  then have z: "z = c" using pushed_Cons.prems(4) o by auto
  then have "set xs = set cs" using pushed_Cons.prems(3,4) o dist by auto
  moreover have "\<forall>x \<in> set cs. \<not> (P x \<or> x = z)" using pushed_Cons.prems(5) z dist by auto
  ultimately have "xs = rev cs" using pushed_Cons.IH [OF pushed_Cons.prems(1) conjunct2 [OF last]] pushed_Cons.prems(3) o by simp
  then show ?case using o z by simp
qed simp

lemma parents_first_cong:
  "(\<And>c p. c \<in> set out \<Longrightarrow> R c p \<longleftrightarrow> Q c p) \<Longrightarrow> parents_first R P out \<longleftrightarrow> parents_first Q P out"
  by (induction out) auto

text \<open>The commits to bring back are the chain, newest first.\<close>

lemma revs_step:
  assumes "world W" "tx_ok H f W t" "pushed H f W b p cs r" "complete (graph_of (store t)) (last (p # cs))"
  shows "revs_to_unapply (last (p # cs)) p t = Inr (rev cs)"
proof -
  let ?S = "graph_of (store t)" and ?W = "graph_of W" and ?tip = "last (p # cs)"
  have sub: "sub_store (store t) W" by (rule tx_okD(1) [OF assms(2)])
  have sW: "sane ?W" using assms(1) by (simp add: world_def)
  then have s: "sane ?S" by (rule sane_sub [OF _ sub])
  obtain rank where rank: "ranked ?W rank" using sW by (auto simp: sane_def)
  have anc: "ancestors ?S ?tip = set cs \<union> ancestors ?W p"
    using ancestors_sub [OF sub assms(4)] pushed_ancestors [OF assms(3)] by simp
  then have p: "complete ?S p" using complete_ancestor [OF assms(4), of p] ancestors_self [of p ?W] by blast
  have ap: "ancestors ?W p = ancestors ?S p" by (rule ancestors_sub [OF sub p])
  obtain out where out: "range_topo_vec ?S (josh_sequence ?S (graph (tx_caches t))) ?tip p = Inr out" "distinct out"
    "set out = ancestors ?S ?tip - ancestors ?S p" "parents_first (edge ?S) (\<lambda>c. c \<in> ancestors ?S p) out"
    using josh_range [OF s tx_okD(2) [OF assms(2)] assms(4) p] by blast
  have "c \<notin> ancestors ?W p" if "c \<in> set cs" for c
    using pushed_ranks [OF assms(3) rank] that ancestors_rank [OF rank, of c p] by fastforce
  then have new: "set out = set cs" "\<forall>c \<in> set cs. c \<notin> ancestors ?S p" using out(3) anc ap by auto
  have "edge ?S c q \<longleftrightarrow> edge ?W c q" if "c \<in> set cs" for c q
    using read_parents_sub [OF sub assms(4), of c] that anc by (simp add: edge_def)
  then have "parents_first (edge ?W) (\<lambda>c. c \<in> ancestors ?S p) out"
    using out(4) parents_first_cong [of out "edge ?S" "edge ?W"] new(1) by blast
  then have "out = rev cs" by (rule chain_order [OF assms(3) rank _ out(2) new])
  moreover obtain d where "map_of (store t) p = Some (GCommit (Parsed d))" by (rule complete_commit [OF p])
  ultimately show ?thesis using out(1) by (simp add: revs_to_unapply_def commit_exists_def)
qed

subsection \<open>Finding the original of a parent\<close>

text \<open>A branch with the tip \<open>T\<close> whose filtered form \<open>F\<close> is where the push starts. The order of a hash set is some order of its elements.\<close>

definition push_setup :: "henv \<Rightarrow> filt \<Rightarrow> cstore \<Rightarrow> oid \<Rightarrow> oid \<Rightarrow> bool" where
  "push_setup H f W T F \<longleftrightarrow> world W \<and> movable H f \<and> plain_filter H f \<and> \<not> flagged f ''linear'' \<and>
    optimize (opt_fuel (base H)) f = Some f \<and> filtered_form H f W T F \<and> F \<noteq> zero_sha1 \<and>
    (\<forall>xs. set (hash_order H xs) = set xs)"

definition push_state :: "henv \<Rightarrow> filt \<Rightarrow> cstore \<Rightarrow> oid \<Rightarrow> tx \<Rightarrow> bool" where
  "push_state H f W T t \<longleftrightarrow> tx_ok H f W t \<and> caught_up H f t \<and> readable H f W (store t) T"

lemma push_state_later:
  "push_state H f W T t \<Longrightarrow> tx_later H f t t' \<Longrightarrow> tx_ok H f W t' \<Longrightarrow> caught_up H f t' \<Longrightarrow> push_state H f W T t'"
  using tx_later_readable by (auto simp: push_state_def)

lemma apply_target:
  assumes "push_setup H f W T F" "push_state H f W T t"
  shows "\<exists>t'. apply_to_commit H (Suc n) (Suc (Suc k)) f T t = Some (Inr F, t') \<and> push_state H f W T t' \<and> tx_later H f t t'"
proof -
  note s = assms(1) [unfolded push_setup_def] and t = assms(2) [unfolded push_state_def]
  obtain r t' where r: "apply_to_commit H (Suc n) (Suc (Suc k)) f T t = Some (Inr r, t')" "filtered_form H f W T r"
    "tx_ok H f W t'" "caught_up H f t'" "tx_later H f t t'"
    using apply_to_commit_step [of W H f f t T n k] s t by blast
  have "r = F" using filtered_form_fun [OF r(2)] s by blast
  then show ?thesis using r push_state_later [OF assms(2)] by blast
qed

lemma target_known:
  assumes "push_state H f W T t"
  obtains d where "map_of (store t) T = Some (GCommit (Parsed d))" "ensure_commit (graph_of (store t)) T = Inr ()"
proof -
  obtain d where d: "map_of (store t) T = Some (GCommit (Parsed d))"
    using complete_commit [of "store t" T] assms readableD(1) unfolding push_state_def by blast
  then have "ensure_commit (graph_of (store t)) T = Inr ()" by (simp add: ensure_commit.simps map_of_graph)
  with d show thesis by (rule that)
qed

lemma search_step:
  assumes "push_setup H f W T F" "push_state H f W T t"
  shows "\<exists>t'. search_history H (Suc n) (Suc (Suc k)) f T F t = Some (Inr (Some T), t') \<and> push_state H f W T t' \<and> tx_later H f t t'"
proof -
  obtain u where u: "apply_to_commit H (Suc n) (Suc (Suc k)) f T t = Some (Inr F, u)" "push_state H f W T u" "tx_later H f t u"
    using apply_target [OF assms] by blast
  have "ensure_commit (graph_of (store t)) T = Inr ()" by (rule target_known [OF assms(2)])
  then have w: "push (graph_of (store t)) new_walk T = Inr \<lparr> tips = [T], first_parent = False \<rparr>" by (simp add: push_def new_walk_def)
  have "set (hash_order H [T]) = {T}" using assms(1) by (simp add: push_setup_def)
  then have "find (\<lambda>p. p = T) (hash_order H [T]) = Some T" by (cases "hash_order H [T]") auto
  then have v: "search_visit H (Suc n) (Suc (Suc k)) f F
      \<lparr> unlocked = {T}, pending = [], found = None, failed = None, starved = False, search_tx = t \<rparr> T =
    Inr (\<lparr> unlocked = {T}, pending = [], found = Some T, failed = None, starved = False, search_tx = u \<rparr>, True)"
    using u(1) by (simp add: search_visit_def)
  have "search_history H (Suc n) (Suc (Suc k)) f T F t = Some (Inr (Some T), u)"
    by (simp add: search_history_def w discover_def dfs.simps v)
  then show ?thesis using u by blast
qed

lemma base_step:
  assumes "push_setup H f W T F" "push_state H f W T t" "m p = Some b \<or> (m p = None \<and> p = F \<and> b = T)"
  shows "\<exists>t'. find_unapply_base H (Suc n) (Suc (Suc k)) f T p m t =
      Some (Inr (Inr b, if m p = None then m(F \<mapsto> T) else m), t') \<and> push_state H f W T t' \<and> tx_later H f t t'"
proof (cases "m p")
  case None
  then have p: "p = F" "b = T" using assms(3) by auto
  obtain u where u: "apply_to_commit H (Suc n) (Suc (Suc k)) f T t = Some (Inr F, u)" "push_state H f W T u" "tx_later H f t u"
    using apply_target [OF assms(1,2)] by blast
  obtain v where v: "search_history H (Suc n) (Suc (Suc k)) f T F u = Some (Inr (Some T), v)" "push_state H f W T v" "tx_later H f u v"
    using search_step [OF assms(1) u(2)] by blast
  have z: "T \<noteq> zero_sha1" "F \<noteq> zero_sha1"
    using assms(1) by (auto simp: push_setup_def world_def commit_read_Parsed elim: filtered_form.cases)
  have "find_unapply_base H (Suc n) (Suc (Suc k)) f T p m t = Some (Inr (Inr b, m(F \<mapsto> T)), v)"
    using None u(1) v(1) z by (simp add: p find_unapply_base_def bindH_def catchH_def Let_def)
  then show ?thesis using None v(2) tx_later_trans [OF u(3) v(3)] by auto
next
  case (Some x)
  then show ?thesis using assms by (auto simp: find_unapply_base_def tx_later_def)
qed

subsection \<open>Bringing back one commit\<close>

lemma unapply_tree_step:
  assumes "movable H f" "good s" "good t"
  shows "unapplyH H f s t rv p x = Some (Inr (reversed_tree H f s t), x)"
  using reversed_put(2) [OF assms] by (simp add: unapplyH_def treeH_def)

lemma caught_up_grows: "caught_up H f t \<Longrightarrow> tx_grows H f t t' \<Longrightarrow> missing t' = missing t \<Longrightarrow> caught_up H f t'"
  using tx_later_answered [OF tx_later_grows] unfolding caught_up_def by fastforce

lemma complete_later: "tx_later H f t t' \<Longrightarrow> tx_ok H f W t \<Longrightarrow> complete (graph_of (store t)) c \<Longrightarrow> complete (graph_of (store t')) c"
  by (rule complete_sub) (auto simp: tx_later_def sub_store_def tx_ok_def)

lemma readable_child:
  assumes "readable H f W S b" "map_of S c = Some (GCommit (Parsed d))" "co_parents d = [b]"
    and "filtered_form H f W c r" "good (tree_of W c)"
  shows "readable H f W S c"
proof -
  have p: "read_parent_oids (graph_of S) c = Inr [b]" using parents_Parsed [OF assms(2)] assms(3) by simp
  then have "ancestors (graph_of S) c = insert c (ancestors (graph_of S) b)" using ancestors_unfold [OF p] by simp
  then show ?thesis using assms(1,4,5) p unfolding readable_def complete_def by auto
qed

text \<open>A commit of the push with its original on top of \<open>b\<close>.\<close>

definition has_original :: "henv \<Rightarrow> filt \<Rightarrow> cstore \<Rightarrow> oid \<Rightarrow> oid \<Rightarrow> oid \<Rightarrow> gcommit \<Rightarrow> gcommit \<Rightarrow> bool" where
  "has_original H f W b p c d d' \<longleftrightarrow> pushable H f W c \<and> map_of W c = Some (GCommit (Parsed d)) \<and> co_parents d = [p] \<and>
    d' = d\<lparr> co_tree := reversed_tree H f (co_tree d) (tree_of W b), co_parents := [b] \<rparr> \<and>
    map_of W (hash_commit H d') = Some (GCommit (Parsed d'))"

lemma original_visible:
  assumes "world W" "movable H f" "filtered_form H f W b p" "p \<noteq> zero_sha1" "good (tree_of W b)" "has_original H f W b p c d d'"
    and "reversed_tree H f (co_tree d) (tree_of W b) = tree_of W b"
  shows "tree_of W p = co_tree d"
proof -
  obtain e where e: "commit_read W b = Inr (Parsed e)" using assms(3) by (auto elim: filtered_form.cases)
  have "shown_tree H f (co_tree d)" using assms(6) by (auto simp: has_original_def pushable_def)
  then have "filtered_tree H f (tree_of W b) = co_tree d" using reversed_shown [OF assms(2) _ assms(5)] assms(7) by metis
  then show ?thesis
    using filtered_form_tree [OF assms(3,1) e] assms(4) e tree_of_Parsed [of W b e] by (simp add: commit_read_Parsed)
qed

lemma unapply_commit_step:
  assumes env: "push_setup H f W T F" and t: "push_state H f W T t" and b: "filtered_form H f W b p" "p \<noteq> zero_sha1" "readable H f W (store t) b"
    and c: "has_original H f W b p c d d'" "complete (graph_of (store t)) c"
    and m: "m c = None" "m p = Some b \<or> (m p = None \<and> p = F \<and> b = T)"
  shows "\<exists>t'. unapply_commit H (Suc n) (Suc (Suc k)) f T mode rp (ret, m) c t =
      Some (Inr (hash_commit H d', (if m p = None then m(F \<mapsto> T) else m)(c \<mapsto> hash_commit H d')), t') \<and>
    push_state H f W T t' \<and> tx_later H f t t' \<and> readable H f W (store t') (hash_commit H d')"
proof -
  have W: "world W" and f: "movable H f" using env by (simp_all add: push_setup_def)
  have cs: "pushable H f W c" "map_of W c = Some (GCommit (Parsed d))" "co_parents d = [p]"
    and d': "d' = d\<lparr> co_tree := reversed_tree H f (co_tree d) (tree_of W b), co_parents := [b] \<rparr>"
      "map_of W (hash_commit H d') = Some (GCommit (Parsed d'))" using c(1) by (auto simp: has_original_def)
  have sub: "sub_store (store t) W" using t tx_okD(1) by (auto simp: push_state_def)
  have read: "map_of (store t) c = Some (GCommit (Parsed d))"
    using complete_commit [OF c(2)] sub_storeD [OF sub, of c] cs(2) by fastforce
  obtain u where u: "find_unapply_base H (Suc n) (Suc (Suc k)) f T p m t =
      Some (Inr (Inr b, if m p = None then m(F \<mapsto> T) else m), u)" "push_state H f W T u" "tx_later H f t u"
    using base_step [OF env t, of m p b n k] m(2) by blast
  have subu: "sub_store (store u) W" using u(2) tx_okD(1) by (auto simp: push_state_def)
  have bu: "readable H f W (store u) b" using tx_later_readable [OF u(3) _ b(3)] t by (simp add: push_state_def)
  obtain e where e: "map_of (store u) b = Some (GCommit (Parsed e))" by (rule complete_commit [OF readableD(1) [OF bu]])
  have tb: "tree_of W b = co_tree e" by (rule tree_of_Parsed [OF sub_storeD [OF subu e]])
  note gb = readableD(3) [OF bu]
  have gs: "good (co_tree d)" using cs(1,2) shown_good [OF f] by (auto simp: pushable_def)
  have z: "b \<noteq> zero_sha1" using sub_storeD [OF subu e] W by (auto simp: world_def)
  obtain v where v: "write_commit H d' u = Some (Inr (hash_commit H d'), v)" "tx_ok H f W v" "tx_grows H f u v" "missing v = missing u"
    "map_of (store v) (hash_commit H d') = Some (GCommit (Parsed d'))"
    using write_step [OF W _ d'(2), of f u] u(2) readableD(1) [OF bu] by (auto simp: push_state_def d'(1))
  note o = original_form [OF W f b(1,2) gb cs d']
  have later: "tx_later H f t v" by (rule tx_later_trans [OF u(3) tx_later_grows [OF v(3)]])
  have st: "push_state H f W T v"
    using push_state_later [OF t later v(2)] caught_up_grows [OF _ v(3,4)] u(2) by (simp add: push_state_def)
  have "tx_ok H f W u" using u(2) by (simp add: push_state_def)
  then have "readable H f W (store v) b" by (rule tx_later_readable [OF tx_later_grows [OF v(3)] _ bu])
  then have rd: "readable H f W (store v) (hash_commit H d')" by (rule readable_child [OF _ v(5) _ o]) (simp add: d'(1))
  have "edge (graph_of (store t)) c p" using parents_Parsed [OF read] cs(3) by (simp add: edge_def)
  then have "complete (graph_of (store t)) p" using complete_ancestor [OF c(2) ancestors_edge [OF ancestors_self]] by blast
  then obtain x where "map_of (store t) p = Some (GCommit (Parsed x))" by (rule complete_commit)
  then have "map_of (store v) p = Some (GCommit (Parsed x))" "map_of W p = Some (GCommit (Parsed x))"
    using later sub_storeD [OF sub] by (auto simp: tx_later_def map_le_def dom_def)
  then have tp: "read_tree_id (store v) p = Inr (tree_of W p)" by (simp add: tree_of_def tree_Parsed)
  have run: "unapply_commit H (Suc n) (Suc (Suc k)) f T mode rp (ret, m) c t =
      Some (Inr (hash_commit H d', (if m p = None then m(F \<mapsto> T) else m)(c \<mapsto> hash_commit H d')), v)"
  proof -
    let ?u = "reversed_tree H f (co_tree d) (tree_of W b)"
    have w: "rewrite_commit H (Parsed d) [b] (from_tree ?u) Preserve = write_commit H d'"
      by (subst rewrite_step) (simp_all add: from_tree_def d'(1) gpgsig_headers_def)
    have x: "unapplyH H f (co_tree d) (co_tree e) c b u = Some (Inr ?u, u)" using unapply_tree_step [OF f gs gb] tb by simp
    have y: "?u = co_tree e \<Longrightarrow> tree_of W p = co_tree d" using original_visible [OF W f b(1,2) gb c(1)] tb by simp
    show ?thesis
      using read m(1) u(1) e z x w v(1) tp cs(3) y
      by (simp add: unapply_commit_def bindH_def readH_def liftH_def commit_read_def drop_orphan_def choose_tree_def first_parent_id_def Let_def)
  qed
  show ?thesis using run st later rd by blast
qed

subsection \<open>Bringing back a chain of commits\<close>

lemma unapply_chain_step:
  assumes "pushed H f W b p cs r" "push_setup H f W T F" "push_state H f W T t" "filtered_form H f W b p" "p \<noteq> zero_sha1"
    and "readable H f W (store t) b" "\<forall>c \<in> set cs. pushable H f W c \<and> complete (graph_of (store t)) c"
    and "\<forall>c \<in> set cs. m c = None \<and> c \<noteq> F" "m p = Some b \<or> (m p = None \<and> p = F \<and> b = T)"
  shows "\<exists>m' t'. foldH (unapply_commit H (Suc n) (Suc (Suc k)) f T mode rp) (b, m) cs t = Some (Inr (r, m'), t') \<and>
    push_state H f W T t' \<and> tx_later H f t t' \<and> readable H f W (store t') r"
  using assms
proof (induction arbitrary: t m rule: pushed.induct)
  case (pushed_Nil b p)
  then show ?case by (auto simp: tx_later_def)
next
  case (pushed_Cons c d p d' b cs r)
  let ?m = "(if m p = None then m(F \<mapsto> T) else m)(c \<mapsto> hash_commit H d')"
  have W: "world W" and f: "movable H f" using pushed_Cons.prems(1) by (simp_all add: push_setup_def)
  have c: "has_original H f W b p c d d'" "complete (graph_of (store t)) c"
    using pushed_Cons.hyps(1-4) pushed_Cons.prems(6) by (simp_all add: has_original_def)
  have mc: "m c = None" using pushed_Cons.prems(7) by simp
  obtain u where u: "unapply_commit H (Suc n) (Suc (Suc k)) f T mode rp (b, m) c t = Some (Inr (hash_commit H d', ?m), u)"
    "push_state H f W T u" "tx_later H f t u" "readable H f W (store u) (hash_commit H d')"
    using unapply_commit_step [OF pushed_Cons.prems(1-5) c mc pushed_Cons.prems(8)] by blast
  have pc: "pushable H f W c" using c(1) by (simp add: has_original_def)
  note o = original_form [OF W f pushed_Cons.prems(3,4) readableD(3) [OF pushed_Cons.prems(5)] pc pushed_Cons.hyps(1-4)]
  obtain rank where "ranked (graph_of W) rank" using W by (auto simp: world_def sane_def)
  then have "c \<notin> set cs" using pushed_ranks [OF pushed.pushed_Cons [OF pushed_Cons.hyps(1-5)]] by simp
  then have new: "\<forall>x \<in> set cs. ?m x = None \<and> x \<noteq> F" using pushed_Cons.prems(7) by auto
  have zc: "c \<noteq> zero_sha1" using pushed_Cons.hyps(1) W by (auto simp: world_def)
  have all: "\<forall>x \<in> set cs. pushable H f W x \<and> complete (graph_of (store u)) x"
    using pushed_Cons.prems(6) complete_later [OF u(3)] pushed_Cons.prems(2) by (auto simp: push_state_def)
  have "?m c = Some (hash_commit H d') \<or> (?m c = None \<and> c = F \<and> hash_commit H d' = T)" by simp
  from pushed_Cons.IH [OF pushed_Cons.prems(1) u(2) o(1) zc u(4) all new this] obtain m' v where v: "foldH (unapply_commit H (Suc n) (Suc (Suc k)) f T mode rp) (hash_commit H d', ?m) cs u = Some (Inr (r, m'), v)"
    "push_state H f W T v" "tx_later H f u v" "readable H f W (store v) r"
    by blast
  then show ?case using foldH_step [OF u(1) v(1)] tx_later_trans [OF u(3) v(3)] by blast
qed

lemma push_step:
  assumes "push_setup H f W T F" "push_state H f W T t" "pushed H f W T F cs r" "cs \<noteq> []"
    and "\<forall>c \<in> set cs. pushable H f W c" "complete (graph_of (store t)) (last cs)"
  shows "\<exists>t'. unapply_filter H (Suc n) (Suc (Suc k)) f T F (last cs) mode rp t = Some (Inr r, t') \<and>
    push_state H f W T t' \<and> tx_later H f t t' \<and> readable H f W (store t') r \<and> filtered_form H f W r (last cs)"
proof -
  have W: "world W" and f: "movable H f" and T: "filtered_form H f W T F" "F \<noteq> zero_sha1"
    using assms(1) by (simp_all add: push_setup_def)
  have t: "tx_ok H f W t" "readable H f W (store t) T" using assms(2) by (simp_all add: push_state_def)
  obtain rank where rank: "ranked (graph_of W) rank" using W by (auto simp: world_def sane_def)
  have new: "\<forall>c \<in> set cs. c \<noteq> F" using pushed_ranks [OF assms(3) rank] by auto
  have tip: "last (F # cs) = last cs" using assms(4) by simp
  have revs: "revs_to_unapply (last cs) F t = Inr (rev cs)" using revs_step [OF W t(1) assms(3)] assms(6) tip by simp
  have "set cs \<subseteq> ancestors (graph_of (store t)) (last cs)"
    using pushed_ancestors [OF assms(3)] ancestors_sub [OF tx_okD(1) [OF t(1)] assms(6)] tip by auto
  then have all: "\<forall>c \<in> set cs. pushable H f W c \<and> complete (graph_of (store t)) c"
    using assms(5) complete_ancestor [OF assms(6)] by blast
  obtain m' t' where t': "foldH (unapply_commit H (Suc n) (Suc (Suc k)) f T mode rp) (T, Map.empty) cs t = Some (Inr (r, m'), t')"
    "push_state H f W T t'" "tx_later H f t t'" "readable H f W (store t') r"
    using unapply_chain_step [OF assms(3,1,2) T t(2) all, of Map.empty n k mode rp] new by auto
  have "last cs \<noteq> F" using new assms(4) by simp
  then have "unapply_filter H (Suc n) (Suc (Suc k)) f T F (last cs) mode rp t = Some (Inr r, t')"
    using revs t'(1) T(2) by (simp add: unapply_filter_def bindH_def)
  then show ?thesis using t' pushed_form [OF assms(3) W f T readableD(3) [OF t(2)] assms(5)] tip by auto
qed

text \<open>
  C5. A push comes back: for a filter that moves files, \<^verbatim>\<open>unapply_filter\<close> brings a chain of commits on top of the filtered
  branch back as a chain on top of the original branch, and filtering the commit it returns gives exactly
  the pushed commit, under the same id. Both calls return; no commit leaves the store.
\<close>

theorem push_roundtrip:
  assumes "push_setup H f W T F" "push_state H f W T t" "pushed H f W T F cs r" "cs \<noteq> []"
    and "\<forall>c \<in> set cs. pushable H f W c" "complete (graph_of (store t)) (last cs)" "0 < n" "1 < k"
  shows "\<exists>t' t''. unapply_filter H n k f T F (last cs) mode rp t = Some (Inr r, t') \<and>
    apply_to_commit H n k f r t' = Some (Inr (last cs), t'') \<and>
    map_of (store t) \<subseteq>\<^sub>m map_of (store t') \<and> map_of (store t') \<subseteq>\<^sub>m map_of (store t'')"
proof -
  obtain n' k' where n: "n = Suc n'" "k = Suc (Suc k')" using fuel_Suc [OF assms(7,8)] by blast
  obtain t' where t': "unapply_filter H n k f T F (last cs) mode rp t = Some (Inr r, t')" "push_state H f W T t'"
    "tx_later H f t t'" "readable H f W (store t') r" "filtered_form H f W r (last cs)"
    using push_step [OF assms(1-6)] unfolding n by blast
  obtain r' t'' where "apply_to_commit H n k f r t' = Some (Inr r', t'')" "filtered_form H f W r r'" "tx_later H f t' t''"
    using apply_to_commit_step [of W H f f t' r n' k'] assms(1) t'(2,4) unfolding n push_setup_def push_state_def by blast
  moreover have "r' = last cs" using filtered_form_fun [OF calculation(2) t'(5)] .
  ultimately show ?thesis using t'(1,3) by (auto simp: tx_later_def)
qed

lemma demo_push: "push_setup demo_henv demo_filter demo_world (demo_id 2) (demo_id 4)"
  "pushed demo_henv demo_filter demo_world (demo_id 2) (demo_id 4) [demo_id 5] (demo_id 6)" "pushable demo_henv demo_filter demo_world (demo_id 5)"
proof -
  have "plain_path [Normal ''d'']" by code_simp
  then have m: "movable demo_henv demo_filter"
    by (simp add: movable_def demo_meta demo_filter_def bare_env_def bisect_ok_lin)
  show "push_setup demo_henv demo_filter demo_world (demo_id 2) (demo_id 4)"
    unfolding push_setup_def using demo_world_ok demo_plain demo_forms(2) m by (simp add: demo_meta)
  have rev: "reversed_tree demo_henv demo_filter (demo_sub 5) sample2 = sample3" by code_simp
  have t: "tree_of demo_world (demo_id 2) = sample2" using tree_of_Parsed [OF demo_reads(2) [unfolded demo_commit_def]] by (simp add: demo_data_def)
  have h: "hash_commit demo_henv (demo_data sample3 [demo_id 2]) = demo_id 6"
    by (simp add: demo_meta demo_hash_def demo_data_def demo_differ)
  show "pushed demo_henv demo_filter demo_world (demo_id 2) (demo_id 4) [demo_id 5] (demo_id 6)"
    by (rule pushed_Cons [where d = "demo_data (demo_sub 5) [demo_id 4]" and d' = "demo_data sample3 [demo_id 2]"])
      (simp_all add: demo_reads demo_commit_def h rev t pushed_Nil, simp_all add: demo_data_def rev)
  have "shown_tree demo_henv demo_filter (demo_sub 5)" unfolding shown_tree_def using demo_trees(2,6) by blast
  then show "pushable demo_henv demo_filter demo_world (demo_id 5)"
    unfolding pushable_def
    by (simp add: demo_reads demo_commit_def demo_meta demo_hash_def demo_data_def demo_differ demo_differ [symmetric] gpgsig_headers_def gpgsig_mode_of_def)
qed

theorem push_roundtrip_witness:
  "\<exists>t' t''. unapply_filter demo_henv 1 2 demo_filter (demo_id 2) (demo_id 4) (demo_id 5) FailOrphans None (demo_tx (take 5 demo_world)) =
      Some (Inr (demo_id 6), t') \<and> apply_to_commit demo_henv 1 2 demo_filter (demo_id 6) t' = Some (Inr (demo_id 5), t'')"
proof -
  have s: "store (demo_tx S) = S" for S by (simp add: demo_tx_def)
  have st: "push_state demo_henv demo_filter demo_world (demo_id 2) (demo_tx (take 5 demo_world))"
    using demo_start [of 5] by (simp add: push_state_def s)
  have "complete (graph_of (take 5 demo_world)) (demo_id 5)"
  proof -
    have "ancestors (graph_of (take 5 demo_world)) (demo_id 5) \<subseteq> {demo_id 3, demo_id 4, demo_id 5}"
      by (rule ancestors_closed) (auto simp: edge_def read_parent_oids.simps demo_world_def demo_commit_def demo_data_def graph_of_def)
    then show ?thesis unfolding complete_def
      by (auto simp: read_parent_oids.simps demo_world_def demo_commit_def demo_data_def graph_of_def)
  qed
  then show ?thesis
    using push_roundtrip [OF demo_push(1) st demo_push(2), of 1 2 FailOrphans None] demo_push(3) by (auto simp: s)
qed

end
