(* ===== verification/Original_Search.thy ===== *)
theory Original_Search
  imports Push_Roundtrip
begin

text \<open>
  The search for the original of a filtered commit, \<^verbatim>\<open>find_original\<close>: it finds the commit that introduces the
  filtered commit, whenever the history has an original of it at all.
\<close>

definition introduces :: "henv \<Rightarrow> filt \<Rightarrow> cstore \<Rightarrow> oid \<Rightarrow> oid \<Rightarrow> bool" where
  "introduces H f W x c \<longleftrightarrow> filtered_form H f W c x \<and>
    (\<forall>d p. map_of W c = Some (GCommit (Parsed d)) \<longrightarrow> co_parents d = [p] \<longrightarrow> \<not> filtered_form H f W p x)"

lemma introduced:
  assumes "world W" "a \<in> ancestors (graph_of W) c" "filtered_form H f W a x"
  shows "\<exists>o' \<in> ancestors (graph_of W) c. introduces H f W x o'"
proof -
  obtain rank where rank: "ranked (graph_of W) rank" using assms(1) by (auto simp: world_def sane_def)
  show ?thesis using assms(2,3)
  proof (induction "rank a" arbitrary: a rule: less_induct)
    case less
    show ?case
    proof (cases "introduces H f W x a")
      case False
      then obtain d p where p: "map_of W a = Some (GCommit (Parsed d))" "co_parents d = [p]" "filtered_form H f W p x"
        using less.prems(2) by (auto simp: introduces_def)
      then have "edge (graph_of W) a p" using parents_Parsed [OF p(1)] by (simp add: edge_def)
      then show ?thesis using less.hyps [of p] rankedD [OF rank] ancestors_edge [OF less.prems(1)] p(3) by blast
    qed (use less.prems in blast)
  qed
qed

text \<open>A filter of trees that is optimized already.\<close>

definition filter_setup :: "henv \<Rightarrow> filt \<Rightarrow> cstore \<Rightarrow> bool" where
  "filter_setup H f W \<longleftrightarrow> world W \<and> plain_filter H f \<and> \<not> flagged f ''linear'' \<and> optimize (opt_fuel (base H)) f = Some f"

lemma apply_form:
  assumes "filter_setup H f W" "push_state H f W T t" "readable H f W (store t) c"
  shows "\<exists>r t'. apply_to_commit H (Suc n) (Suc (Suc k)) f c t = Some (Inr r, t') \<and> filtered_form H f W c r \<and>
    push_state H f W T t' \<and> tx_later H f t t'"
proof -
  obtain r t' where r: "apply_to_commit H (Suc n) (Suc (Suc k)) f c t = Some (Inr r, t')" "filtered_form H f W c r"
    "tx_ok H f W t'" "caught_up H f t'" "tx_later H f t t'"
    using apply_to_commit_step [of W H f f t c n k] assms unfolding filter_setup_def push_state_def by blast
  then show ?thesis using push_state_later [OF assms(2)] by blast
qed

text \<open>One candidate: it is returned when it introduces the filtered commit, and passed over otherwise.\<close>

lemma candidate_step:
  assumes "filter_setup H f W" "push_state H f W T t" "readable H f W (store t) c"
  shows "\<exists>t'. push_state H f W T t' \<and> tx_later H f t t' \<and>
    first_original H (Suc n) (Suc (Suc k)) f x (c # cs) t =
      (if introduces H f W x c then Some (Inr c, t') else first_original H (Suc n) (Suc (Suc k)) f x cs t')"
proof -
  obtain r u where u: "apply_to_commit H (Suc n) (Suc (Suc k)) f c t = Some (Inr r, u)" "filtered_form H f W c r"
    "push_state H f W T u" "tx_later H f t u" using apply_form [OF assms] by blast
  have ok: "tx_ok H f W t" "tx_ok H f W u" "world W" using assms(1,2) u(3) by (simp_all add: push_state_def filter_setup_def)
  have cu: "readable H f W (store u) c" by (rule tx_later_readable [OF u(4) ok(1) assms(3)])
  obtain d where d: "map_of (store u) c = Some (GCommit (Parsed d))" by (rule complete_commit [OF readableD(1) [OF cu]])
  have W: "map_of W c = Some (GCommit (Parsed d))" by (rule sub_storeD [OF tx_okD(1) [OF ok(2)] d])
  have ps: "read_parent_ids (graph_of (store u)) c = Inr (co_parents d)"
    using sane_read [OF tx_sane [OF ok(3,2)]] parents_Parsed [OF d] by simp
  show ?thesis
  proof (cases "r = x \<and> length (co_parents d) = 1")
    case True
    then obtain p where p: "co_parents d = [p]" by (cases "co_parents d") auto
    have pu: "readable H f W (store u) p" using readable_parents [OF cu d] p by simp
    obtain q v where v: "apply_to_commit H (Suc n) (Suc (Suc k)) f p u = Some (Inr q, v)" "filtered_form H f W p q"
      "push_state H f W T v" "tx_later H f u v" using apply_form [OF assms(1) u(3) pu] by blast
    have "introduces H f W x c \<longleftrightarrow> \<not> filtered_form H f W p x" using True u(2) W p by (simp add: introduces_def)
    moreover have "filtered_form H f W p x \<longleftrightarrow> q = x" using v(2) filtered_form_fun by blast
    ultimately show ?thesis using u(1) v True ps p tx_later_trans [OF u(4) v(4)] by (intro exI [of _ v]) (simp add: bindH_def readH_def)
  next
    case False
    moreover have "filtered_form H f W c x \<longleftrightarrow> r = x" using u(2) filtered_form_fun by blast
    ultimately have "introduces H f W x c \<longleftrightarrow> r = x" using W by (auto simp: introduces_def)
    then show ?thesis using u False ps by (intro exI [of _ u]) (simp add: bindH_def readH_def)
  qed
qed

lemma first_original_step:
  assumes "filter_setup H f W" "push_state H f W T t" "\<forall>c \<in> set cs. readable H f W (store t) c"
  shows "\<exists>r t'. first_original H (Suc n) (Suc (Suc k)) f x cs t = Some (Inr r, t') \<and> push_state H f W T t' \<and>
    (if \<exists>c \<in> set cs. introduces H f W x c then r \<in> set cs \<and> introduces H f W x r else r = zero_sha1)"
  using assms(2,3)
proof (induction cs arbitrary: t)
  case (Cons c cs)
  have c: "readable H f W (store t) c" using Cons.prems(2) by simp
  obtain u where u: "push_state H f W T u" "tx_later H f t u" "first_original H (Suc n) (Suc (Suc k)) f x (c # cs) t =
      (if introduces H f W x c then Some (Inr c, u) else first_original H (Suc n) (Suc (Suc k)) f x cs u)"
    using candidate_step [OF assms(1) Cons.prems(1) c] by blast
  have "\<forall>c \<in> set cs. readable H f W (store u) c"
    using Cons.prems tx_later_readable [OF u(2)] by (auto simp: push_state_def)
  from Cons.IH [OF u(1) this] obtain r v where
    v: "first_original H (Suc n) (Suc (Suc k)) f x cs u = Some (Inr r, v)" "push_state H f W T v"
    "if \<exists>c \<in> set cs. introduces H f W x c then r \<in> set cs \<and> introduces H f W x r else r = zero_sha1" by blast
  show ?case
  proof (cases "introduces H f W x c")
    case True
    then show ?thesis using u(1) u(3) by (intro exI [of _ c] exI [of _ u]) (simp del: first_original.simps)
  next
    case False
    then show ?thesis using u(3) v by (intro exI [of _ r] exI [of _ v]) (simp del: first_original.simps split: if_splits)
  qed
qed simp

text \<open>
  C8. \<^verbatim>\<open>find_original\<close> returns, and decides whether the history of a commit has an original of a filtered commit: a null
  result means that no commit of the history has that filtered form. Any other result is a commit of the history
  with that filtered form, and one that introduces it: a single parent of it has another filtered form.
\<close>

theorem find_original_correct:
  assumes "filter_setup H f W" "push_state H f W T t" "0 < n" "1 < k"
  shows "\<exists>r t'. find_original H n k f T x False t = Some (Inr r, t') \<and>
    (if r = zero_sha1 then \<forall>a \<in> ancestors (graph_of W) T. \<not> filtered_form H f W a x
     else r \<in> ancestors (graph_of W) T \<and> introduces H f W x r)"
proof -
  obtain n' k' where n: "n = Suc n'" "k = Suc (Suc k')" using fuel_Suc [OF assms(3,4)] by blast
  have W: "world W" and p: "plain_filter H f" using assms(1) by (simp_all add: filter_setup_def)
  have t: "tx_ok H f W t" "readable H f W (store t) T" using assms(2) by (simp_all add: push_state_def)
  note sub = tx_okD(1) [OF t(1)]
  obtain d where d: "map_of (store t) T = Some (GCommit (Parsed d))" "ensure_commit (graph_of (store t)) T = Inr ()"
    by (rule target_known [OF assms(2)])
  obtain rank where rank: "ranked (graph_of (store t)) rank" using tx_sane [OF W t(1)] by (auto simp: sane_def)
  obtain out where out: "into_topo_vec (graph_of (store t)) \<lparr> tips = [T], first_parent = False \<rparr> (\<lambda>_. False) = Inr out"
    "set out = reached (graph_of (store t)) False (\<lambda>_. False) {T}"
    using pruned_walk [OF rank readableD(1) [OF t(2)], of "\<lambda>_. False"] by auto
  have anc: "set out = ancestors (graph_of W) T"
    using out(2) ancestors_sub [OF sub readableD(1) [OF t(2)]] by (simp add: reached_def ancestors_def steps_to_False [abs_def])
  have rd: "\<forall>c \<in> set out. readable H f W (store t) c"
    using anc ancestors_sub [OF sub readableD(1) [OF t(2)]] readable_ancestor [OF t(2)] by simp
  have z: "T \<noteq> zero_sha1" using sub_storeD [OF sub d(1)] W by (auto simp: world_def)
  have topo: "topo_from False T (store t) = Inr out" using d(2) out(1) by (simp add: topo_from_def push_def new_walk_def Let_def)
  obtain r t' where r: "first_original H n k f x out t = Some (Inr r, t')"
    "if \<exists>c \<in> set out. introduces H f W x c then r \<in> set out \<and> introduces H f W x r else r = zero_sha1"
    using first_original_step [OF assms(1,2) rd, of n' k' x] unfolding n by blast
  have "find_original H n k f T x False t = Some (Inr r, t')"
    using z plain_filterD(3) [OF p] topo r(1) by (simp add: find_original_def bindH_def readH_def)
  moreover have "zero_sha1 \<notin> set out"
  proof
    assume "zero_sha1 \<in> set out"
    then have "complete (graph_of (store t)) zero_sha1" using rd readableD(1) by blast
    then obtain e where "map_of (store t) zero_sha1 = Some (GCommit (Parsed e))" by (rule complete_commit)
    then show False using sub_storeD [OF sub] W by (auto simp: world_def)
  qed
  moreover have "(\<forall>c \<in> set out. \<not> introduces H f W x c) \<Longrightarrow> \<forall>a \<in> ancestors (graph_of W) T. \<not> filtered_form H f W a x"
    using introduced [OF W, of _ T H f x] anc by blast
  ultimately show ?thesis using r(2) anc by (intro exI [of _ r] exI [of _ t']) (auto split: if_splits)
qed

theorem find_original_correct_witness:
  "\<exists>t'. find_original demo_henv 1 2 demo_filter (demo_id 2) (demo_id 3) False (demo_tx (take 2 demo_world)) = Some (Inr (demo_id 1), t')"
proof -
  have s: "store (demo_tx S) = S" for S by (simp add: demo_tx_def)
  have st: "push_state demo_henv demo_filter demo_world (demo_id 2) (demo_tx (take 2 demo_world))"
    using demo_start [of 2] by (simp add: push_state_def s)
  have e: "filter_setup demo_henv demo_filter demo_world" using demo_world_ok demo_plain by (simp add: filter_setup_def)
  have g: "edge (graph_of demo_world) (demo_id 1) p \<longleftrightarrow> False" "edge (graph_of demo_world) (demo_id 2) p \<longleftrightarrow> p = demo_id 1" for p
    by (simp_all add: edge_def read_parent_oids.simps demo_graph)
  have a: "ancestors (graph_of demo_world) (demo_id 2) \<subseteq> {demo_id 1, demo_id 2}" by (rule ancestors_closed) (auto simp: g)
  have one: "demo_id 1 \<in> ancestors (graph_of demo_world) (demo_id 2)" by (rule ancestors_edge [OF ancestors_self]) (simp add: g)
  have n: "\<not> filtered_form demo_henv demo_filter demo_world (demo_id 2) (demo_id 3)"
    using filtered_form_fun [OF demo_forms(2), of "demo_id 3"] by auto
  have k: "0 < (1::nat)" "1 < (2::nat)" by simp_all
  from find_original_correct [OF e st k, of "demo_id 3"]
  obtain r t' where r: "find_original demo_henv 1 2 demo_filter (demo_id 2) (demo_id 3) False (demo_tx (take 2 demo_world)) = Some (Inr r, t')"
    "if r = zero_sha1 then \<forall>a \<in> ancestors (graph_of demo_world) (demo_id 2). \<not> filtered_form demo_henv demo_filter demo_world a (demo_id 3)
     else r \<in> ancestors (graph_of demo_world) (demo_id 2) \<and> introduces demo_henv demo_filter demo_world (demo_id 3) r"
    by blast
  have "r \<noteq> zero_sha1"
  proof
    assume "r = zero_sha1"
    with r(2) one have "\<not> filtered_form demo_henv demo_filter demo_world (demo_id 1) (demo_id 3)" by simp
    then show False using demo_forms(1) ..
  qed
  then have "r \<in> {demo_id 1, demo_id 2}" "filtered_form demo_henv demo_filter demo_world r (demo_id 3)"
    using r(2) a by (auto simp: introduces_def)
  then have "r = demo_id 1" using n by auto
  then show ?thesis using r(1) by blast
qed

end
