(* ===== verification/Filtered_Limits.thy ===== *)
theory Filtered_Limits
  imports Push_Roundtrip
begin

text \<open>
  Where filtering a history falls short of its purpose: a link file without a commit makes \<^verbatim>\<open>apply_to_commit\<close> loop forever,
  and two filters with one printed form share their entries in the cache on disk.
\<close>

subsection \<open>A link file without a commit\<close>

text \<open>A root commit for which the filter has no answer, and nothing else is missing.\<close>

definition stuck :: "henv \<Rightarrow> filt \<Rightarrow> cstore \<Rightarrow> oid \<Rightarrow> gcommit \<Rightarrow> tx \<Rightarrow> bool" where
  "stuck H f W c d t \<longleftrightarrow> world W \<and> named_filter H f \<and> tx_ok H f W t \<and> looked_up H f t c = None \<and> (\<forall>(l, g, i) \<in> set (missing t). i = c) \<and>
    map_of (store t) c = Some (GCommit (Parsed d)) \<and> co_parents d = []"

definition unusable_link :: "henv \<Rightarrow> obj \<Rightarrow> bool" where
  "unusable_link H tree \<longleftrightarrow> experimental (base H) \<and>
    (\<exists>p link links. find_link_files (base H) tree = Inr ((p, link) # links) \<and> linked_commit H link = None)"

lemma stuckD:
  assumes "stuck H f W c d t"
  shows "world W" "named_filter H f" "tx_ok H f W t" "looked_up H f t c = None" "map_of (store t) c = Some (GCommit (Parsed d))"
    "co_parents d = []" "read_parent_oids (graph_of (store t)) c = Inr []" "complete (graph_of (store t)) c"
    "(l, g, i) \<in> set (missing t) \<Longrightarrow> g = f \<and> i = c"
proof -
  show r: "read_parent_oids (graph_of (store t)) c = Inr []" using assms parents_Parsed [of "store t" c d] by (simp add: stuck_def)
  then show "complete (graph_of (store t)) c" using ancestors_unfold [OF r] by (simp add: complete_def)
qed (use assms in \<open>auto simp: stuck_def tx_ok_def\<close>)

lemma stuck_unmoved:
  "stuck H f W c d t \<Longrightarrow> unmoved H f t t' \<Longrightarrow> tx_ok H f W t' \<Longrightarrow> \<forall>(l, g, i) \<in> set (missing t'). i = c \<Longrightarrow> stuck H f W c d t'"
  by (simp add: stuck_def unmoved_def)

lemma unlink_step:
  assumes "stuck H Unlink W c d t" "unusable_link H (co_tree d)"
  shows "\<exists>t'. commit_step H rec Unlink c t = Some (Inr None, t') \<and> stuck H Unlink W c d t'"
proof -
  note s = stuckD [OF assms(1)]
  obtain key where key: "filter_text H Unlink = Some key" using s(2) by (auto simp: named_filter_def)
  obtain u where u: "get_commit H Unlink c t = Some (Inr None, u)" "tx_ok H Unlink W u" "unmoved H Unlink t u"
    "missing u = missing t @ [(nesting_level t, Unlink, c)]"
    using get_step [OF s(1,3,8) _ key] s(4) by auto
  have "stuck H Unlink W c d u" using stuck_unmoved [OF assms(1) u(3,2)] u(4) s(9) by auto
  moreover have "commit_body H rec Unlink c u = Some (Inr None, u)"
    using stuckD(5) [OF calculation] s(6) assms(2)
    by (auto simp: commit_body_def bindH_def readH_def liftH_def commit_read_def commit_arm_def doneH_def commit_unlink_def unusable_link_def
        check_experimental_def filtered_parents_def bindO_def finish_commit_def)
  ultimately show ?thesis using u(1) by (auto simp: commit_step_def bindH_def)
qed

lemma unlink_commits:
  assumes "stuck H Unlink W c d t" "unusable_link H (co_tree d)" "set cs \<subseteq> {c}"
  shows "\<exists>t'. walk_commits (apply_to_commit2 H (Suc n)) Unlink cs t = Some (Inr (), t') \<and> stuck H Unlink W c d t'"
  using assms unlink_step [OF assms(1,2), of "apply_to_commit2 H n"] by (cases cs) (auto simp: bindH_def)

lemma unlink_walk:
  assumes "stuck H Unlink W c d t" "unusable_link H (co_tree d)"
  shows "\<exists>t'. walk2 H (Suc n) Unlink c t = Some (Inr (), t') \<and> stuck H Unlink W c d t'"
proof -
  note s = stuckD [OF assms(1)]
  obtain key where key: "filter_text H Unlink = Some key" using s(2) by (auto simp: named_filter_def)
  obtain u where u: "known H Unlink c t = Some (Inr False, u)" "tx_ok H Unlink W u" "unmoved H Unlink t u" "missing u = missing t"
    using known_step [OF s(1,3,8) _ key] s(4) by auto
  have st: "stuck H Unlink W c d u" using stuck_unmoved [OF assms(1) u(3,2)] u(4) s(9) by auto
  note su = stuckD [OF st]
  obtain rank where rank: "ranked (graph_of (store u)) rank" using tx_sane [OF su(1,3)] by (auto simp: sane_def)
  have p: "push (graph_of (store u)) new_walk c = Inr \<lparr> tips = [c], first_parent = False \<rparr>"
    using su(5) by (simp add: push_def new_walk_def ensure_commit.simps map_of_graph)
  obtain out where out: "into_topo_vec (graph_of (store u)) \<lparr> tips = [c], first_parent = False \<rparr> (known_now H Unlink u) = Inr out"
    "set out = {a \<in> reached (graph_of (store u)) False (known_now H Unlink u) {c}. \<not> known_now H Unlink u a}"
    using pruned_walk [OF rank su(8), of "known_now H Unlink u"] by blast
  have "ancestors (graph_of (store u)) c = {c}" using ancestors_unfold [OF su(7)] by simp
  then have "set out \<subseteq> {c}" using out(2) reached_ancestors [of "graph_of (store u)" False "known_now H Unlink u" c] by auto
  then have "set (rev out) \<subseteq> {c}" by simp
  from unlink_commits [OF st assms(2) this, of n] obtain v where
    v: "walk_commits (apply_to_commit2 H (Suc n)) Unlink (rev out) u = Some (Inr (), v)" "stuck H Unlink W c d v" by blast
  have "walk2 H (Suc n) Unlink c t = Some (Inr (), v)"
    using u(1) p out(1) v(1) by (simp add: walk2_def bindH_def history_flag_def del: apply_to_commit2.simps)
  then show ?thesis using v(2) by blast
qed

lemma unlink_walks:
  assumes "stuck H Unlink W c d t" "unusable_link H (co_tree d)" "\<forall>(l, g, i) \<in> set ms. g = Unlink \<and> i = c"
  shows "\<exists>t'. foldH (\<lambda>_ (level, f, input). bindH (set_nesting (Suc level)) (\<lambda>_. walk2 H (Suc n) f input)) () ms t = Some (Inr (), t') \<and>
    stuck H Unlink W c d t'"
  using assms(1,3)
proof (induction ms arbitrary: t)
  case (Cons m ms)
  obtain l where m: "m = (l, Unlink, c)" using Cons.prems(2) by (cases m) auto
  have "stuck H Unlink W c d (t\<lparr> nesting_level := Suc l \<rparr>)" using Cons.prems(1) by (simp add: stuck_def tx_ok_def)
  then obtain u where u: "walk2 H (Suc n) Unlink c (t\<lparr> nesting_level := Suc l \<rparr>) = Some (Inr (), u)" "stuck H Unlink W c d u"
    using unlink_walk [OF _ assms(2)] by blast
  have "\<forall>(l, g, i) \<in> set ms. g = Unlink \<and> i = c" using Cons.prems(2) by simp
  from Cons.IH [OF u(2) this] obtain v where
    v: "foldH (\<lambda>_ (level, f, input). bindH (set_nesting (Suc level)) (\<lambda>_. walk2 H (Suc n) f input)) () ms u = Some (Inr (), v)"
    "stuck H Unlink W c d v" by blast
  have "foldH (\<lambda>_ (level, f, input). bindH (set_nesting (Suc level)) (\<lambda>_. walk2 H (Suc n) f input)) () (m # ms) t = Some (Inr (), v)"
    by (rule foldH_step [OF _ v(1)]) (use u(1) in \<open>simp add: m set_nesting_def\<close>)
  then show ?case using v(2) by blast
qed simp

lemma unlink_loop:
  assumes "stuck H Unlink W c d t" "unusable_link H (co_tree d)"
  shows "apply_loop H n k Unlink c t = None"
  using assms(1)
proof (induction k arbitrary: t)
  case (Suc k)
  show ?case
  proof (cases n)
    case 0
    then show ?thesis by (simp add: bindH_def)
  next
    case (Suc n')
    obtain u where u: "apply_to_commit2 H n Unlink c t = Some (Inr None, u)" "stuck H Unlink W c d u"
      using unlink_step [OF Suc.prems assms(2), of "apply_to_commit2 H n'"] Suc by auto
    note su = stuckD [OF u(2)]
    obtain ms v where v: "get_missing H u = Some (Inr ms, v)" "tx_ok H Unlink W v" "unmoved H Unlink u v" "missing v = ms"
      "\<forall>(l, g, i) \<in> set ms. (l, g, i) \<in> set (missing u) \<and> \<not> answered H Unlink u i"
      using missing_step [OF su(1,2,3)] by blast
    have ms: "(l, g, i) \<in> set ms \<Longrightarrow> g = Unlink \<and> i = c" for l g i using v(5) su(9) by blast
    have st: "stuck H Unlink W c d v" using stuck_unmoved [OF u(2) v(3,2)] ms v(4) by auto
    let ?top = "takeWhile (\<lambda>(level, _, _). level = (if ms = [] then 0 else fst (last ms))) (rev ms)"
    have "\<forall>(l, g, i) \<in> set ?top. g = Unlink \<and> i = c" using ms by (auto dest!: set_takeWhileD)
    from unlink_walks [OF st assms(2) this, of n'] obtain w where w: "walk_missing H n ms v = Some (Inr (), w)" "stuck H Unlink W c d w"
      unfolding walk_missing_def Let_def Suc by blast
    show ?thesis using u(1) v(1) w(1) Suc.IH [OF w(2)] by (simp add: bindH_def)
  qed
qed simp

lemma optimize_Unlink: "optimize n Unlink = None \<or> optimize n Unlink = Some Unlink"
proof (cases n)
  case (Suc m)
  have "flatten_impl (Suc m) False Unlink = Some Unlink" "simplify (Suc m) Unlink = Some Unlink" "step (Suc m) Unlink = Some Unlink"
    by (simp_all add: Let_def)
  moreover from this(3) have "iterate (Suc m) Unlink = Some Unlink" by (simp add: iterate_def numeral_eq_Suc)
  ultimately show ?thesis by (simp add: Suc optimize_def optimize_impl_def)
qed (simp add: optimize_def optimize_impl_def)

text \<open>
  C38. Filtering a root commit with \<^verbatim>\<open>:unlink\<close> never returns when the first link file of its tree names no commit: whatever
  the fuel, the loop of \<^verbatim>\<open>apply_to_commit\<close> has no result, because the arm gives up without an error
  and every round finds the same commit missing again.
\<close>

theorem unlink_never_returns:
  assumes "stuck H Unlink W c d t" "unusable_link H (co_tree d)"
  shows "apply_to_commit H n k Unlink c t = None"
  using unlink_loop [OF assms] optimize_Unlink [of "opt_fuel (base H)"] by (auto simp: apply_to_commit_def bindH_def fuelH_def)

definition link_henv :: henv where
  "link_henv = demo_henv\<lparr> base := bare_env\<lparr> opt_fuel := 20, experimental := True \<rparr> \<rparr>"

definition link_world :: cstore where
  "link_world = [(demo_id 1, demo_commit (Tree [Entry mode_blob ''.link.josh'' (Blob '':/'')]) [])]"

theorem unlink_never_returns_witness:
  "apply_to_commit link_henv 9 99 Unlink (demo_id 1) (demo_tx link_world) = None"
proof -
  let ?tree = "Tree [Entry mode_blob ''.link.josh'' (Blob '':/'')]"
  have "find_link_files (base link_henv) ?tree = Inr [([], Nop)]" by code_simp
  then have u: "unusable_link link_henv ?tree" by (auto simp: unusable_link_def link_henv_def linked_commit_def)
  have t: "filter_text link_henv Unlink \<noteq> None" by code_simp
  have r: "ranked (graph_of link_world) (\<lambda>_. 0)"
    unfolding ranked_def edge_def by (auto simp: read_parent_oids.simps graph_of_def link_world_def demo_commit_def demo_data_def split: if_splits)
  then have w: "world link_world" unfolding world_def sane_def
    by (auto simp: graph_of_def link_world_def demo_commit_def demo_data_def universe_def)
  have c: "cache_ok odb (graph empty_caches)" for odb by (simp add: cache_ok_def empty_caches_def try_read_cached_hint_def)
  have "stuck link_henv Unlink link_world (demo_id 1) (demo_data ?tree []) (demo_tx link_world)"
    unfolding stuck_def using w t c
    by (simp add: named_filter_def tx_ok_def demo_tx_def looked_up_def sub_store_def sled_read_def link_world_def demo_commit_def demo_data_def)
  from unlink_never_returns [OF this] u show ?thesis by (simp add: demo_data_def)
qed

subsection \<open>Two filters with one text\<close>

text \<open>
  C39. The cache on disk tells filters apart by their printed form only: when a filter left its result for a commit there,
  every other filter with the same text returns that result for the commit, although it may show other files.
\<close>

theorem same_text_same_commit:
  assumes "world W" "tx_ok H f W t" "complete (graph_of (store t)) c" "named_filter H f"
    and "first_hit sled_read (backends t) (the (filter_text H f), c) = Some r" "r = zero_sha1 \<or> map_of (store t) r \<noteq> None"
    and "tree_op g" "optimize (opt_fuel (base H)) g = Some g" "filter_text H g = filter_text H f" "commit_map t (g, c) = None"
  shows "\<exists>t'. apply_to_commit H (Suc n) (Suc k) g c t = Some (Inr r, t') \<and> filtered_form H f W c r"
proof -
  obtain key where key: "filter_text H f = Some key" using assms(4) by (auto simp: named_filter_def)
  have g: "g \<noteq> Nop" using assms(7) by auto
  obtain u where u: "graphH (\<lambda>odb. compute_history_hint odb c) t = Some (Inr (hint_of (graph_of (store t)) c), u)"
    "unmoved H f t u" "backends u = backends t"
    using hint_step [OF assms(1-3)] by blast
  obtain bs where bs: "read_propagate sled_read sled_write (backends t) (key, c) = (Some r, bs)"
    using sl.propagate_first [of "backends t" "(key, c)"] assms(5) key by (metis option.sel prod.collapse)
  have "get2 H g c t = Some (Inr (Some r), u\<lparr> backends := bs \<rparr>)"
    using u bs g assms(6,9,10) key
    by (auto simp: get2_def bindH_def sled_tree_def fuelH_def filter_text_def unmoved_def)
  then have "apply_to_commit2 H (Suc n) g c t = Some (Inr (Some r), u\<lparr> backends := bs \<rparr>)"
    using assms(7) by (simp add: tree_op_arm bindH_def get_commit_def)
  then have "apply_to_commit H (Suc n) (Suc k) g c t = Some (Inr r, u\<lparr> backends := bs \<rparr>)"
    using assms(8) by (simp add: apply_to_commit_def bindH_def fuelH_def)
  moreover have "filtered_form H f W c r" using assms(2,5) by (auto simp: tx_ok_def)
  ultimately show ?thesis by blast
qed

definition star_tree :: obj where
  "star_tree = Tree [Entry mode_blob ''a1'' (Blob ''1''), Entry mode_blob ''b'' (Blob ''2'')]"

definition star_shown :: obj where
  "star_shown = Tree [Entry mode_blob ''a1'' (Blob ''1'')]"

definition star_henv :: henv where
  "star_henv = demo_henv\<lparr> hash_commit := \<lambda>d. demo_id (if co_tree d = star_tree then 1 else 2) \<rparr>"

definition star_world :: cstore where
  "star_world = [(demo_id 1, demo_commit star_tree []), (demo_id 2, demo_commit star_shown [])]"

definition star_tx :: tx where
  "star_tx = (demo_tx star_world)\<lparr> backends := [(\<lambda>_. None)((the (filter_text star_henv (Pattern ''a*'')), demo_id 1) \<mapsto> demo_id 2)] \<rparr>"

lemma star_ok: "world star_world" "tx_ok star_henv (Pattern ''a*'') star_world star_tx" "complete (graph_of star_world) (demo_id 1)"
proof -
  have p: "read_parent_oids (graph_of star_world) (demo_id 1) = Inr []" "read_parent_oids (graph_of star_world) (demo_id 2) = Inr []"
    by (simp_all add: read_parent_oids.simps graph_of_def star_world_def demo_commit_def demo_data_def)
  have c: "complete (graph_of star_world) (demo_id 1)" "complete (graph_of star_world) (demo_id 2)"
    using ancestors_unfold [OF p(1)] ancestors_unfold [OF p(2)] p by (simp_all add: complete_def)
  then show "complete (graph_of star_world) (demo_id 1)" by simp
  have "ranked (graph_of star_world) (\<lambda>_. 0)"
    unfolding ranked_def edge_def by (auto simp: read_parent_oids.simps graph_of_def star_world_def demo_commit_def demo_data_def split: if_splits)
  then show "world star_world" unfolding world_def sane_def
    by (auto simp: graph_of_def star_world_def demo_commit_def demo_data_def universe_def)
  have t: "filtered_tree star_henv (Pattern ''a*'') star_tree = star_shown" by code_simp
  have e: "is_empty_root star_tree = Inr False" by code_simp
  have d: "star_shown \<noteq> empty_id" "star_shown \<noteq> star_tree" by (simp_all add: star_shown_def star_tree_def empty_id_def)
  have h: "hash_commit star_henv = (\<lambda>d. demo_id (if co_tree d = star_tree then 1 else 2))" by (simp add: star_henv_def)
  have m: "bt_get (into_meta (Pattern ''a*'')) k = None" for k by (simp add: bt_get_def)
  have "filtered_form star_henv (Pattern ''a*'') star_world (demo_id 1) (demo_id 2)"
    by (rule filtered_form.filtered [where d = "demo_data star_tree []" and rs = "[]"])
      (simp_all add: commit_read_def verdict_id_def filtered_verdict_def written_verdict_def kept_parents_def flagged_def
        star_world_def demo_commit_def demo_data_def t e d m Let_def history_flag_def gpgsig_headers_def gpgsig_mode_of_def h)
  moreover have "cache_ok odb (graph empty_caches)" for odb by (simp add: cache_ok_def empty_caches_def try_read_cached_hint_def)
  moreover have "sub_store star_world star_world" by (simp add: sub_store_def star_world_def)
  ultimately show "tx_ok star_henv (Pattern ''a*'') star_world star_tx"
    using c by (auto simp: tx_ok_def star_tx_def demo_tx_def sled_read_def settled_def)
qed

theorem same_text_same_commit_witness:
  "(\<exists>t'. apply_to_commit star_henv 1 1 (File [Normal ''a*''] [Normal ''a*'']) (demo_id 1) star_tx = Some (Inr (demo_id 2), t')) \<and>
    tree_of star_world (demo_id 2) = star_shown \<and>
    filtered_tree star_henv (File [Normal ''a*''] [Normal ''a*'']) star_tree = empty_id"
proof -
  let ?g = "File [Normal ''a*''] [Normal ''a*'']"
  have s: "store star_tx = star_world" "commit_map star_tx = (\<lambda>_. None)"
    "first_hit sled_read (backends star_tx) (the (filter_text star_henv (Pattern ''a*'')), demo_id 1) = Some (demo_id 2)"
    by (simp_all add: star_tx_def demo_tx_def sled_read_def)
  have n: "named_filter star_henv (Pattern ''a*'')" "filter_text star_henv ?g = filter_text star_henv (Pattern ''a*'')"
    "optimize (opt_fuel (base star_henv)) ?g = Some ?g" "filtered_tree star_henv ?g star_tree = empty_id"
    unfolding named_filter_def by code_simp+
  have "map_of star_world (demo_id 2) \<noteq> None" "tree_of star_world (demo_id 2) = star_shown"
    by (simp_all add: star_world_def tree_of_def read_tree_id_def commit_read_def demo_commit_def demo_data_def)
  then show ?thesis
    using same_text_same_commit [OF star_ok(1,2) _ n(1) s(3), of ?g 0 0] star_ok(3) n(2,3,4) s(1,2) by auto
qed

end
