(* ===== verification/Spec2Isabelle.thy ===== *)
theory Spec2Isabelle
  imports Filter_Walk Persist_Roundtrip Original_Search Filtered_Limits
begin

text \<open>
  Josh projects the history of a git repository: a filter shows part of every tree, perhaps in other
  places, and the commits are rewritten accordingly; commits on top of a filtered branch are brought back
  to the original one. This development models the filter language, its operation on trees and
  on histories, and the caches and walks below them, and proves what they promise. Paths are below
  \<^verbatim>\<open>src/\<close>.

  \<^bold>\<open>The parts and how they interact.\<close> A filter (\<^verbatim>\<open>josh-filter\<close>) is a term of operators. It is optimized, printed and
  stored as git trees. \<^verbatim>\<open>josh-core/src/filter\<close> applies it to a tree, with the tree operations of \<^verbatim>\<open>tree.rs\<close>, and reverses it. A
  transaction (\<^verbatim>\<open>josh-core/src/cache\<close>) keeps the filtered commit of every commit seen, in memory and in a stack of
  databases; the history graph, kept in the same caches, numbers the commits. \<^verbatim>\<open>apply_to_commit\<close> filters a commit and, through the walks of
  \<^verbatim>\<open>josh-gix-ext/src/revwalk.rs\<close>, the history it needs; \<^verbatim>\<open>josh-core/src/history.rs\<close> chooses the parents of a filtered commit,
  writes it, and brings pushed commits back.

  \<^bold>\<open>Conventions.\<close> \<^verbatim>\<open>Prelude\<close> has the result type (\<^verbatim>\<open>anyhow::Result\<close> is a sum with a datatype of errors on the left), UTF-8 and
  list lemmas; \<^verbatim>\<open>Std_Path\<close> models \<^verbatim>\<open>std::path\<close> by lists of components. An object id is the object it
  names, for trees and blobs, so equality of ids is equality of contents; a commit is stored under the hash of its content, a
  parameter. Machine integers are words where they can wrap, as in the packed hints of the history graph. Stateful code
  passes its state: the caches of a tree run (\<^verbatim>\<open>'a run\<close>), the transaction of a history run (\<^verbatim>\<open>'a hrun\<close>).

  \<^bold>\<open>Trees.\<close>
  \<^item> \<^verbatim>\<open>Git_Tree\<close>: tree objects and entry-level operations of \<^verbatim>\<open>josh-core/src/filter/tree.rs\<close>.
  \<^item> \<^verbatim>\<open>Tree_View\<close>: the files of a tree as a map from paths; trees without empty directories are determined by it.
  \<^item> \<^verbatim>\<open>Tree_Ops\<close>: subtract, intersect, overlay; each is characterized on that map.
  \<^item> \<^verbatim>\<open>Tree_Walk\<close>: remove_pred, the paths tree and its inverse, text replacement, diffs, tree walks.
  \<^item> \<^verbatim>\<open>Glob\<close>, \<^verbatim>\<open>Pattern_Walk\<close>, \<^verbatim>\<open>Pattern_Full\<close>: the vendored matcher computes the meaning of the tokens, and
    the walk with an automaton per path component (\<^verbatim>\<open>josh-filter/src/pattern.rs\<close>) selects what the matcher accepts on full paths.

  \<^bold>\<open>Filters.\<close>
  \<^item> \<^verbatim>\<open>Filter_Op\<close>, \<^verbatim>\<open>Filter_Walk\<close>: the operators of \<^verbatim>\<open>op.rs\<close>, metadata, references, path sets.
  \<^item> \<^verbatim>\<open>Opt_Structure\<close>, \<^verbatim>\<open>Opt_Prefix_Sort\<close>, \<^verbatim>\<open>Optimizer\<close>: \<^verbatim>\<open>josh-filter/src/opt\<close>. Inversion is an involution after
    one round, except on filters with \<^verbatim>\<open>:link\<close>; the sort of a composition permutes without swapping filters that overlap.
  \<^item> \<^verbatim>\<open>Flang_Print\<close>: the printer of \<^verbatim>\<open>flang/mod.rs\<close>.
  \<^item> \<^verbatim>\<open>Persist_Write\<close>, \<^verbatim>\<open>Persist_Format\<close>, \<^verbatim>\<open>Persist_Read\<close>, \<^verbatim>\<open>Persist_Roundtrip\<close>: filters stored as trees
    (\<^verbatim>\<open>persist.rs\<close>) read back as they were, up to two defects that are proved as such.

  \<^bold>\<open>Applying and reversing.\<close>
  \<^item> \<^verbatim>\<open>Apply_Env\<close>, \<^verbatim>\<open>Apply_Ops\<close>, \<^verbatim>\<open>Apply\<close>: \<^verbatim>\<open>apply_impl\<close>, \<^verbatim>\<open>unapply\<close>, workspaces, stored filters
    and links of \<^verbatim>\<open>josh-core/src/filter/mod.rs\<close>, for all operators.
  \<^item> \<^verbatim>\<open>Apply_Fuel\<close>: more fuel never changes a result. \<^verbatim>\<open>Moves\<close>, \<^verbatim>\<open>Moves_Apply\<close>: for filters that move files the
    fuel above their height is enough, and the result is given by a relation on paths.
  \<^item> \<^verbatim>\<open>Lens\<close>: the contract in the comment of \<^verbatim>\<open>unapply\<close>: put-get, get-put and minimality.

  \<^bold>\<open>Graphs and walks.\<close>
  \<^item> \<^verbatim>\<open>Revwalk\<close>, \<^verbatim>\<open>Rangewalk\<close>: the pruned topological walk, the streaming walk and the range walk return exactly
    the commits they should, children first, or meet an unreadable one.
  \<^item> \<^verbatim>\<open>History_Graph\<close>, \<^verbatim>\<open>History_Spec\<close>, \<^verbatim>\<open>History_Query\<close>: sequence numbers, root sets, sample
    points (\<^verbatim>\<open>cache/history_graph.rs\<close>); the cache only holds right entries and the queries answer reachability.

  \<^bold>\<open>Histories.\<close>
  \<^item> \<^verbatim>\<open>Transaction\<close>: the state of \<^verbatim>\<open>cache/transaction.rs\<close>, \<^verbatim>\<open>stack.rs\<close> and \<^verbatim>\<open>sled.rs\<close>, with the contract of a cache
    backend as a locale. \<^verbatim>\<open>Commit_Write\<close>: the parents and the writing of a filtered commit. \<^verbatim>\<open>Commit_Filter\<close>:
    \<^verbatim>\<open>apply_to_commit2\<close> with all its arms, \<^verbatim>\<open>walk2\<close>, \<^verbatim>\<open>apply_to_commit\<close>. \<^verbatim>\<open>Commit_Unapply\<close>: \<^verbatim>\<open>find_original\<close>, \<^verbatim>\<open>unapply_filter\<close>.
  \<^item> \<^verbatim>\<open>Filtered_Form\<close> says what the filtered form of a commit is, by recursion over its parents and without caches, walks or
    fuel. \<^verbatim>\<open>Filtered_Run\<close> and \<^verbatim>\<open>Filtered_History\<close> prove that the code computes it: when every entry
    that the caches have for the filter is right, \<^verbatim>\<open>apply_to_commit\<close> returns the filtered form and leaves the caches right; so from empty caches
    a transaction gives each commit the same result in whatever order it filters them.
  \<^item> \<^verbatim>\<open>Push_Roundtrip\<close>: filtering what \<^verbatim>\<open>unapply_filter\<close> returns gives the pushed commit back. \<^verbatim>\<open>Original_Search\<close>:
    \<^verbatim>\<open>find_original\<close> finds the commit that introduces a filtered commit. \<^verbatim>\<open>Filtered_Limits\<close>: a loop that never ends, and
    cache entries shared by two filters with one text, which is how a wrong entry can come about.
  \<^item> The theorems on histories speak of a world: a store that has every commit involved under its id, originals and filtered ones.
    That a hash does not collide on these commits is the assumption; everything else about the hash is open.

  \<^bold>\<open>Fuel and bounds.\<close> The optimizer, \<^verbatim>\<open>apply_impl\<close> and \<^verbatim>\<open>apply_to_commit2\<close> recurse through filters that they read or compute, so they
  take fuel, and None means that it ran out. For filters that move files a fuel above the height is enough. For filters of trees one level of
  \<^verbatim>\<open>apply_to_commit2\<close> and two rounds of the loop in \<^verbatim>\<open>apply_to_commit\<close> are enough, for every history: the first round walks all that is missing.
  Loops over lists, trees, walks and the commits to bring back end by themselves. The store has fewer than 2^64 commits with ids of twenty bytes.

  \<^bold>\<open>Parameters.\<close> Code outside \<^verbatim>\<open>src/\<close> is an argument: binary search in a tree, regular expressions, string
  formatting, the parser of filter texts (a generated grammar), scripts, the trigram index, the hash of a commit, signatures, the order of a hash set,
  and the merge bases and merges of the gix crates.

  \<^bold>\<open>Not modelled.\<close> The grammar of \<^verbatim>\<open>flang/parse.rs\<close> (generated by a parser generator); references, configuration and the
  git notes backend of the cache; the in-memory object database and its packs; the trigram index of \<^verbatim>\<open>josh-search\<close>; the
  proxy, the command line, forges, the merge queue, compose, RPC and graphical programs: they are input and output, subprocesses
  and network access around the parts above. Memo tables of pure functions and logging are left out of the modelled functions.
\<close>

end
